(* ===== verification/Prelude.thy ===== *)
theory Prelude
  imports Main "HOL-Library.Word"
begin

unbundle bit_operations_syntax

text \<open>
  Shared vocabulary of the development: the machine types of the source, the byte-order
  helpers of \<^verbatim>\<open>src/src/crypto/common.h\<close>, C's truncating division, the result type used for
  code that may fail, and the generic lemmas on lists and words that the components share.
\<close>

named_theorems codec_simps \<open>rewriting of byte-order encoders and decoders\<close>

section \<open>Machine types\<close>

type_synonym byte = "8 word"
type_synonym u16 = "16 word"
type_synonym u32 = "32 word"
type_synonym u64 = "64 word"
type_synonym bytes = "byte list"

text \<open>
  Signed integers whose range matters are \<^typ>\<open>int\<close> values brought back into range by these
  two functions, which read a number as a two's complement 32 or 64 bit integer.
\<close>

definition to_int32 :: "int \<Rightarrow> int" where
  "to_int32 x = (x + 2 ^ 31) mod 2 ^ 32 - 2 ^ 31"

definition to_int64 :: "int \<Rightarrow> int" where
  "to_int64 x = (x + 2 ^ 63) mod 2 ^ 64 - 2 ^ 63"

text \<open>C and C++ divide towards zero.\<close>

definition cdiv :: "int \<Rightarrow> int \<Rightarrow> int" where
  "cdiv a b = (if 0 \<le> a then (if 0 \<le> b then a div b else - (a div (- b)))
               else (if 0 \<le> b then - ((- a) div b) else (- a) div (- b)))"

definition cmod :: "int \<Rightarrow> int \<Rightarrow> int" where
  "cmod a b = a - cdiv a b * b"

lemma to_int32_id [simp]: "- (2 ^ 31) \<le> x \<Longrightarrow> x < 2 ^ 31 \<Longrightarrow> to_int32 x = x"
  by (simp add: to_int32_def)

lemma to_int64_id [simp]: "- (2 ^ 63) \<le> x \<Longrightarrow> x < 2 ^ 63 \<Longrightarrow> to_int64 x = x"
  by (simp add: to_int64_def)

lemma to_int32_range: "- (2 ^ 31) \<le> to_int32 x \<and> to_int32 x < 2 ^ 31"
  by (simp add: to_int32_def)

lemma to_int64_range: "- (2 ^ 63) \<le> to_int64 x \<and> to_int64 x < 2 ^ 63"
  by (simp add: to_int64_def)

lemma cdiv_nonneg [simp]: "0 \<le> a \<Longrightarrow> 0 \<le> b \<Longrightarrow> cdiv a b = a div b"
  by (simp add: cdiv_def)

section \<open>Results\<close>

text \<open>
  Fallible code returns \<open>'e + 'a\<close>, with \<^const>\<open>Inl\<close> for the failure. \<open>bindE\<close> runs the
  next step only after a success, as an early return does.
\<close>

definition bindE :: "'e + 'a \<Rightarrow> ('a \<Rightarrow> 'e + 'b) \<Rightarrow> 'e + 'b" where
  "bindE m f = (case m of Inl e \<Rightarrow> Inl e | Inr x \<Rightarrow> f x)"

lemma bindE_simps [simp, code]: "bindE (Inl e) f = Inl e" "bindE (Inr x) f = f x"
  by (simp_all add: bindE_def)

lemma bindE_eq_Inr [simp]: "bindE m f = Inr y \<longleftrightarrow> (\<exists>x. m = Inr x \<and> f x = Inr y)"
  by (cases m) auto

lemma bindE_eq_Inl: "bindE m f = Inl e \<longleftrightarrow> m = Inl e \<or> (\<exists>x. m = Inr x \<and> f x = Inl e)"
  by (cases m) auto

lemma bindE_assoc: "bindE (bindE m f) g = bindE m (\<lambda>x. bindE (f x) g)"
  by (cases m) auto

definition guardE :: "bool \<Rightarrow> 'e \<Rightarrow> 'e + unit" where
  "guardE b e = (if b then Inr () else Inl e)"

lemma guardE_simps [simp]: "guardE True e = Inr ()" "guardE False e = Inl e"
  by (simp_all add: guardE_def)

lemma guardE_eq_Inr [simp]: "guardE b e = Inr u \<longleftrightarrow> b"
  by (simp add: guardE_def)

lemma guardE_eq_Inl: "guardE b e = Inl e' \<longleftrightarrow> \<not> b \<and> e' = e"
  by (auto simp: guardE_def)

section \<open>Byte order\<close>

text \<open>
  \<open>le_val\<close> reads a byte list as a little-endian number and \<open>le_bytes k n\<close> writes the
  \<open>k\<close> low bytes of \<open>n\<close>. The fixed-width readers and writers of the source copy the bytes
  with \<^verbatim>\<open>memcpy\<close> and swap them with \<^verbatim>\<open>le32toh\<close> and its kin; on any host the result is the
  number these two functions denote.
\<close>

primrec le_val :: "bytes \<Rightarrow> nat" where
  "le_val [] = 0"
| "le_val (b # bs) = unat b + 256 * le_val bs"

primrec le_bytes :: "nat \<Rightarrow> nat \<Rightarrow> bytes" where
  "le_bytes 0 n = []"
| "le_bytes (Suc k) n = word_of_nat (n mod 256) # le_bytes k (n div 256)"

definition be_val :: "bytes \<Rightarrow> nat" where
  "be_val bs = le_val (rev bs)"

definition be_bytes :: "nat \<Rightarrow> nat \<Rightarrow> bytes" where
  "be_bytes k n = rev (le_bytes k n)"

lemma unat_bound: "unat (x :: 'a::len word) < 2 ^ LENGTH('a)"
  by (rule unsigned_less)

lemma length_le_bytes [simp]: "length (le_bytes k n) = k"
  by (induction k arbitrary: n) auto

lemma length_be_bytes [simp]: "length (be_bytes k n) = k"
  by (simp add: be_bytes_def)

lemma le_val_bound: "le_val bs < 256 ^ length bs"
proof (induction bs)
  case Nil
  then show ?case by simp
next
  case (Cons b bs)
  have "unat b < 256" using unat_bound [of b] by simp
  with Cons show ?case by simp
qed

lemma unat_of_nat_byte [simp]: "unat (word_of_nat (n mod 256) :: byte) = n mod 256"
  by (simp add: unat_of_nat)

lemma le_bytes_empty [simp]: "le_bytes k m = [] \<longleftrightarrow> k = 0"
  by (cases k) simp_all

lemma le_val_le_bytes [codec_simps]: "le_val (le_bytes k n) = n mod 256 ^ k"
proof (induction k arbitrary: n)
  case 0
  then show ?case by simp
next
  case (Suc k)
  then show ?case by (simp add: mod_mult2_eq)
qed

lemma le_bytes_le_val [codec_simps]: "le_bytes (length bs) (le_val bs) = bs"
proof (induction bs)
  case Nil
  then show ?case by simp
next
  case (Cons b bs)
  have b: "unat b < 256" using unat_bound [of b] by simp
  then have "(unat b + 256 * le_val bs) mod 256 = unat b"
    and "(unat b + 256 * le_val bs) div 256 = le_val bs"
    by simp_all
  with Cons show ?case by simp
qed

lemma be_val_bound: "be_val bs < 256 ^ length bs"
  using le_val_bound [of "rev bs"] by (simp add: be_val_def)

lemma be_val_be_bytes [codec_simps]: "be_val (be_bytes k n) = n mod 256 ^ k"
  by (simp add: be_val_def be_bytes_def codec_simps)

lemma le_val_append [codec_simps]: "le_val (xs @ ys) = le_val xs + 256 ^ length xs * le_val ys"
  by (induction xs) (auto simp: algebra_simps)

text \<open>The readers and writers of \<^verbatim>\<open>crypto/common.h\<close>.\<close>

definition ReadLE16 :: "bytes \<Rightarrow> u16" where
  "ReadLE16 ptr = word_of_nat (le_val (take 2 ptr))"

definition ReadLE32 :: "bytes \<Rightarrow> u32" where
  "ReadLE32 ptr = word_of_nat (le_val (take 4 ptr))"

definition ReadLE64 :: "bytes \<Rightarrow> u64" where
  "ReadLE64 ptr = word_of_nat (le_val (take 8 ptr))"

definition WriteLE16 :: "u16 \<Rightarrow> bytes" where
  "WriteLE16 x = le_bytes 2 (unat x)"

definition WriteLE32 :: "u32 \<Rightarrow> bytes" where
  "WriteLE32 x = le_bytes 4 (unat x)"

definition WriteLE64 :: "u64 \<Rightarrow> bytes" where
  "WriteLE64 x = le_bytes 8 (unat x)"

definition ReadBE32 :: "bytes \<Rightarrow> u32" where
  "ReadBE32 ptr = word_of_nat (be_val (take 4 ptr))"

definition WriteBE32 :: "u32 \<Rightarrow> bytes" where
  "WriteBE32 x = be_bytes 4 (unat x)"

definition WriteBE64 :: "u64 \<Rightarrow> bytes" where
  "WriteBE64 x = be_bytes 8 (unat x)"

lemma length_Write [simp]:
  "length (WriteLE16 x) = 2" "length (WriteLE32 y) = 4" "length (WriteLE64 z) = 8"
  "length (WriteBE32 y) = 4" "length (WriteBE64 z) = 8"
  by (simp_all add: WriteLE16_def WriteLE32_def WriteLE64_def WriteBE32_def WriteBE64_def)

lemma ReadLE16_Write [codec_simps]: "ReadLE16 (WriteLE16 x @ rest) = x"
  using unat_bound [of x] by (simp add: ReadLE16_def WriteLE16_def codec_simps)

lemma ReadLE32_Write [codec_simps]: "ReadLE32 (WriteLE32 x @ rest) = x"
  using unat_bound [of x] by (simp add: ReadLE32_def WriteLE32_def codec_simps)

lemma ReadLE64_Write [codec_simps]: "ReadLE64 (WriteLE64 x @ rest) = x"
  using unat_bound [of x] by (simp add: ReadLE64_def WriteLE64_def codec_simps)

lemma ReadBE32_Write [codec_simps]: "ReadBE32 (WriteBE32 x @ rest) = x"
  using unat_bound [of x] by (simp add: ReadBE32_def WriteBE32_def codec_simps)

lemma le_bytes_inject:
  assumes "m < 256 ^ k" and "n < 256 ^ k" and "le_bytes k m = le_bytes k n"
  shows "m = n"
  using arg_cong [OF assms(3), of le_val] assms(1,2) by (simp add: codec_simps)

section \<open>Options\<close>

lemma bind_someE: "Option.bind x f = Some y \<Longrightarrow> (\<And>a. x = Some a \<Longrightarrow> f a = Some y \<Longrightarrow> P) \<Longrightarrow> P"
  by (cases x) simp_all

lemma if_someE: "(if b then x else y) = Some v \<Longrightarrow> (b \<Longrightarrow> x = Some v \<Longrightarrow> P) \<Longrightarrow> (\<not> b \<Longrightarrow> y = Some v \<Longrightarrow> P) \<Longrightarrow> P"
  by (cases b) simp_all

end
