(* ===== verification/ArithUint256.thy ===== *)
theory ArithUint256
  imports Prelude
begin

text \<open>
  \<^verbatim>\<open>src/src/arith_uint256.h\<close> and \<^verbatim>\<open>arith_uint256.cpp\<close>: the class template \<^verbatim>\<open>base_uint\<close> at 256 bits and
  \<^verbatim>\<open>arith_uint256\<close>. A number is the list of its eight 32-bit limbs \<^verbatim>\<open>pn[0..7]\<close>, least significant
  first; \<open>uval\<close> is the number it denotes. The operators are the loops of the source over the limbs,
  and the lemmas show that they compute modulo \<open>2 ^ 256\<close>. \<^verbatim>\<open>CompareTo\<close> has a guard on the
  addresses of its operands, which are never in the first page of memory; it is left out.
\<close>

type_synonym limbs = "u32 list"

abbreviation WIDTH :: nat where "WIDTH \<equiv> 8"

definition wf_limbs :: "limbs \<Rightarrow> bool" where
  "wf_limbs pn \<longleftrightarrow> length pn = WIDTH"

primrec uval :: "limbs \<Rightarrow> nat" where
  "uval [] = 0"
| "uval (x # xs) = unat x + 2 ^ 32 * uval xs"

section \<open>The operators\<close>

definition base_uint_zero :: limbs where
  "base_uint_zero = replicate WIDTH 0"

definition base_uint_of :: "u64 \<Rightarrow> limbs" where
  "base_uint_of b = ucast b # ucast (drop_bit 32 b) # replicate (WIDTH - 2) 0"

definition uint_is_zero :: "limbs \<Rightarrow> bool" where
  "uint_is_zero pn = list_all (\<lambda>x. x = 0) pn"

definition uint_compl :: "limbs \<Rightarrow> limbs" where
  "uint_compl pn = map (\<lambda>x. NOT x) pn"

text \<open>The prefix operators: the loop goes on to the next limb while the current one wraps.\<close>

fun uint_inc :: "limbs \<Rightarrow> limbs" where
  "uint_inc [] = []"
| "uint_inc (x # xs) = (if x + 1 = 0 \<and> xs \<noteq> [] then (x + 1) # uint_inc xs else (x + 1) # xs)"

fun uint_dec :: "limbs \<Rightarrow> limbs" where
  "uint_dec [] = []"
| "uint_dec (x # xs) = (if x - 1 = - 1 \<and> xs \<noteq> [] then (x - 1) # uint_dec xs else (x - 1) # xs)"

definition uint_neg :: "limbs \<Rightarrow> limbs" where
  "uint_neg pn = uint_inc (map (\<lambda>x. NOT x) pn)"

definition uint_xor :: "limbs \<Rightarrow> limbs \<Rightarrow> limbs" where
  "uint_xor a b = map2 (\<lambda>x y. x XOR y) a b"

definition uint_and :: "limbs \<Rightarrow> limbs \<Rightarrow> limbs" where
  "uint_and a b = map2 (\<lambda>x y. x AND y) a b"

definition uint_or :: "limbs \<Rightarrow> limbs \<Rightarrow> limbs" where
  "uint_or a b = map2 (\<lambda>x y. x OR y) a b"

text \<open>\<^verbatim>\<open>operator+=\<close>: the carry is a 64-bit number.\<close>

fun add_limbs :: "u64 \<Rightarrow> limbs \<Rightarrow> limbs \<Rightarrow> limbs" where
  "add_limbs carry (x # xs) (y # ys) =
     (let n = carry + ucast x + ucast y
      in ucast (n AND 0xffffffff) # add_limbs (drop_bit 32 n) xs ys)"
| "add_limbs carry _ _ = []"

definition uint_add :: "limbs \<Rightarrow> limbs \<Rightarrow> limbs" where
  "uint_add a b = add_limbs 0 a b"

definition uint_sub :: "limbs \<Rightarrow> limbs \<Rightarrow> limbs" where
  "uint_sub a b = uint_add a (uint_neg b)"

text \<open>\<^verbatim>\<open>operator*=(uint32_t)\<close>.\<close>

fun mul32_limbs :: "u64 \<Rightarrow> u32 \<Rightarrow> limbs \<Rightarrow> limbs" where
  "mul32_limbs carry b32 [] = []"
| "mul32_limbs carry b32 (x # xs) =
     (let n = carry + ucast b32 * ucast x
      in ucast (n AND 0xffffffff) # mul32_limbs (drop_bit 32 n) b32 xs)"

definition uint_mul32 :: "limbs \<Rightarrow> u32 \<Rightarrow> limbs" where
  "uint_mul32 a b32 = mul32_limbs 0 b32 a"

text \<open>
  \<^verbatim>\<open>operator*=(const base_uint&)\<close>: the inner loop adds \<^verbatim>\<open>a.pn[j] * b\<close> to the limbs from \<open>j\<close> on and
  ends with the last limb.
\<close>

fun mul_row :: "u32 \<Rightarrow> u64 \<Rightarrow> limbs \<Rightarrow> limbs \<Rightarrow> limbs" where
  "mul_row aj carry (p # ps) (y # ys) =
     (let n = carry + ucast p + ucast aj * ucast y
      in ucast (n AND 0xffffffff) # mul_row aj (drop_bit 32 n) ps ys)"
| "mul_row aj carry ps _ = ps"

definition uint_mul :: "limbs \<Rightarrow> limbs \<Rightarrow> limbs" where
  "uint_mul a b =
     foldl (\<lambda>pn j. take j pn @ mul_row (a ! j) 0 (drop j pn) b) base_uint_zero [0..<WIDTH]"

text \<open>\<^verbatim>\<open>operator<<=\<close> and \<^verbatim>\<open>operator>>=\<close>: the body of the loop for the limb \<open>i\<close> of the copy \<open>a\<close>.\<close>

definition shl_body :: "limbs \<Rightarrow> nat \<Rightarrow> nat \<Rightarrow> limbs \<Rightarrow> nat \<Rightarrow> limbs" where
  "shl_body a k sh pn i =
     (let pn1 = (if i + k + 1 < WIDTH \<and> sh \<noteq> 0
                 then pn[i + k + 1 := pn ! (i + k + 1) OR drop_bit (32 - sh) (a ! i)] else pn)
      in if i + k < WIDTH then pn1[i + k := pn1 ! (i + k) OR push_bit sh (a ! i)] else pn1)"

definition uint_shl :: "limbs \<Rightarrow> nat \<Rightarrow> limbs" where
  "uint_shl a shift = foldl (shl_body a (shift div 32) (shift mod 32)) base_uint_zero [0..<WIDTH]"

definition shr_body :: "limbs \<Rightarrow> nat \<Rightarrow> nat \<Rightarrow> limbs \<Rightarrow> nat \<Rightarrow> limbs" where
  "shr_body a k sh pn i =
     (let pn1 = (if k + 1 \<le> i \<and> sh \<noteq> 0
                 then pn[i - k - 1 := pn ! (i - k - 1) OR push_bit (32 - sh) (a ! i)] else pn)
      in if k \<le> i then pn1[i - k := pn1 ! (i - k) OR drop_bit sh (a ! i)] else pn1)"

definition uint_shr :: "limbs \<Rightarrow> nat \<Rightarrow> limbs" where
  "uint_shr a shift = foldl (shr_body a (shift div 32) (shift mod 32)) base_uint_zero [0..<WIDTH]"

text \<open>\<^verbatim>\<open>CompareTo\<close>: \<open>cmp_from a b n\<close> compares the limbs below \<open>n\<close>, the highest first.\<close>

primrec cmp_from :: "limbs \<Rightarrow> limbs \<Rightarrow> nat \<Rightarrow> int" where
  "cmp_from a b 0 = 0"
| "cmp_from a b (Suc i) = (if a ! i < b ! i then - 1 else if b ! i < a ! i then 1 else cmp_from a b i)"

definition CompareTo :: "limbs \<Rightarrow> limbs \<Rightarrow> int" where
  "CompareTo a b = cmp_from a b WIDTH"

definition EqualTo :: "limbs \<Rightarrow> u64 \<Rightarrow> bool" where
  "EqualTo pn b \<longleftrightarrow>
     list_all (\<lambda>x. x = 0) (drop 2 pn) \<and> ucast (pn ! 1) = drop_bit 32 b \<and> ucast (pn ! 0) = b AND 0xffffffff"

text \<open>\<^verbatim>\<open>bits\<close>: the inner loop finds the top bit of a limb that is not zero.\<close>

primrec top_bit :: "u32 \<Rightarrow> nat \<Rightarrow> nat" where
  "top_bit x 0 = 1"
| "top_bit x (Suc n) = (if x AND push_bit (Suc n) 1 \<noteq> 0 then Suc n + 1 else top_bit x n)"

primrec bits_below :: "limbs \<Rightarrow> nat \<Rightarrow> nat" where
  "bits_below pn 0 = 0"
| "bits_below pn (Suc pos) =
     (if pn ! pos \<noteq> 0 then 32 * pos + top_bit (pn ! pos) 31 else bits_below pn pos)"

definition uint_bits :: "limbs \<Rightarrow> nat" where
  "uint_bits pn = bits_below pn WIDTH"

text \<open>
  \<^verbatim>\<open>operator/=\<close>: the loop \<^verbatim>\<open>while (shift >= 0)\<close> runs for \<open>shift\<close> from the difference of the bit
  lengths down to zero; \<open>div_loop n\<close> is what is left of it when \<open>shift = n - 1\<close>. \<^const>\<open>None\<close> is the
  exception \<^verbatim>\<open>uint_error\<close>.
\<close>

primrec div_loop :: "nat \<Rightarrow> limbs \<Rightarrow> limbs \<Rightarrow> limbs \<Rightarrow> limbs" where
  "div_loop 0 num dv q = q"
| "div_loop (Suc shift) num dv q =
     (let (num', q') =
            (if 0 \<le> CompareTo num dv
             then (uint_sub num dv, q[shift div 32 := q ! (shift div 32) OR push_bit (shift mod 32) 1])
             else (num, q))
      in div_loop shift num' (uint_shr dv 1) q')"

definition uint_div :: "limbs \<Rightarrow> limbs \<Rightarrow> limbs option" where
  "uint_div num dv =
     (let num_bits = uint_bits num; div_bits = uint_bits dv
      in if div_bits = 0 then None
         else if num_bits < div_bits then Some base_uint_zero
         else let shift = num_bits - div_bits
              in Some (div_loop (Suc shift) num (uint_shl dv shift) base_uint_zero))"

definition GetLow64 :: "limbs \<Rightarrow> u64" where
  "GetLow64 pn = ucast (pn ! 0) OR push_bit 32 (ucast (pn ! 1))"

section \<open>Bytes of a uint256\<close>

definition ArithToUint256 :: "limbs \<Rightarrow> bytes" where
  "ArithToUint256 a = concat (map WriteLE32 a)"

definition UintToArith256 :: "bytes \<Rightarrow> limbs" where
  "UintToArith256 a = map (\<lambda>x. ReadLE32 (drop (4 * x) a)) [0..<WIDTH]"

section \<open>The interface\<close>

text \<open>
  What the difficulty code relies on: numbers with a value below \<open>2 ^ 256\<close> and operators that compute
  modulo \<open>2 ^ 256\<close>. Its lemmas about targets and work are proved from these laws alone.
\<close>

locale uint_arith =
  fixes wf :: "'n \<Rightarrow> bool"
    and val :: "'n \<Rightarrow> nat"
    and of64 :: "u64 \<Rightarrow> 'n"
    and add :: "'n \<Rightarrow> 'n \<Rightarrow> 'n"
    and mul :: "'n \<Rightarrow> 'n \<Rightarrow> 'n"
    and mul32 :: "'n \<Rightarrow> u32 \<Rightarrow> 'n"
    and dv :: "'n \<Rightarrow> 'n \<Rightarrow> 'n option"
    and compl :: "'n \<Rightarrow> 'n"
    and cmp :: "'n \<Rightarrow> 'n \<Rightarrow> int"
  assumes val_bound: "wf a \<Longrightarrow> val a < 2 ^ 256"
    and val_of64: "wf (of64 n) \<and> val (of64 n) = unat n"
    and val_add: "wf a \<Longrightarrow> wf b \<Longrightarrow> wf (add a b) \<and> val (add a b) = (val a + val b) mod 2 ^ 256"
    and val_mul: "wf a \<Longrightarrow> wf b \<Longrightarrow> wf (mul a b) \<and> val (mul a b) = val a * val b mod 2 ^ 256"
    and val_mul32: "wf a \<Longrightarrow> wf (mul32 a k) \<and> val (mul32 a k) = val a * unat k mod 2 ^ 256"
    and val_dv: "wf a \<Longrightarrow> wf b \<Longrightarrow>
      (if val b = 0 then dv a b = None else \<exists>q. dv a b = Some q \<and> wf q \<and> val q = val a div val b)"
    and val_compl: "wf a \<Longrightarrow> wf (compl a) \<and> val (compl a) = 2 ^ 256 - 1 - val a"
    and val_cmp: "wf a \<Longrightarrow> wf b \<Longrightarrow>
      (cmp a b < 0 \<longleftrightarrow> val a < val b) \<and> (0 < cmp a b \<longleftrightarrow> val b < val a)"


section \<open>Values\<close>

lemma uval_bound: "uval xs < 2 ^ (32 * length xs)"
proof (induction xs)
  case Nil
  then show ?case by simp
next
  case (Cons x xs)
  have "unat x < 2 ^ 32" using unat_bound [of x] by simp
  moreover have "2 ^ 32 * (uval xs + 1) \<le> (2 ^ 32 * 2 ^ (32 * length xs) :: nat)"
    using Cons by (intro mult_le_mono2) simp
  ultimately show ?case by (simp add: power_add)
qed

lemma uval_append: "uval (xs @ ys) = uval xs + 2 ^ (32 * length xs) * uval ys"
  by (induction xs) (simp_all add: algebra_simps power_add)

lemma uval_replicate_0 [simp]: "uval (replicate n 0) = 0"
  by (induction n) simp_all

lemma uval_inject: "length xs = length ys \<Longrightarrow> uval xs = uval ys \<Longrightarrow> xs = ys"
proof (induction xs ys rule: list_induct2)
  case Nil
  then show ?case by simp
next
  case (Cons x xs y ys)
  have b: "unat x < 2 ^ 32" "unat y < 2 ^ 32" using unat_bound [of x] unat_bound [of y] by simp_all
  have eq: "unat x + 2 ^ 32 * uval xs = unat y + 2 ^ 32 * uval ys" using Cons.prems by simp
  from arg_cong [OF eq, of "\<lambda>n. n mod 2 ^ 32"] b have "unat x = unat y" by simp
  moreover from arg_cong [OF eq, of "\<lambda>n. n div 2 ^ 32"] b have "uval xs = uval ys" by simp
  ultimately show ?case using Cons.IH by (simp add: word_unat_eq_iff)
qed

lemma low32: "unat (ucast (n AND 0xffffffff) :: u32) = unat (n :: u64) mod 2 ^ 32"
proof -
  have "n AND 0xffffffff = take_bit 32 n" by (simp add: take_bit_eq_mask mask_eq_exp_minus_1)
  then show ?thesis by (simp add: unsigned_ucast_eq take_bit_eq_mod unat_mod)
qed

lemma high32: "unat (drop_bit 32 (n :: u64)) = unat n div 2 ^ 32"
  by (simp add: drop_bit_eq_div unat_div)

lemma unat_ucast_64 [simp]: "unat (ucast (x :: u32) :: u64) = unat x"
  using unat_bound [of x] by (simp add: unsigned_ucast_eq take_bit_nat_eq_self)

lemma u32_bound: "unat (x :: u32) \<le> 2 ^ 32 - 1"
  using unat_bound [of x] by simp

text \<open>One step of a loop with a carry: the low half of \<open>n\<close> is stored, the high half carried on.\<close>

lemma carry_step:
  "a mod 2 ^ 32 + 2 ^ 32 * ((a div 2 ^ 32 + r) mod M) = (a + 2 ^ 32 * r) mod (2 ^ 32 * M :: nat)"
  by (simp add: mod_mult2_eq add.commute)

lemma uval_add_limbs:
  assumes "length xs = length ys" and "unat c \<le> 1"
  shows "uval (add_limbs c xs ys) = (unat c + uval xs + uval ys) mod 2 ^ (32 * length xs)"
  using assms
proof (induction xs ys arbitrary: c rule: list_induct2)
  case Nil
  then show ?case by simp
next
  case (Cons x xs y ys)
  let ?n = "c + ucast x + ucast y"
  have n: "unat ?n = unat c + unat x + unat y"
    using Cons.prems u32_bound [of x] u32_bound [of y] by (simp add: unat_word_ariths)
  have "unat (drop_bit 32 ?n) \<le> 1"
    using Cons.prems u32_bound [of x] u32_bound [of y] by (simp add: high32 n)
  from Cons.IH [OF this]
  have "uval (add_limbs c (x # xs) (y # ys)) =
      unat ?n mod 2 ^ 32 + 2 ^ 32 * ((unat ?n div 2 ^ 32 + (uval xs + uval ys)) mod 2 ^ (32 * length xs))"
    by (simp only: add_limbs.simps Let_def uval.simps low32 high32 add.assoc)
  then show ?case
    by (simp only: carry_step n) (simp add: algebra_simps power_add)
qed

lemma uval_mul32_limbs:
  assumes "unat c < 2 ^ 32"
  shows "uval (mul32_limbs c b xs) = (unat c + unat b * uval xs) mod 2 ^ (32 * length xs)"
  using assms
proof (induction xs arbitrary: c)
  case Nil
  then show ?case by simp
next
  case (Cons x xs)
  let ?n = "c + ucast b * ucast x"
  have p: "unat b * unat x \<le> (2 ^ 32 - 1) * (2 ^ 32 - 1)"
    by (intro mult_le_mono u32_bound)
  then have n: "unat ?n = unat c + unat b * unat x"
    using Cons.prems by (simp add: unat_word_ariths)
  have "unat (drop_bit 32 ?n) < 2 ^ 32"
    using Cons.prems p by (simp add: high32 n less_mult_imp_div_less)
  from Cons.IH [OF this]
  have "uval (mul32_limbs c b (x # xs)) =
      unat ?n mod 2 ^ 32 + 2 ^ 32 * ((unat ?n div 2 ^ 32 + unat b * uval xs) mod 2 ^ (32 * length xs))"
    by (simp only: mul32_limbs.simps Let_def uval.simps low32 high32)
  then show ?case
    by (simp only: carry_step n) (simp add: algebra_simps power_add)
qed

lemma uval_mul_row:
  assumes "length ps \<le> length ys" and "unat c < 2 ^ 32"
  shows "uval (mul_row a c ps ys) = (unat c + uval ps + unat a * uval ys) mod 2 ^ (32 * length ps)"
  using assms
proof (induction ps arbitrary: c ys)
  case Nil
  then show ?case by simp
next
  case (Cons p ps)
  then obtain y ys' where ys: "ys = y # ys'" by (cases ys) auto
  let ?n = "c + ucast p + ucast a * ucast y"
  have b: "unat a * unat y \<le> (2 ^ 32 - 1) * (2 ^ 32 - 1)" "unat p \<le> 2 ^ 32 - 1"
    by (intro mult_le_mono u32_bound, rule u32_bound)
  then have n: "unat ?n = unat c + unat p + unat a * unat y"
    using Cons.prems by (simp add: unat_word_ariths)
  have "unat (drop_bit 32 ?n) < 2 ^ 32"
    using Cons.prems b by (simp add: high32 n less_mult_imp_div_less)
  from Cons.IH [OF _ this, of ys'] Cons.prems ys
  have "uval (mul_row a c (p # ps) ys) =
      unat ?n mod 2 ^ 32 + 2 ^ 32 * ((unat ?n div 2 ^ 32 + (uval ps + unat a * uval ys')) mod 2 ^ (32 * length ps))"
    by (simp only: mul_row.simps Let_def uval.simps low32 high32 ys) (simp add: add.assoc)
  then show ?case
    by (simp only: carry_step n ys) (simp add: algebra_simps power_add)
qed


lemma length_uint_inc [simp]: "length (uint_inc xs) = length xs"
  by (induction xs rule: uint_inc.induct) simp_all

lemma length_uint_dec [simp]: "length (uint_dec xs) = length xs"
  by (induction xs rule: uint_dec.induct) simp_all

lemma length_add_limbs [simp]: "length (add_limbs c xs ys) = min (length xs) (length ys)"
  by (induction c xs ys rule: add_limbs.induct) (simp_all add: Let_def)

lemma length_mul32_limbs [simp]: "length (mul32_limbs c b xs) = length xs"
  by (induction xs arbitrary: c) (simp_all add: Let_def)

lemma length_mul_row [simp]: "length (mul_row a c ps ys) = length ps"
  by (induction a c ps ys rule: mul_row.induct) (simp_all add: Let_def)

lemma unat_m1: "unat (- 1 :: u32) = 2 ^ 32 - 1"
  by (simp add: unsigned_minus_1_eq_mask mask_eq_exp_minus_1)

lemma uval_uint_inc: "uval (uint_inc xs) = (uval xs + 1) mod 2 ^ (32 * length xs)"
proof (induction xs)
  case Nil
  then show ?case by simp
next
  case (Cons x xs)
  show ?case
  proof (cases "x + 1 = 0")
    case True
    then have x: "x = - 1" by (simp add: eq_neg_iff_add_eq_0)
    have "uval (uint_inc (x # xs)) = 2 ^ 32 * ((uval xs + 1) mod 2 ^ (32 * length xs))"
      using Cons x by (cases xs) simp_all
    also have "\<dots> = (2 ^ 32 * (uval xs + 1)) mod (2 ^ 32 * 2 ^ (32 * length xs))"
      by (rule mult_mod_right)
    also have "2 ^ 32 * (uval xs + 1) = uval (x # xs) + 1" by (simp add: x unat_m1 algebra_simps)
    finally show ?thesis by (simp add: power_add)
  next
    case False
    then have "unat (x + 1) = unat x + 1" using unatSuc [of x] by (simp add: add.commute)
    then have "uval (uint_inc (x # xs)) = uval (x # xs) + 1" using False by simp
    then show ?thesis
      using uval_bound [of "uint_inc (x # xs)"] by (simp only: length_uint_inc) (simp only: mod_less)
  qed
qed

lemma unat_not_u32: "unat (NOT (x :: u32)) = 2 ^ 32 - 1 - unat x"
proof -
  have "NOT x = - 1 - x" by (simp add: not_eq_complement)
  moreover have "x \<le> - 1" by simp
  ultimately show ?thesis by (simp only: unat_sub unat_m1)
qed

lemma uval_compl: "uval (uint_compl xs) = 2 ^ (32 * length xs) - 1 - uval xs"
proof (induction xs)
  case Nil
  then show ?case by (simp add: uint_compl_def)
next
  case (Cons x xs)
  have "uval (uint_compl (x # xs)) = (2 ^ 32 - 1 - unat x) + 2 ^ 32 * (2 ^ (32 * length xs) - 1 - uval xs)"
    using Cons by (simp add: uint_compl_def unat_not_u32)
  moreover have "unat x \<le> 2 ^ 32 - 1" by (rule u32_bound)
  moreover have "uval xs < 2 ^ (32 * length xs)" by (rule uval_bound)
  ultimately show ?case by (simp add: power_add algebra_simps)
qed

lemma uval_neg: "uval (uint_neg xs) = (2 ^ (32 * length xs) - uval xs) mod 2 ^ (32 * length xs)"
  using uval_uint_inc [of "uint_compl xs"] uval_bound [of xs]
  by (simp add: uint_neg_def uint_compl_def [symmetric] uval_compl Suc_diff_Suc) (simp add: uint_compl_def)


lemma uval_add: "length a = length b \<Longrightarrow> uval (uint_add a b) = (uval a + uval b) mod 2 ^ (32 * length a)"
  by (simp add: uint_add_def uval_add_limbs)

lemma length_uint_neg [simp]: "length (uint_neg a) = length a"
  by (simp add: uint_neg_def)

lemma uval_sub:
  assumes "length a = length b" and "uval b \<le> uval a"
  shows "uval (uint_sub a b) = uval a - uval b"
proof -
  let ?M = "2 ^ (32 * length a) :: nat"
  have b: "uval b < ?M" "uval a < ?M" using uval_bound [of b] uval_bound [of a] assms(1) by simp_all
  have "uval (uint_sub a b) = (uval a + (?M - uval b) mod ?M) mod ?M"
    by (simp add: uint_sub_def uval_add assms(1) uval_neg)
  also have "\<dots> = (uval a - uval b + ?M) mod ?M"
    using b assms(2) by (simp add: mod_add_right_eq)
  also have "\<dots> = uval a - uval b" using b by simp
  finally show ?thesis .
qed

lemma uval_sub_wrap:
  assumes "length a = length b"
  shows "uval (uint_sub a b) = (uval a + (2 ^ (32 * length a) - uval b)) mod 2 ^ (32 * length a)"
  using assms by (simp add: uint_sub_def uval_add uval_neg mod_add_right_eq)

lemma uval_mul32: "uval (uint_mul32 a b) = (uval a * unat b) mod 2 ^ (32 * length a)"
  by (simp add: uint_mul32_def uval_mul32_limbs mult.commute)

text \<open>After \<open>n\<close> rows the product of \<open>b\<close> with the \<open>n\<close> low limbs of \<open>a\<close> has been added.\<close>

lemma uval_mul_rows:
  assumes "length a = WIDTH" and "length b = WIDTH" and "n \<le> WIDTH"
  defines "r \<equiv> foldl (\<lambda>pn j. take j pn @ mul_row (a ! j) 0 (drop j pn) b) base_uint_zero [0..<n]"
  shows "length r = WIDTH \<and> uval r = (uval (take n a) * uval b) mod 2 ^ 256"
  using assms(3) unfolding r_def
proof (induction n)
  case 0
  then show ?case by (simp add: base_uint_zero_def)
next
  case (Suc n)
  let ?r = "foldl (\<lambda>pn j. take j pn @ mul_row (a ! j) 0 (drop j pn) b) base_uint_zero [0..<n]"
  have r: "length ?r = WIDTH" "uval ?r = (uval (take n a) * uval b) mod 2 ^ 256"
    using Suc by simp_all
  have split: "uval ?r = uval (take n ?r) + 2 ^ (32 * n) * uval (drop n ?r)"
    using uval_append [of "take n ?r" "drop n ?r"] r(1) Suc.prems by simp
  have pow: "2 ^ (32 * n) * 2 ^ (32 * (WIDTH - n)) = (2 ^ 256 :: nat)"
    using Suc.prems by (simp add: power_add [symmetric] diff_mult_distrib2)
  have low: "uval (take n ?r) < 2 ^ (32 * n)"
    using uval_bound [of "take n ?r"] r(1) Suc.prems by simp
  have "uval (take n ?r @ mul_row (a ! n) 0 (drop n ?r) b) =
      uval (take n ?r) + 2 ^ (32 * n) * ((uval (drop n ?r) + unat (a ! n) * uval b) mod 2 ^ (32 * (WIDTH - n)))"
    using r(1) assms(2) Suc.prems by (simp add: uval_append uval_mul_row)
  also have "\<dots> = (uval (take n ?r) + 2 ^ (32 * n) * (uval (drop n ?r) + unat (a ! n) * uval b)) mod 2 ^ 256"
    using low by (simp only: pow [symmetric] mod_mult2_eq) simp
  also have "\<dots> = (uval ?r + 2 ^ (32 * n) * unat (a ! n) * uval b) mod 2 ^ 256"
    by (simp only: split) (simp add: algebra_simps)
  also have "\<dots> = (uval (take n a) * uval b + 2 ^ (32 * n) * unat (a ! n) * uval b) mod 2 ^ 256"
    by (simp only: r(2) mod_add_left_eq)
  also have "uval (take n a) * uval b + 2 ^ (32 * n) * unat (a ! n) * uval b = uval (take (Suc n) a) * uval b"
    using assms(1) Suc.prems by (simp add: take_Suc_conv_app_nth uval_append algebra_simps)
  finally show ?case using r(1) Suc.prems by simp
qed

lemma uval_mul:
  "length a = WIDTH \<Longrightarrow> length b = WIDTH \<Longrightarrow> uval (uint_mul a b) = (uval a * uval b) mod 2 ^ 256"
  using uval_mul_rows [of a b WIDTH] by (simp add: uint_mul_def)

section \<open>Bits\<close>

lemma bit_uval: "bit (uval xs) n \<longleftrightarrow> n < 32 * length xs \<and> bit (xs ! (n div 32)) (n mod 32)"
proof (induction xs arbitrary: n)
  case Nil
  then show ?case by simp
next
  case (Cons x xs)
  have x: "unat x < 2 ^ 32" using unat_bound [of x] by simp
  show ?case
  proof (cases "n < 32")
    case True
    have "bit (uval (x # xs)) n \<longleftrightarrow> bit (take_bit 32 (uval (x # xs))) n"
      using True by (simp add: bit_take_bit_iff)
    also have "take_bit 32 (uval (x # xs)) = unat x" using x by (simp add: take_bit_eq_mod)
    finally show ?thesis using True by (simp add: bit_unsigned_iff)
  next
    case False
    have "bit (uval (x # xs)) n \<longleftrightarrow> bit (drop_bit 32 (uval (x # xs))) (n - 32)"
      using False by (simp add: bit_drop_bit_eq)
    also have "drop_bit 32 (uval (x # xs)) = uval xs" using x by (simp add: drop_bit_eq_div)
    finally show ?thesis using False Cons [of "n - 32"]
      by (auto simp: le_div_geq le_mod_geq)
  qed
qed


lemma shl_loop:
  fixes a k sh
  assumes "n \<le> WIDTH"
  defines "r \<equiv> foldl (shl_body a k sh) base_uint_zero [0..<n]"
  shows "length r = WIDTH \<and> (\<forall>m < WIDTH. r ! m =
    (if k \<le> m \<and> m - k < n then push_bit sh (a ! (m - k)) else 0) OR
    (if sh \<noteq> 0 \<and> k + 1 \<le> m \<and> m - k - 1 < n then drop_bit (32 - sh) (a ! (m - k - 1)) else 0))"
  using assms(1) unfolding r_def
proof (induction n)
  case 0
  then show ?case by (simp add: base_uint_zero_def)
next
  case (Suc n)
  let ?r = "foldl (shl_body a k sh) base_uint_zero [0..<n]"
  have r: "length ?r = WIDTH" and nth: "\<And>m. m < WIDTH \<Longrightarrow> ?r ! m =
    (if k \<le> m \<and> m - k < n then push_bit sh (a ! (m - k)) else 0) OR
    (if sh \<noteq> 0 \<and> k + 1 \<le> m \<and> m - k - 1 < n then drop_bit (32 - sh) (a ! (m - k - 1)) else 0)"
    using Suc by simp_all
  have "shl_body a k sh ?r n ! m =
    (if k \<le> m \<and> m - k < Suc n then push_bit sh (a ! (m - k)) else 0) OR
    (if sh \<noteq> 0 \<and> k + 1 \<le> m \<and> m - k - 1 < Suc n then drop_bit (32 - sh) (a ! (m - k - 1)) else 0)"
    if m: "m < WIDTH" for m
  proof -
    consider "m = n + k" | "m = n + k + 1" | "m \<noteq> n + k" "m \<noteq> n + k + 1" by blast
    then show ?thesis
    proof cases
      case 1
      with m r nth [of m] show ?thesis by (auto simp: shl_body_def Let_def nth_list_update or.commute)
    next
      case 2
      with m r nth [of m] show ?thesis by (auto simp: shl_body_def Let_def nth_list_update or.commute)
    next
      case 3
      with m r nth [of m] show ?thesis by (auto simp: shl_body_def Let_def nth_list_update less_Suc_eq)
    qed
  qed
  moreover have "length (shl_body a k sh ?r n) = WIDTH" using r by (simp add: shl_body_def Let_def)
  ultimately show ?case by simp
qed

lemma shr_loop:
  fixes a k sh
  assumes "n \<le> WIDTH"
  defines "r \<equiv> foldl (shr_body a k sh) base_uint_zero [0..<n]"
  shows "length r = WIDTH \<and> (\<forall>m < WIDTH. r ! m =
    (if m + k < n then drop_bit sh (a ! (m + k)) else 0) OR
    (if sh \<noteq> 0 \<and> m + k + 1 < n then push_bit (32 - sh) (a ! (m + k + 1)) else 0))"
  using assms(1) unfolding r_def
proof (induction n)
  case 0
  then show ?case by (simp add: base_uint_zero_def)
next
  case (Suc n)
  let ?r = "foldl (shr_body a k sh) base_uint_zero [0..<n]"
  have r: "length ?r = WIDTH" and nth: "\<And>m. m < WIDTH \<Longrightarrow> ?r ! m =
    (if m + k < n then drop_bit sh (a ! (m + k)) else 0) OR
    (if sh \<noteq> 0 \<and> m + k + 1 < n then push_bit (32 - sh) (a ! (m + k + 1)) else 0)"
    using Suc by simp_all
  have "shr_body a k sh ?r n ! m =
    (if m + k < Suc n then drop_bit sh (a ! (m + k)) else 0) OR
    (if sh \<noteq> 0 \<and> m + k + 1 < Suc n then push_bit (32 - sh) (a ! (m + k + 1)) else 0)"
    if m: "m < WIDTH" for m
  proof -
    consider "n = m + k" | "n = m + k + 1" | "n \<noteq> m + k" "n \<noteq> m + k + 1" by blast
    then show ?thesis
    proof cases
      case 1
      with m r nth [of m] Suc.prems show ?thesis by (auto simp: shr_body_def Let_def nth_list_update or.commute)
    next
      case 2
      with m r nth [of m] Suc.prems show ?thesis by (auto simp: shr_body_def Let_def nth_list_update or.commute)
    next
      case 3
      with m r nth [of m] Suc.prems show ?thesis
        by (auto simp: shr_body_def nth_list_update less_Suc_eq Let_def)
    qed
  qed
  moreover have "length (shr_body a k sh ?r n) = WIDTH" using r by (simp add: shr_body_def Let_def)
  ultimately show ?case by simp
qed

lemma length_uint_shl [simp]: "length (uint_shl a sh) = WIDTH"
  using shl_loop [of WIDTH a "sh div 32" "sh mod 32"] by (simp add: uint_shl_def)

lemma length_uint_shr [simp]: "length (uint_shr a sh) = WIDTH"
  using shr_loop [of WIDTH a "sh div 32" "sh mod 32"] by (simp add: uint_shr_def)

text \<open>Where the bit \<open>n - shift\<close> and the bit \<open>n + shift\<close> lie among the limbs.\<close>

lemma limb_minus_eq:
  fixes q r q' r' :: nat
  assumes "r < 32" "r' < 32" "32 * q' + r' \<le> 32 * q + r"
  shows "(32 * q + r - (32 * q' + r')) div 32 = (if r' \<le> r then q - q' else q - q' - 1) \<and>
         (32 * q + r - (32 * q' + r')) mod 32 = (if r' \<le> r then r - r' else r + 32 - r') \<and>
         (r' \<le> r \<or> q' + 1 \<le> q) \<and> q' \<le> q"
proof (cases "r' \<le> r")
  case True
  then have "q' \<le> q" using assms by linarith
  with True obtain d e where "r = r' + d" "q = q' + e" by (auto simp: nat_le_iff_add)
  then show ?thesis using assms by simp
next
  case False
  then have "q' < q" using assms by linarith
  then obtain e where q: "q = q' + Suc e" using less_iff_Suc_add [of q' q] by auto
  obtain d where d: "r' = r + d" using False nat_le_iff_add [of r r'] by auto
  obtain c where c: "32 = d + c" using d assms nat_le_iff_add [of d 32] by auto
  have "32 * q + r - (32 * q' + r') = 32 * e + c" "r + 32 - r' = c" "c < 32"
    using q d c False by simp_all
  then show ?thesis using q False by simp
qed

lemma limb_minus:
  fixes n sh :: nat
  assumes "sh \<le> n"
  shows "(n - sh) div 32 = (if sh mod 32 \<le> n mod 32 then n div 32 - sh div 32 else n div 32 - sh div 32 - 1)"
    and "(n - sh) mod 32 = (if sh mod 32 \<le> n mod 32 then n mod 32 - sh mod 32 else n mod 32 + 32 - sh mod 32)"
    and "sh mod 32 \<le> n mod 32 \<or> sh div 32 + 1 \<le> n div 32"
    and "sh div 32 \<le> n div 32"
  using limb_minus_eq [of "n mod 32" "sh mod 32" "sh div 32" "n div 32"] assms by simp_all

lemma shift_le_limbs:
  fixes n sh :: nat
  shows "sh \<le> n \<longleftrightarrow> (if sh mod 32 \<le> n mod 32 then sh div 32 \<le> n div 32 else sh div 32 + 1 \<le> n div 32)"
proof -
  have "sh \<le> n \<longleftrightarrow> 32 * (sh div 32) + sh mod 32 \<le> 32 * (n div 32) + n mod 32" by simp
  moreover have "n mod 32 < 32" "sh mod 32 < 32" by simp_all
  ultimately show ?thesis by (simp only: split: if_split) linarith
qed

lemma bit_u32_out: "32 \<le> n \<Longrightarrow> \<not> bit (x :: u32) n"
  by (auto dest: bit_imp_le_length)

lemma uval_shl:
  assumes "length a = WIDTH"
  shows "uval (uint_shl a sh) = (uval a * 2 ^ sh) mod 2 ^ 256"
proof -
  let ?k = "sh div 32" and ?s = "sh mod 32"
  have s: "?s < 32" by simp
  have bit_limb: "bit (uint_shl a sh ! m) t \<longleftrightarrow>
      (if ?s \<le> t then ?k \<le> m \<and> bit (a ! (m - ?k)) (t - ?s)
       else ?k + 1 \<le> m \<and> bit (a ! (m - ?k - 1)) (t + 32 - ?s))"
    if "m < WIDTH" "t < 32" for m t
  proof -
    have "m - ?k < WIDTH" "m - ?k - 1 < WIDTH" using that by simp_all
    then have nth: "uint_shl a sh ! m = (if ?k \<le> m then push_bit ?s (a ! (m - ?k)) else 0) OR
        (if ?s \<noteq> 0 \<and> ?k + 1 \<le> m then drop_bit (32 - ?s) (a ! (m - ?k - 1)) else 0)"
      using shl_loop [of WIDTH a ?k ?s] that(1) by (simp only: uint_shl_def) simp
    show ?thesis using that(2) s
      by (cases "?s \<le> t") (simp_all add: nth bit_simps bit_u32_out add.commute [of 32 t])
  qed
  have "bit (uval (uint_shl a sh)) n \<longleftrightarrow> n < 256 \<and> sh \<le> n \<and> bit (uval a) (n - sh)" for n
  proof (cases "n < 256 \<and> sh \<le> n")
    case True
    then have m: "n div 32 < WIDTH" by (intro less_mult_imp_div_less) simp
    have "n - sh < 256" using True by (auto intro: less_imp_diff_less)
    with True limb_minus [of sh n] assms show ?thesis
      by (auto simp: bit_uval bit_limb [OF m])
  next
    case False
    then show ?thesis using shift_le_limbs [of sh n] by (auto simp: bit_uval bit_limb)
  qed
  then have "uval (uint_shl a sh) = take_bit 256 (push_bit sh (uval a))"
    by (intro bit_eqI) (auto simp: bit_simps)
  then show ?thesis by (simp only: take_bit_eq_mod push_bit_eq_mult)
qed

lemma limb_plus:
  fixes n sh :: nat
  shows "(n + sh) div 32 = (if n mod 32 + sh mod 32 < 32 then n div 32 + sh div 32 else n div 32 + sh div 32 + 1)"
    and "(n + sh) mod 32 = (if n mod 32 + sh mod 32 < 32 then n mod 32 + sh mod 32 else n mod 32 + sh mod 32 - 32)"
proof -
  let ?r = "n mod 32 + sh mod 32"
  have r: "?r < 64" using mod_less_divisor [of 32 n] mod_less_divisor [of 32 sh] by linarith
  have sum: "n + sh = 32 * (n div 32 + sh div 32) + ?r" by simp
  have "?r div 32 = (if ?r < 32 then 0 else 1)" "?r mod 32 = (if ?r < 32 then ?r else ?r - 32)"
    using r le_div_geq [of 32 ?r] le_mod_geq [of 32 ?r] by simp_all
  moreover have "(n + sh) div 32 = n div 32 + sh div 32 + ?r div 32" "(n + sh) mod 32 = ?r mod 32"
    by (subst sum, simp only: div_mult_self4 mod_mult_self4)+
  ultimately show "(n + sh) div 32 = (if ?r < 32 then n div 32 + sh div 32 else n div 32 + sh div 32 + 1)"
    "(n + sh) mod 32 = (if ?r < 32 then ?r else ?r - 32)"
    by simp_all
qed

lemma uval_shr:
  assumes "length a = WIDTH"
  shows "uval (uint_shr a sh) = uval a div 2 ^ sh"
proof -
  let ?k = "sh div 32" and ?s = "sh mod 32"
  have s: "?s < 32" by simp
  have bit_limb: "bit (uint_shr a sh ! m) t \<longleftrightarrow>
      (if t + ?s < 32 then m + ?k < WIDTH \<and> bit (a ! (m + ?k)) (t + ?s)
       else m + ?k + 1 < WIDTH \<and> bit (a ! (m + ?k + 1)) (t + ?s - 32))"
    if "m < WIDTH" "t < 32" for m t
  proof -
    have nth: "uint_shr a sh ! m = (if m + ?k < WIDTH then drop_bit ?s (a ! (m + ?k)) else 0) OR
        (if ?s \<noteq> 0 \<and> m + ?k + 1 < WIDTH then push_bit (32 - ?s) (a ! (m + ?k + 1)) else 0)"
      using shr_loop [of WIDTH a ?k ?s] that(1) by (simp only: uint_shr_def)
    show ?thesis using that(2) s
      by (cases "t + ?s < 32") (auto simp: nth bit_simps bit_u32_out add.commute [of t])
  qed
  have "bit (uval (uint_shr a sh)) n \<longleftrightarrow> bit (uval a) (n + sh)" for n
  proof (cases "n < 256")
    case True
    then have m: "n div 32 < WIDTH" by (intro less_mult_imp_div_less) simp
    have "n + sh < 256 \<longleftrightarrow> (n + sh) div 32 < WIDTH" by (simp add: div_less_iff_less_mult)
    then show ?thesis
      using True limb_plus [of n sh] assms by (simp add: bit_uval bit_limb [OF m])
  next
    case False
    then show ?thesis using assms by (simp add: bit_uval)
  qed
  then have "uval (uint_shr a sh) = drop_bit sh (uval a)"
    by (intro bit_eqI) (simp add: bit_simps add.commute)
  then show ?thesis by (simp only: drop_bit_eq_div)
qed


section \<open>Comparison and length in bits\<close>

lemma uval_take_Suc: "i < length a \<Longrightarrow> uval (take (Suc i) a) = uval (take i a) + 2 ^ (32 * i) * unat (a ! i)"
  by (simp add: take_Suc_conv_app_nth uval_append)

lemma cmp_from_uval:
  assumes "n \<le> length a" "n \<le> length b"
  shows "cmp_from a b n = (if uval (take n a) < uval (take n b) then - 1
                           else if uval (take n b) < uval (take n a) then 1 else 0)"
  using assms
proof (induction n)
  case 0
  then show ?case by simp
next
  case (Suc i)
  have lt: "uval (take i x) + 2 ^ (32 * i) * unat (x ! i) < uval (take i y) + 2 ^ (32 * i) * unat (y ! i)"
    if "x ! i < y ! i" "i < length x" for x y :: limbs
  proof -
    have "uval (take i x) < 2 ^ (32 * i)" using uval_bound [of "take i x"] that(2) by simp
    moreover have "unat (x ! i) + 1 \<le> unat (y ! i)" using that(1) by (simp add: word_less_nat_alt)
    then have "2 ^ (32 * i) * (unat (x ! i) + 1) \<le> 2 ^ (32 * i) * unat (y ! i)" by (rule mult_le_mono2)
    ultimately show ?thesis by (simp add: algebra_simps)
  qed
  consider "a ! i < b ! i" | "b ! i < a ! i" | "a ! i = b ! i" by (rule linorder_cases) auto
  then show ?case
  proof cases
    case 1
    with lt [OF 1] Suc.prems show ?thesis by (simp add: uval_take_Suc)
  next
    case 2
    with lt [OF 2] Suc.prems show ?thesis by (simp add: uval_take_Suc)
  next
    case 3
    with Suc show ?thesis by (simp add: uval_take_Suc)
  qed
qed

lemma CompareTo_uval:
  "length a = WIDTH \<Longrightarrow> length b = WIDTH \<Longrightarrow>
   CompareTo a b = (if uval a < uval b then - 1 else if uval b < uval a then 1 else 0)"
  using cmp_from_uval [of WIDTH a b] by (simp add: CompareTo_def)

lemma and_bit_test: "x AND push_bit n 1 \<noteq> 0 \<longleftrightarrow> bit (x :: u32) n"
  by (simp add: bit_iff_and_push_bit_not_eq_0)

lemma bit_top_nat: "v < 2 ^ Suc n \<Longrightarrow> bit (v :: nat) n \<longleftrightarrow> 2 ^ n \<le> v"
proof -
  assume v: "v < 2 ^ Suc n"
  show ?thesis
  proof (cases "2 ^ n \<le> v")
    case True
    then have "v div 2 ^ n = 1" using v by (intro div_nat_eqI) simp_all
    with True show ?thesis by (simp add: bit_iff_odd)
  next
    case False
    then show ?thesis by (simp add: bit_iff_odd)
  qed
qed

lemma top_bit_bound:
  assumes "x \<noteq> 0" and "unat x < 2 ^ (n + 1)"
  shows "2 ^ (top_bit x n - 1) \<le> unat x \<and> unat x < 2 ^ top_bit x n \<and> 1 \<le> top_bit x n \<and> top_bit x n \<le> n + 1"
  using assms(2)
proof (induction n)
  case 0
  with assms(1) show ?case by (simp add: Suc_le_eq unat_gt_0)
next
  case (Suc n)
  have "bit x (Suc n) \<longleftrightarrow> 2 ^ Suc n \<le> unat x"
    using bit_top_nat [of "unat x" "Suc n"] Suc.prems by (simp add: bit_unsigned_iff)
  moreover have "top_bit x (Suc n) = (if bit x (Suc n) then Suc n + 1 else top_bit x n)"
    by (simp only: top_bit.simps and_bit_test)
  ultimately show ?case using Suc by (auto simp del: top_bit.simps)
qed

text \<open>\<^verbatim>\<open>bits\<close> is the position of the highest set bit plus one.\<close>

lemma bits_below_bound:
  assumes "n \<le> length pn"
  shows "uval (take n pn) < 2 ^ bits_below pn n \<and> bits_below pn n \<le> 32 * n \<and>
         (if uval (take n pn) = 0 then bits_below pn n = 0
          else 1 \<le> bits_below pn n \<and> 2 ^ (bits_below pn n - 1) \<le> uval (take n pn))"
  using assms
proof (induction n)
  case 0
  then show ?case by simp
next
  case (Suc i)
  let ?x = "pn ! i" and ?l = "uval (take i pn)"
  show ?case
  proof (cases "?x = 0")
    case True
    with Suc show ?thesis by (auto simp: uval_take_Suc split: if_splits)
  next
    case False
    let ?t = "top_bit ?x 31"
    have t: "2 ^ (?t - 1) \<le> unat ?x" "unat ?x + 1 \<le> 2 ^ ?t" "1 \<le> ?t" "?t \<le> 32"
      using top_bit_bound [OF False, of 31] unat_bound [of ?x] by simp_all
    have l: "?l < 2 ^ (32 * i)" using uval_bound [of "take i pn"] Suc.prems by simp
    have "2 ^ (32 * i) * (unat ?x + 1) \<le> 2 ^ (32 * i) * 2 ^ ?t" using t(2) by (rule mult_le_mono2)
    with l have "?l + 2 ^ (32 * i) * unat ?x < 2 ^ (32 * i + ?t)" by (simp add: power_add algebra_simps)
    moreover have "2 ^ (32 * i) * 2 ^ (?t - 1) \<le> 2 ^ (32 * i) * unat ?x" using t(1) by (rule mult_le_mono2)
    then have "2 ^ (32 * i + ?t - 1) \<le> ?l + 2 ^ (32 * i) * unat ?x"
      using t(3) by (simp add: power_add [symmetric])
    moreover have "0 < unat ?x" using False by (simp add: unat_gt_0)
    ultimately show ?thesis using False t Suc.prems by (simp add: uval_take_Suc)
  qed
qed

lemma uint_bits_bound:
  assumes "length pn = WIDTH"
  shows "uval pn < 2 ^ uint_bits pn" and "uint_bits pn \<le> 256"
    and "uval pn \<noteq> 0 \<Longrightarrow> 1 \<le> uint_bits pn \<and> 2 ^ (uint_bits pn - 1) \<le> uval pn"
  using bits_below_bound [of WIDTH pn] assms by (simp_all add: uint_bits_def)

lemma uint_bits_zero: "length pn = WIDTH \<Longrightarrow> uint_bits pn = 0 \<longleftrightarrow> uval pn = 0"
  using bits_below_bound [of WIDTH pn] by (auto simp: uint_bits_def split: if_splits)

section \<open>Division\<close>

lemma bit_one_at: "j < 32 \<Longrightarrow> bit (2 ^ j :: u32) t \<longleftrightarrow> t = j"
  by (auto simp: bit_simps)

lemma uval_set_bit:
  assumes "length q = WIDTH" and "n < 256" and "\<not> bit (uval q) n"
  shows "uval (q[n div 32 := q ! (n div 32) OR push_bit (n mod 32) 1]) = uval q + 2 ^ n"
proof -
  let ?q = "q[n div 32 := q ! (n div 32) OR push_bit (n mod 32) 1]"
  have n: "n div 32 < WIDTH" using assms(2) by (intro less_mult_imp_div_less) simp
  have "bit (uval ?q) m \<longleftrightarrow> bit (uval q) m \<or> m = n" for m
  proof (cases "m div 32 = n div 32")
    case True
    have same: "m = n" if "m mod 32 = n mod 32"
    proof -
      have "m = m div 32 * 32 + m mod 32" by simp
      also have "\<dots> = n div 32 * 32 + n mod 32" by (simp only: True that)
      finally show ?thesis by simp
    qed
    have "m div 32 < WIDTH" using True n by (simp only:)
    then have m: "m < 256" by (simp add: div_less_iff_less_mult)
    have limb: "bit (?q ! (n div 32)) (m mod 32) \<longleftrightarrow> bit (q ! (n div 32)) (m mod 32) \<or> m mod 32 = n mod 32"
      using n assms(1) by (simp add: bit_or_iff bit_one_at)
    have "bit (uval ?q) m \<longleftrightarrow> bit (q ! (n div 32)) (m mod 32) \<or> m mod 32 = n mod 32"
      using m assms(1) limb by (simp only: bit_uval True length_list_update) simp
    moreover have "bit (uval q) m \<longleftrightarrow> bit (q ! (n div 32)) (m mod 32)"
      using m assms(1) by (simp only: bit_uval True) simp
    moreover have "m mod 32 = n mod 32 \<longleftrightarrow> m = n" using same by blast
    ultimately show ?thesis by simp
  next
    case False
    then show ?thesis using assms(1) by (auto simp: bit_uval)
  qed
  then have "uval ?q = uval q OR 2 ^ n"
    by (intro bit_eqI) (auto simp: bit_simps)
  moreover have "uval q AND 2 ^ n = 0"
    using assms(3) by (intro bit_eqI) (auto simp: bit_simps)
  ultimately show ?thesis by (simp add: disjunctive_add_eq_or)
qed

text \<open>
  The loop invariant of \<^verbatim>\<open>operator/=\<close>, for a divisor \<open>b\<close>: with \<open>n\<close> iterations to go the shifted
  divisor is \<open>b * 2 ^ (n - 1)\<close>, what is left of the dividend is less than \<open>b * 2 ^ n\<close>, and the
  quotient has only bits from \<open>n\<close> on.
\<close>

lemma div_loop_uval:
  assumes "0 < b" and "length num = WIDTH" and "length q = WIDTH" and "length dv = WIDTH"
    and "n \<le> 256" and "n \<noteq> 0 \<Longrightarrow> uval dv = b * 2 ^ (n - 1)" and "uval num < b * 2 ^ n"
    and "2 ^ n dvd uval q"
  shows "length (div_loop n num dv q) = WIDTH \<and> uval (div_loop n num dv q) = uval q + uval num div b"
  using assms
proof (induction n arbitrary: num dv q)
  case 0
  then show ?case by simp
next
  case (Suc n)
  have dv: "uval dv = b * 2 ^ n" using Suc.prems(6) by simp
  have dv': "uval (uint_shr dv 1) = b * 2 ^ (n - 1)" if pos: "n \<noteq> 0"
  proof -
    obtain m where n: "n = Suc m" using not0_implies_Suc [OF pos] by blast
    have "b * 2 ^ n div 2 = b * 2 ^ m" by (simp add: n)
    then show ?thesis using Suc.prems(4) by (simp add: uval_shr dv n)
  qed
  have even: "2 ^ n dvd uval q" using Suc.prems(8) by (rule power_le_dvd) simp
  show ?case
  proof (cases "uval dv \<le> uval num")
    case True
    let ?num = "uint_sub num dv"
    define q' where "q' = q[n div 32 := q ! (n div 32) OR push_bit (n mod 32) 1]"
    have num: "uval ?num = uval num - b * 2 ^ n" "length ?num = WIDTH"
      using Suc.prems True by (simp_all add: uval_sub dv) (simp add: uint_sub_def uint_add_def)
    have "\<not> bit (uval q) n"
    proof -
      obtain k where "uval q = 2 ^ Suc n * k" using Suc.prems(8) by (rule dvdE)
      then have "uval q = (2 * k) * 2 ^ n" by simp
      then have "uval q div 2 ^ n = 2 * k" by (simp only: nonzero_mult_div_cancel_right) simp
      then show ?thesis by (simp add: bit_iff_odd)
    qed
    then have q: "uval q' = uval q + 2 ^ n" "length q' = WIDTH"
      using uval_set_bit [OF Suc.prems(3), of n] Suc.prems(3,5) unfolding q'_def by simp_all
    have rest: "uval ?num < b * 2 ^ n" using Suc.prems(7) num(1) by simp
    have dvd: "2 ^ n dvd uval q'" unfolding q(1) using even by (intro dvd_add) simp_all
    have IH: "length (div_loop n ?num (uint_shr dv 1) q') = WIDTH \<and>
        uval (div_loop n ?num (uint_shr dv 1) q') = uval q' + uval ?num div b"
      using Suc.IH [OF Suc.prems(1) num(2) q(2) length_uint_shr _ dv' rest dvd] Suc.prems(5) by simp
    have "uval num = b * 2 ^ n + (uval num - b * 2 ^ n)" using True dv by simp
    then have "uval num div b = (b * 2 ^ n + (uval num - b * 2 ^ n)) div b" by (simp only:)
    also have "\<dots> = 2 ^ n + uval ?num div b"
      using Suc.prems(1) unfolding num(1) by (intro div_mult_self4) simp
    finally have quot: "uval num div b = 2 ^ n + uval ?num div b" .
    have "div_loop (Suc n) num dv q = div_loop n ?num (uint_shr dv 1) q'"
      using True Suc.prems(2,4) unfolding q'_def by (simp add: CompareTo_uval)
    with IH q(1) quot show ?thesis by simp
  next
    case False
    have "uval num < b * 2 ^ n" using False dv by simp
    from Suc.IH [OF Suc.prems(1,2,3) length_uint_shr _ dv' this even] Suc.prems(5)
    have "length (div_loop n num (uint_shr dv 1) q) = WIDTH \<and>
        uval (div_loop n num (uint_shr dv 1) q) = uval q + uval num div b"
      by simp
    then show ?thesis using False Suc.prems(2,4) by (simp add: CompareTo_uval)
  qed
qed

lemma uval_div:
  assumes "length a = WIDTH" and "length b = WIDTH"
  shows "uint_div a b = None \<longleftrightarrow> uval b = 0"
    and "uint_div a b = Some q \<Longrightarrow> length q = WIDTH \<and> uval q = uval a div uval b"
proof -
  show "uint_div a b = None \<longleftrightarrow> uval b = 0"
    using assms by (simp add: uint_div_def Let_def uint_bits_zero)
  assume q: "uint_div a b = Some q"
  then have b: "uint_bits b \<noteq> 0" "uval b \<noteq> 0" using assms
    by (auto simp: uint_div_def Let_def uint_bits_zero split: if_splits)
  note bb = uint_bits_bound [OF assms(2)] and ab = uint_bits_bound [OF assms(1)]
  show "length q = WIDTH \<and> uval q = uval a div uval b"
  proof (cases "uint_bits a < uint_bits b")
    case True
    then have "uint_bits a \<le> uint_bits b - 1" by simp
    then have "uval a < 2 ^ (uint_bits b - 1)" using ab(1) by (meson less_le_trans one_le_numeral power_increasing)
    with bb(3) b have "uval a < uval b" by simp
    with True b q show ?thesis by (auto simp: uint_div_def Let_def base_uint_zero_def)
  next
    case False
    define sh where "sh = uint_bits a - uint_bits b"
    have sum: "uint_bits b + sh = uint_bits a" using False by (simp add: sh_def)
    have "uval b * 2 ^ sh < 2 ^ uint_bits b * 2 ^ sh" using bb(1) by simp
    also have "\<dots> = 2 ^ uint_bits a" by (simp add: power_add [symmetric] sum)
    also have "\<dots> \<le> 2 ^ 256" by (rule power_increasing [OF ab(2)]) simp
    finally have shl: "uval (uint_shl b sh) = uval b * 2 ^ sh" using assms by (simp add: uval_shl)
    have "uval a < 2 ^ (uint_bits b + sh)" using ab(1) sum by simp
    also have "\<dots> = 2 ^ (uint_bits b - 1) * 2 ^ Suc sh"
      using b by (simp only: power_add [symmetric]) simp
    also have "\<dots> \<le> uval b * 2 ^ Suc sh" using bb(3) b by simp
    finally have "uval a < uval b * 2 ^ Suc sh" .
    moreover have "Suc sh \<le> 256" using ab(2) b sum by linarith
    ultimately have "length (div_loop (Suc sh) a (uint_shl b sh) base_uint_zero) = WIDTH \<and>
        uval (div_loop (Suc sh) a (uint_shl b sh) base_uint_zero) = uval base_uint_zero + uval a div uval b"
      using b assms shl by (intro div_loop_uval) (simp_all add: base_uint_zero_def)
    moreover have "q = div_loop (Suc sh) a (uint_shl b sh) base_uint_zero"
      using q b False by (simp add: uint_div_def Let_def sh_def)
    ultimately show ?thesis by (simp add: base_uint_zero_def)
  qed
qed


section \<open>The other operators\<close>

lemma uval_zero [simp]: "uval base_uint_zero = 0" "length base_uint_zero = WIDTH"
  by (simp_all add: base_uint_zero_def)

lemma base_uint_of_val [simp]: "uval (base_uint_of b) = unat b" "length (base_uint_of b) = WIDTH"
proof -
  have "unat (ucast b :: u32) = unat b mod 2 ^ 32" by (simp add: unsigned_ucast_eq take_bit_eq_mod)
  moreover have "unat (ucast (drop_bit 32 b) :: u32) = unat b div 2 ^ 32"
    using unat_bound [of b] by (simp add: unsigned_ucast_eq take_bit_eq_mod high32 less_mult_imp_div_less)
  ultimately show "uval (base_uint_of b) = unat b"
    by (simp only: base_uint_of_def uval.simps uval_replicate_0) simp
  show "length (base_uint_of b) = WIDTH" by (simp add: base_uint_of_def)
qed

lemma is_zero_uval: "uint_is_zero pn \<longleftrightarrow> uval pn = 0"
  by (induction pn) (auto simp: uint_is_zero_def unat_eq_zero)

lemma uval_uint_dec: "uval (uint_dec xs) = (uval xs + (2 ^ (32 * length xs) - 1)) mod 2 ^ (32 * length xs)"
proof (induction xs)
  case Nil
  then show ?case by simp
next
  case (Cons x xs)
  let ?M = "2 ^ (32 * length xs) :: nat"
  have M: "2 ^ (32 * length (x # xs)) = 2 ^ 32 * ?M" by (simp add: power_add)
  have pos: "1 \<le> ?M" by simp
  show ?case
  proof (cases "x = 0")
    case True
    have step: "uval (uint_dec (x # xs)) = (2 ^ 32 - 1) + 2 ^ 32 * ((uval xs + (?M - 1)) mod ?M)"
      using Cons True by (cases xs) (simp_all add: unat_m1)
    have "(2 ^ 32 - 1) mod 2 ^ 32 + 2 ^ 32 * (((2 ^ 32 - 1) div 2 ^ 32 + (uval xs + (?M - 1))) mod ?M) =
        ((2 ^ 32 - 1) + 2 ^ 32 * (uval xs + (?M - 1))) mod (2 ^ 32 * ?M)"
      by (rule carry_step)
    moreover have "(2 ^ 32 - 1) + 2 ^ 32 * (uval xs + (?M - 1)) = uval (x # xs) + (2 ^ 32 * ?M - 1)"
    proof -
      obtain K where K: "?M = Suc K" using pos by (cases ?M) auto
      show ?thesis unfolding K using True by simp
    qed
    ultimately show ?thesis unfolding step M by simp
  next
    case False
    then have "x - 1 \<noteq> - 1" by simp
    then have "uval (uint_dec (x # xs)) = unat (x - 1) + 2 ^ 32 * uval xs" by simp
    moreover have ux: "unat (x - 1) = unat x - 1" "1 \<le> unat x"
      using False by (simp_all add: unat_minus_one Suc_le_eq unat_gt_0)
    ultimately have eq: "uval (uint_dec (x # xs)) + 1 = uval (x # xs)" by simp
    have "uval (x # xs) < 2 ^ (32 * length (x # xs))" by (rule uval_bound)
    then have "uval (uint_dec (x # xs)) < 2 ^ (32 * length (x # xs))" using eq by linarith
    moreover have "uval (x # xs) + (2 ^ (32 * length (x # xs)) - 1) =
        uval (uint_dec (x # xs)) + 2 ^ (32 * length (x # xs))"
      unfolding eq [symmetric] by simp
    ultimately show ?thesis by (simp only: mod_add_self2 mod_less)
  qed
qed

lemma EqualTo_uval:
  assumes "length pn = WIDTH"
  shows "EqualTo pn b \<longleftrightarrow> uval pn = unat b"
proof -
  obtain x y zs where pn: "pn = x # y # zs" and zs: "length zs = 6"
    using assms by (cases pn; cases "tl pn") auto
  have low: "b AND 0xffffffff = take_bit 32 b" by (simp add: take_bit_eq_mask mask_eq_exp_minus_1)
  have "ucast x = b AND 0xffffffff \<longleftrightarrow> unat x = unat b mod 2 ^ 32"
    by (simp only: low) (simp add: word_unat_eq_iff take_bit_eq_mod unat_mod)
  moreover have "ucast y = drop_bit 32 b \<longleftrightarrow> unat y = unat b div 2 ^ 32"
    by (simp only: word_unat_eq_iff unat_ucast_64 high32)
  ultimately have E: "EqualTo pn b \<longleftrightarrow> uval zs = 0 \<and> unat y = unat b div 2 ^ 32 \<and> unat x = unat b mod 2 ^ 32"
    using is_zero_uval [of zs] by (simp add: EqualTo_def pn uint_is_zero_def)
  have xy: "unat x < 2 ^ 32" "unat y < 2 ^ 32" and b: "unat b < 2 ^ 64"
    using unat_bound [of x] unat_bound [of y] unat_bound [of b] by simp_all
  have bs: "unat b = unat b mod 2 ^ 32 + 2 ^ 32 * (unat b div 2 ^ 32)" by simp
  show ?thesis
  proof
    show "uval pn = unat b" if "EqualTo pn b"
      using that E by (subst bs) (simp add: pn)
    show "EqualTo pn b" if eq: "uval pn = unat b"
    proof -
      have v: "unat b = unat x + 2 ^ 32 * (unat y + 2 ^ 32 * uval zs)" using eq by (simp add: pn)
      then have "uval zs = 0" using b by (cases "uval zs") auto
      with v xy have "unat b div 2 ^ 32 = unat y" "unat b mod 2 ^ 32 = unat x" by simp_all
      with \<open>uval zs = 0\<close> show ?thesis by (simp only: E)
    qed
  qed
qed

lemma GetLow64_uval:
  assumes "length pn = WIDTH"
  shows "unat (GetLow64 pn) = uval pn mod 2 ^ 64"
proof -
  obtain x y zs where pn: "pn = x # y # zs" using assms by (cases pn; cases "tl pn") auto
  have xy: "unat x < 2 ^ 32" "unat y < 2 ^ 32" using unat_bound [of x] unat_bound [of y] by simp_all
  have disj: "(ucast x :: u64) AND push_bit 32 (ucast y) = 0"
    by (rule bit_eqI) (auto simp: bit_simps dest: bit_imp_le_length)
  have "unat (push_bit 32 (ucast y) :: u64) = 2 ^ 32 * unat y"
    using xy by (simp add: push_bit_eq_mult unat_mult_lem [THEN iffD1] mult.commute unat_word_ariths)
  then have "unat (GetLow64 pn) = unat x + 2 ^ 32 * unat y"
    using xy disj by (simp add: GetLow64_def pn disjunctive_add_eq_or [symmetric] unat_word_ariths)
  moreover have "uval pn = unat x + 2 ^ 32 * unat y + 2 ^ 64 * uval zs" by (simp add: pn)
  moreover have "unat x + 2 ^ 32 * unat y < 2 ^ 64" using xy by simp
  ultimately show ?thesis by simp
qed

section \<open>Bytes\<close>

lemma uval_ArithToUint256: "le_val (ArithToUint256 a) = uval a"
proof (induction a)
  case Nil
  then show ?case by (simp add: ArithToUint256_def)
next
  case (Cons x xs)
  then show ?case
    using unat_bound [of x]
    by (simp add: ArithToUint256_def WriteLE32_def codec_simps)
qed

lemma length_ArithToUint256 [simp]: "length (ArithToUint256 a) = 4 * length a"
  by (induction a) (simp_all add: ArithToUint256_def)

lemma UintToArith_Cons:
  "map (\<lambda>x. ReadLE32 (drop (4 * x) b)) [0..<Suc n] =
   ReadLE32 b # map (\<lambda>x. ReadLE32 (drop (4 * x) (drop 4 b))) [0..<n]"
  by (simp add: upt_conv_Cons map_Suc_upt [symmetric] comp_def add.commute del: upt_Suc)

lemma uval_UintToArith:
  "length b = 4 * n \<Longrightarrow> uval (map (\<lambda>x. ReadLE32 (drop (4 * x) b)) [0..<n]) = le_val b"
proof (induction n arbitrary: b)
  case 0
  then show ?case by simp
next
  case (Suc n)
  have "le_val (take 4 b) < 2 ^ 32" using le_val_bound [of "take 4 b"] Suc.prems by simp
  then have "unat (ReadLE32 b) = le_val (take 4 b)" by (simp add: ReadLE32_def unat_of_nat)
  moreover have "le_val b = le_val (take 4 b) + 2 ^ 32 * le_val (drop 4 b)"
    using le_val_append [of "take 4 b" "drop 4 b"] Suc.prems by simp
  ultimately show ?case
    using Suc.IH [of "drop 4 b"] Suc.prems by (simp only: UintToArith_Cons uval.simps) simp
qed

lemma UintToArith256_uval: "length b = 32 \<Longrightarrow> uval (UintToArith256 b) = le_val b"
  unfolding UintToArith256_def by (rule uval_UintToArith) simp

lemma length_UintToArith256 [simp]: "length (UintToArith256 b) = WIDTH"
  by (simp add: UintToArith256_def)

lemma UintToArith_round: "length a = WIDTH \<Longrightarrow> UintToArith256 (ArithToUint256 a) = a"
  by (rule uval_inject) (simp_all add: UintToArith256_uval uval_ArithToUint256)

lemma le_val_inject: "length x = length y \<Longrightarrow> le_val x = le_val y \<Longrightarrow> x = y"
  by (metis le_bytes_le_val)

lemma ArithToUint_round: "length b = 32 \<Longrightarrow> ArithToUint256 (UintToArith256 b) = b"
  by (rule le_val_inject) (simp_all add: UintToArith256_uval uval_ArithToUint256)

section \<open>The limbs implement the interface\<close>

lemma length_uint_mul: "length a = WIDTH \<Longrightarrow> length b = WIDTH \<Longrightarrow> length (uint_mul a b) = WIDTH"
  using uval_mul_rows [of a b WIDTH] by (simp add: uint_mul_def)

interpretation arith256: uint_arith wf_limbs uval base_uint_of uint_add uint_mul uint_mul32 uint_div
  uint_compl CompareTo
proof
  fix a b :: limbs
  assume a: "wf_limbs a"
  then have la: "length a = WIDTH" by (simp add: wf_limbs_def)
  show "uval a < 2 ^ 256" using uval_bound [of a] la by simp
  show "wf_limbs (uint_mul32 a k) \<and> uval (uint_mul32 a k) = uval a * unat k mod 2 ^ 256" for k
    using la by (simp add: wf_limbs_def uval_mul32) (simp add: uint_mul32_def)
  show "wf_limbs (uint_compl a) \<and> uval (uint_compl a) = 2 ^ 256 - 1 - uval a"
    using la by (simp add: wf_limbs_def uval_compl) (simp add: uint_compl_def)
  assume b: "wf_limbs b"
  then have lb: "length b = WIDTH" by (simp add: wf_limbs_def)
  show "wf_limbs (uint_add a b) \<and> uval (uint_add a b) = (uval a + uval b) mod 2 ^ 256"
    using la lb by (simp add: wf_limbs_def uval_add) (simp add: uint_add_def)
  show "wf_limbs (uint_mul a b) \<and> uval (uint_mul a b) = uval a * uval b mod 2 ^ 256"
    using la lb by (simp add: wf_limbs_def uval_mul length_uint_mul)
  show "if uval b = 0 then uint_div a b = None
        else \<exists>q. uint_div a b = Some q \<and> wf_limbs q \<and> uval q = uval a div uval b"
    using uval_div [OF la lb] by (cases "uint_div a b") (auto simp: wf_limbs_def)
  show "(CompareTo a b < 0 \<longleftrightarrow> uval a < uval b) \<and> (0 < CompareTo a b \<longleftrightarrow> uval b < uval a)"
    using la lb by (simp add: CompareTo_uval)
qed (simp add: wf_limbs_def)

section \<open>Properties\<close>

text \<open>
  C6: on well-formed operands the limb loops compute arithmetic modulo \<open>2 ^ 256\<close>: addition,
  subtraction, negation, both products, increment, decrement, complement and both shifts.
\<close>

theorem arith_uint256_ring:
  assumes "wf_limbs a" and "wf_limbs b"
  shows "uval (uint_add a b) = (uval a + uval b) mod 2 ^ 256 \<and>
    uval (uint_sub a b) = (uval a + (2 ^ 256 - uval b)) mod 2 ^ 256 \<and>
    uval (uint_neg a) = (2 ^ 256 - uval a) mod 2 ^ 256 \<and>
    uval (uint_mul a b) = uval a * uval b mod 2 ^ 256 \<and>
    uval (uint_mul32 a k) = uval a * unat k mod 2 ^ 256 \<and>
    uval (uint_inc a) = (uval a + 1) mod 2 ^ 256 \<and>
    uval (uint_dec a) = (uval a + (2 ^ 256 - 1)) mod 2 ^ 256 \<and>
    uval (uint_compl a) = 2 ^ 256 - 1 - uval a \<and>
    uval (uint_shl a sh) = uval a * 2 ^ sh mod 2 ^ 256 \<and>
    uval (uint_shr a sh) = uval a div 2 ^ sh"
  using assms unfolding wf_limbs_def
  by (simp add: uval_add uval_sub_wrap uval_neg uval_mul uval_mul32 uval_uint_inc uval_uint_dec
      uval_compl uval_shl uval_shr)

theorem arith_uint256_ring_witness:
  "uval (uint_sub (base_uint_of 3) (base_uint_of 5)) = 2 ^ 256 - 2"
  using arith_uint256_ring [of "base_uint_of 3" "base_uint_of 5"] by (simp add: wf_limbs_def)

text \<open>
  C7: \<^verbatim>\<open>operator/=\<close> throws exactly when the divisor is zero; otherwise its shift-and-subtract loop
  returns the integer quotient.
\<close>

theorem arith_uint256_div:
  assumes "wf_limbs a" and "wf_limbs b"
  shows "if uval b = 0 then uint_div a b = None
         else \<exists>q. uint_div a b = Some q \<and> wf_limbs q \<and> uval q = uval a div uval b"
  using uval_div [of a b] assms by (cases "uint_div a b") (auto simp: wf_limbs_def)

theorem arith_uint256_div_witness:
  "\<exists>q. uint_div (base_uint_of 100) (base_uint_of 7) = Some q \<and> wf_limbs q \<and> uval q = 14"
  using arith_uint256_div [of "base_uint_of 100" "base_uint_of 7"] by (simp add: wf_limbs_def)

text \<open>
  \<^verbatim>\<open>CompareTo\<close> orders by value, \<^verbatim>\<open>EqualTo\<close> and \<^verbatim>\<open>operator!\<close> test the value, and two numbers with the
  same value have the same limbs, so that the \<^verbatim>\<open>memcmp\<close> of \<^verbatim>\<open>operator==\<close> decides equality.
\<close>

lemma arith_uint256_compare:
  assumes "wf_limbs a" and "wf_limbs b"
  shows "(CompareTo a b < 0 \<longleftrightarrow> uval a < uval b) \<and> (CompareTo a b = 0 \<longleftrightarrow> uval a = uval b) \<and>
    (EqualTo a n \<longleftrightarrow> uval a = unat n) \<and> (uint_is_zero a \<longleftrightarrow> uval a = 0) \<and>
    (a = b \<longleftrightarrow> uval a = uval b)"
  using assms uval_inject [of a b] unfolding wf_limbs_def
  by (auto simp: CompareTo_uval EqualTo_uval is_zero_uval)

text \<open>
  The conversions between \<^verbatim>\<open>arith_uint256\<close> and the 32 bytes of a \<^verbatim>\<open>uint256\<close> are inverse to each other
  and read the bytes as a little-endian number.
\<close>

lemma arith_uint256_bytes:
  assumes "wf_limbs a" and "length h = 32"
  shows "UintToArith256 (ArithToUint256 a) = a \<and> ArithToUint256 (UintToArith256 h) = h \<and>
    uval (UintToArith256 h) = le_val h \<and> le_val (ArithToUint256 a) = uval a"
  using assms
  by (simp add: wf_limbs_def UintToArith_round ArithToUint_round UintToArith256_uval uval_ArithToUint256)

end
