(* ===== verification/Compact.thy ===== *)
theory Compact
  imports ArithUint256
begin

text \<open>
  \<^verbatim>\<open>SetCompact\<close> and \<^verbatim>\<open>GetCompact\<close> of \<^verbatim>\<open>src/src/arith_uint256.cpp\<close>: the 32-bit floating form in which
  block headers store the target (\<^verbatim>\<open>nBits\<close>). The lemmas relate both to plain arithmetic on numbers and
  prove the round trips.
\<close>

section \<open>The compact format\<close>

text \<open>\<^verbatim>\<open>SetCompact\<close>: the value, \<^verbatim>\<open>*pfNegative\<close> and \<^verbatim>\<open>*pfOverflow\<close>.\<close>

definition SetCompact :: "u32 \<Rightarrow> limbs \<times> bool \<times> bool" where
  "SetCompact nCompact =
     (let nSize = unat (drop_bit 24 nCompact);
          nWord0 = nCompact AND 0x007fffff;
          nWord = (if nSize \<le> 3 then drop_bit (8 * (3 - nSize)) nWord0 else nWord0);
          v = (if nSize \<le> 3 then base_uint_of (ucast nWord)
               else uint_shl (base_uint_of (ucast nWord)) (8 * (nSize - 3)))
      in (v, nWord \<noteq> 0 \<and> nCompact AND 0x00800000 \<noteq> 0,
          nWord \<noteq> 0 \<and> (34 < nSize \<or> (0xff < nWord \<and> 33 < nSize) \<or> (0xffff < nWord \<and> 32 < nSize))))"

text \<open>\<^verbatim>\<open>GetCompact\<close>: \<^const>\<open>None\<close> is a failed \<^verbatim>\<open>assert\<close>.\<close>

definition GetCompact :: "limbs \<Rightarrow> bool \<Rightarrow> u32 option" where
  "GetCompact pn fNegative =
     (let nSize0 = (uint_bits pn + 7) div 8;
          nCompact0 = (if nSize0 \<le> 3 then ucast (push_bit (8 * (3 - nSize0)) (GetLow64 pn))
                       else ucast (GetLow64 (uint_shr pn (8 * (nSize0 - 3))))) :: u32;
          (nCompact1, nSize) =
            (if nCompact0 AND 0x00800000 \<noteq> 0 then (drop_bit 8 nCompact0, nSize0 + 1) else (nCompact0, nSize0))
      in if nCompact1 AND NOT 0x007fffff = 0 \<and> nSize < 256
         then let nCompact2 = nCompact1 OR push_bit 24 (word_of_nat nSize)
              in Some (nCompact2 OR (if fNegative \<and> nCompact2 AND 0x007fffff \<noteq> 0 then 0x00800000 else 0))
         else None)"


section \<open>The compact format on numbers\<close>

text \<open>
  \<open>compact_value c\<close> is the number that the 32-bit code \<open>c\<close> denotes, before it is cut to 256 bits, and
  \<open>to_compact n\<close> the code of a number, both as plain arithmetic.
\<close>

definition compact_exp :: "nat \<Rightarrow> nat" where
  "compact_exp c = c div 2 ^ 24"

definition compact_mant :: "nat \<Rightarrow> nat" where
  "compact_mant c = c mod 2 ^ 23"

definition compact_value :: "nat \<Rightarrow> nat" where
  "compact_value c =
     (if compact_exp c \<le> 3 then compact_mant c div 256 ^ (3 - compact_exp c)
      else compact_mant c * 256 ^ (compact_exp c - 3))"

lemma unat_and_mant: "unat (c AND 0x007fffff) = unat (c :: u32) mod 2 ^ 23"
proof -
  have "c AND 0x007fffff = take_bit 23 c" by (simp add: take_bit_eq_mask mask_eq_exp_minus_1)
  then show ?thesis by (simp add: take_bit_eq_mod unat_mod)
qed

lemma unat_drop_u32: "unat (drop_bit n (c :: u32)) = unat c div 2 ^ n"
  using unat_bound [of c] by (simp only: unsigned_drop_bit_eq) (simp add: drop_bit_eq_div take_bit_nat_eq_self)

lemma sign_bit: "c AND 0x00800000 \<noteq> 0 \<longleftrightarrow> bit (c :: u32) 23"
  using bit_iff_and_push_bit_not_eq_0 [of c 23] by simp

lemma pow256: "256 ^ n = (2 :: nat) ^ (8 * n)"
  by (simp add: power_mult)

lemma SetCompact_value:
  "uval (fst (SetCompact c)) = compact_value (unat c) mod 2 ^ 256 \<and> length (fst (SetCompact c)) = WIDTH"
proof -
  define e where "e = unat (drop_bit 24 c)"
  define w where "w = c AND 0x007fffff"
  have e: "e = compact_exp (unat c)" by (simp add: e_def compact_exp_def unat_drop_u32)
  have w: "unat w = compact_mant (unat c)" unfolding w_def compact_mant_def by (rule unat_and_mant)
  have w32: "unat w < 2 ^ 32" using unat_bound [of w] by simp
  show ?thesis
  proof (cases "e \<le> 3")
    case True
    have "fst (SetCompact c) = base_uint_of (ucast (drop_bit (8 * (3 - e)) w))"
      using True by (simp add: SetCompact_def Let_def e_def w_def)
    moreover have "unat w div 2 ^ (8 * (3 - e)) < 2 ^ 256"
      by (rule le_less_trans [OF div_le_dividend]) (use w32 in simp)
    ultimately show ?thesis using True by (simp add: unat_drop_u32 compact_value_def e w pow256)
  next
    case False
    have "fst (SetCompact c) = uint_shl (base_uint_of (ucast w)) (8 * (e - 3))"
      using False by (simp add: SetCompact_def Let_def e_def w_def)
    then show ?thesis using False by (simp add: uval_shl compact_value_def e w pow256)
  qed
qed

text \<open>The overflow flag is exact: it is set when the denoted number does not fit into 256 bits.\<close>

lemma fits_iff:
  fixes m k :: nat
  shows "2 ^ 256 \<le> m * 256 ^ k \<longleftrightarrow> (if k \<le> 32 then 256 ^ (32 - k) \<le> m else 1 \<le> m)"
proof (cases "k \<le> 32")
  case True
  have "(2 ^ 256 :: nat) = 256 ^ (32 - k) * 256 ^ k"
  proof -
    have "8 * (32 - k) + 8 * k = 256" using True by simp
    then show ?thesis by (simp only: power_add [symmetric] pow256)
  qed
  then have "2 ^ 256 \<le> m * 256 ^ k \<longleftrightarrow> 256 ^ (32 - k) * 256 ^ k \<le> m * 256 ^ k" by (simp only:)
  also have "\<dots> \<longleftrightarrow> 256 ^ (32 - k) \<le> m" by (simp only: mult_le_cancel2) simp
  finally show ?thesis using True by simp
next
  case False
  have "(2 ^ 256 :: nat) \<le> 256 ^ k"
    using False by (simp only: pow256) (rule power_increasing, simp_all)
  then have "2 ^ 256 \<le> m * 256 ^ k" if "1 \<le> m"
    using that mult_le_mono [of 1 m "2 ^ 256" "256 ^ k"] by simp
  then show ?thesis using False by (cases m) auto
qed

lemma SetCompact_overflow: "snd (snd (SetCompact c)) \<longleftrightarrow> 2 ^ 256 \<le> compact_value (unat c)"
proof -
  define e where "e = compact_exp (unat c)"
  define m where "m = compact_mant (unat c)"
  have m: "m < 2 ^ 23" unfolding m_def compact_mant_def by simp
  have e': "unat (drop_bit 24 c) = e" by (simp add: e_def compact_exp_def unat_drop_u32)
  have w: "unat (c AND 0x007fffff) = m" unfolding m_def compact_mant_def by (rule unat_and_mant)
  show ?thesis
  proof (cases "e \<le> 3")
    case True
    have "m div 256 ^ (3 - e) < 2 ^ 256"
      by (rule le_less_trans [OF div_le_dividend]) (use m in simp)
    then show ?thesis
      using True by (simp add: SetCompact_def Let_def e' compact_value_def e_def [symmetric] m_def [symmetric])
  next
    case False
    have flag: "snd (snd (SetCompact c)) \<longleftrightarrow> m \<noteq> 0 \<and> (34 < e \<or> (0xff < m \<and> 33 < e) \<or> (0xffff < m \<and> 32 < e))"
      using False w
      by (simp add: SetCompact_def Let_def e' word_less_nat_alt word_unat_eq_iff)
    have val: "compact_value (unat c) = m * 256 ^ (e - 3)"
      using False by (simp add: compact_value_def e_def m_def)
    consider "e \<le> 32" | "e = 33" | "e = 34" | "34 < e" by linarith
    then show ?thesis
    proof cases
      case 1
      have "256 ^ 3 \<le> (256 ^ (32 - (e - 3)) :: nat)" by (rule power_increasing) (use 1 in simp_all)
      moreover have "e - 3 \<le> 32" using 1 by simp
      ultimately show ?thesis unfolding flag val fits_iff using 1 m by simp
    next
      case 4
      then show ?thesis unfolding flag val fits_iff by (cases "e = 35") auto
    qed (auto simp: flag val fits_iff)
  qed
qed

lemma pow256_split: "i + j = k \<Longrightarrow> 256 ^ i * 256 ^ j = (256 :: nat) ^ k"
  by (simp only: power_add [symmetric])

text \<open>The length of a number in bytes, as \<^verbatim>\<open>GetCompact\<close> computes it.\<close>

definition byte_len :: "limbs \<Rightarrow> nat" where
  "byte_len pn = (uint_bits pn + 7) div 8"

lemma byte_len_bound:
  assumes "length pn = WIDTH"
  shows "uval pn < 256 ^ byte_len pn" and "byte_len pn \<le> 32"
    and "uval pn \<noteq> 0 \<Longrightarrow> 1 \<le> byte_len pn \<and> 256 ^ (byte_len pn - 1) \<le> uval pn"
    and "uval pn = 0 \<Longrightarrow> byte_len pn = 0"
proof -
  note b = uint_bits_bound [OF assms]
  have le: "uint_bits pn \<le> 8 * byte_len pn" by (simp add: byte_len_def)
  have "uval pn < 2 ^ uint_bits pn" by (rule b)
  also have "\<dots> \<le> 2 ^ (8 * byte_len pn)" by (rule power_increasing [OF le]) simp
  finally show "uval pn < 256 ^ byte_len pn" by (simp only: pow256)
  show "byte_len pn \<le> 32" using b(2) by (simp add: byte_len_def)
  show "1 \<le> byte_len pn \<and> 256 ^ (byte_len pn - 1) \<le> uval pn" if "uval pn \<noteq> 0"
  proof
    show "1 \<le> byte_len pn" using b(3) that unfolding byte_len_def by presburger
    have "8 * (byte_len pn - 1) \<le> uint_bits pn - 1"
      using b(3) that unfolding byte_len_def by presburger
    then have "(2 :: nat) ^ (8 * (byte_len pn - 1)) \<le> 2 ^ (uint_bits pn - 1)" by (rule power_increasing) simp
    also have "\<dots> \<le> uval pn" using b(3) that by simp
    finally show "256 ^ (byte_len pn - 1) \<le> uval pn" by (simp only: pow256)
  qed
  show "byte_len pn = 0" if "uval pn = 0" using that uint_bits_zero [OF assms] by (simp add: byte_len_def)
qed

lemma byte_len_eq:
  assumes "length pn = WIDTH" and "256 ^ (k - 1) \<le> uval pn" and "uval pn < 256 ^ k" and "1 \<le> k"
  shows "byte_len pn = k"
proof -
  have nz: "uval pn \<noteq> 0" using assms(2) by (metis le_zero_eq power_not_zero zero_neq_numeral)
  note b = byte_len_bound [OF assms(1)]
  have "256 ^ (k - 1) < (256 :: nat) ^ byte_len pn" using le_less_trans [OF assms(2) b(1)] .
  then have "k - 1 < byte_len pn" by simp
  moreover have "256 ^ (byte_len pn - 1) < (256 :: nat) ^ k" using b(3) [OF nz] assms(3) by (meson le_less_trans)
  then have "byte_len pn - 1 < k" by simp
  ultimately show ?thesis using assms(4) by simp
qed

text \<open>The three leading bytes, before the sign bit is looked at.\<close>

definition lead3 :: "nat \<Rightarrow> nat \<Rightarrow> nat" where
  "lead3 n v = (if n \<le> 3 then v * 256 ^ (3 - n) else v div 256 ^ (n - 3))"

lemma lead3_bound:
  assumes "length pn = WIDTH"
  shows "lead3 (byte_len pn) (uval pn) < 2 ^ 24"
    and "uval pn \<noteq> 0 \<Longrightarrow> 2 ^ 16 \<le> lead3 (byte_len pn) (uval pn)"
proof -
  let ?n = "byte_len pn"
  note b = byte_len_bound [OF assms]
  have p: "(2 :: nat) ^ 24 = 256 ^ 3" "(2 :: nat) ^ 16 = 256 ^ 2" by simp_all
  show "lead3 ?n (uval pn) < 2 ^ 24"
  proof (cases "?n \<le> 3")
    case True
    have "uval pn * 256 ^ (3 - ?n) < 256 ^ ?n * 256 ^ (3 - ?n)" using b(1) by simp
    also have "\<dots> = 256 ^ 3" using True by (intro pow256_split) simp
    finally show ?thesis using True by (simp add: lead3_def)
  next
    case False
    have "(256 :: nat) ^ 3 * 256 ^ (?n - 3) = 256 ^ ?n" using False by (intro pow256_split) simp
    then have "uval pn < 256 ^ 3 * 256 ^ (?n - 3)" using b(1) by simp
    then show ?thesis using False by (simp add: lead3_def less_mult_imp_div_less)
  qed
  show "2 ^ 16 \<le> lead3 ?n (uval pn)" if "uval pn \<noteq> 0"
  proof (cases "?n \<le> 3")
    case True
    have "256 ^ 2 = 256 ^ (?n - 1) * (256 :: nat) ^ (3 - ?n)"
      using True b(3) that by (intro pow256_split [symmetric]) simp
    also have "\<dots> \<le> uval pn * 256 ^ (3 - ?n)" using b(3) that by simp
    finally show ?thesis using True by (simp add: lead3_def)
  next
    case False
    have "256 ^ 2 * 256 ^ (?n - 3) = (256 :: nat) ^ (?n - 1)"
      using False by (intro pow256_split) simp
    then have "256 ^ 2 * 256 ^ (?n - 3) \<le> uval pn" using b(3) that by simp
    then have "256 ^ 2 \<le> uval pn div 256 ^ (?n - 3)" by (simp add: less_eq_div_iff_mult_less_eq)
    then show ?thesis using False by (simp add: lead3_def)
  qed
qed

text \<open>
  The code of a number: the mantissa is the three leading bytes, or the two leading ones when the top
  bit of the first would be read as a sign.
\<close>

definition compact_parts :: "limbs \<Rightarrow> nat \<times> nat" where
  "compact_parts pn =
     (let n = byte_len pn; m = lead3 n (uval pn)
      in if 2 ^ 23 \<le> m then (n + 1, m div 256) else (n, m))"

lemma compact_parts_bound:
  assumes "length pn = WIDTH" and "compact_parts pn = (e, m)"
  shows "m < 2 ^ 23" and "e \<le> 33" and "uval pn \<noteq> 0 \<Longrightarrow> 2 ^ 15 \<le> m \<and> 1 \<le> e"
  using assms(2) lead3_bound [OF assms(1)] byte_len_bound [OF assms(1)]
  by (auto simp: compact_parts_def Let_def split: if_splits)

lemma GetCompact_parts:
  assumes "length pn = WIDTH" and "compact_parts pn = (e, m)"
  shows "\<exists>c. GetCompact pn False = Some c \<and> unat c = 2 ^ 24 * e + m"
proof -
  let ?n = "byte_len pn" and ?v = "uval pn"
  define c0 :: u32 where "c0 = (if ?n \<le> 3 then ucast (push_bit (8 * (3 - ?n)) (GetLow64 pn))
                       else ucast (GetLow64 (uint_shr pn (8 * (?n - 3)))))"
  note lead = lead3_bound [OF assms(1)] and b = byte_len_bound [OF assms(1)]
  have low: "unat (ucast (x :: u64) :: u32) = unat x mod 2 ^ 32" for x
    by (simp add: unsigned_ucast_eq take_bit_eq_mod)
  have c0: "unat c0 = lead3 ?n ?v"
  proof (cases "?n \<le> 3")
    case True
    have "(256 :: nat) ^ ?n \<le> 256 ^ 3" by (rule power_increasing) (use True in simp_all)
    then have "?v < 2 ^ 24" using b(1) by simp
    then have g: "unat (GetLow64 pn) = ?v" by (simp add: GetLow64_uval assms(1))
    have "unat (push_bit (8 * (3 - ?n)) (GetLow64 pn)) = ?v * 256 ^ (3 - ?n) mod 2 ^ 64"
      by (simp add: unsigned_push_bit_eq push_bit_eq_mult take_bit_eq_mod g pow256 del: push_bit_eq_mult) (simp add: push_bit_eq_mult)
    then show ?thesis using True lead(1) by (simp add: c0_def low lead3_def)
  next
    case False
    have "unat (GetLow64 (uint_shr pn (8 * (?n - 3)))) = lead3 ?n ?v mod 2 ^ 64"
      using False by (simp add: GetLow64_uval uval_shr assms(1) lead3_def pow256)
    then show ?thesis using False lead(1) by (simp add: c0_def low)
  qed
  have sign: "c0 AND 0x00800000 \<noteq> 0 \<longleftrightarrow> 2 ^ 23 \<le> unat c0"
    using bit_top_nat [of "unat c0" 23] lead(1) by (simp only: sign_bit c0) (simp add: c0 [symmetric] bit_unsigned_iff)
  define c1 where "c1 = (if c0 AND 0x00800000 \<noteq> 0 then drop_bit 8 c0 else c0)"
  have em: "e = (if c0 AND 0x00800000 \<noteq> 0 then ?n + 1 else ?n)" and c1: "unat c1 = m"
    using assms(2) unfolding sign c0 c1_def by (auto simp: compact_parts_def Let_def unat_drop_u32 c0 split: if_splits)
  note mb = compact_parts_bound [OF assms]
  have self: "take_bit 23 c1 = c1"
    using mb(1) c1 by (simp add: word_unat_eq_iff take_bit_eq_mod unat_mod)
  have mask: "0x007fffff = (mask 23 :: u32)" by (simp add: mask_eq_exp_minus_1)
  have high: "c1 AND NOT 0x007fffff = 0"
    unfolding mask by (subst self [symmetric], rule bit_eqI) (auto simp: bit_simps)
  have "c1 AND push_bit 24 (word_of_nat e) = 0"
    by (subst self [symmetric], rule bit_eqI) (auto simp: bit_simps)
  then have "c1 OR push_bit 24 (word_of_nat e) = c1 + push_bit 24 (word_of_nat e)"
    by (simp only: disjunctive_add_eq_or)
  moreover have "unat (push_bit 24 (word_of_nat e) :: u32) = 2 ^ 24 * e"
    using mb(2) by (simp add: push_bit_eq_mult unat_word_ariths unat_of_nat)
  ultimately have or: "unat (c1 OR push_bit 24 (word_of_nat e)) = 2 ^ 24 * e + m"
    using mb(1,2) c1 by (simp add: unat_word_ariths)
  have "GetCompact pn False = Some (c1 OR push_bit 24 (word_of_nat e))"
    using em high mb(2) unfolding GetCompact_def byte_len_def [symmetric] c0_def [symmetric] Let_def
    by (auto simp: c1_def split: if_splits)
  with or show ?thesis by blast
qed


lemma compact_fields:
  assumes "m < 2 ^ 23"
  shows "compact_exp (2 ^ 24 * e + m) = e" "compact_mant (2 ^ 24 * e + m) = m"
proof -
  have "2 ^ 24 * e + m = (2 * e) * 2 ^ 23 + m" by simp
  then show "compact_mant (2 ^ 24 * e + m) = m"
    using assms by (simp only: compact_mant_def mod_mult_self3 mod_less)
  show "compact_exp (2 ^ 24 * e + m) = e" using assms by (simp add: compact_exp_def)
qed

lemma compact_value_parts:
  assumes "length pn = WIDTH" and "compact_parts pn = (e, m)"
  shows "compact_value (2 ^ 24 * e + m) = uval pn - uval pn mod 256 ^ (e - 3)"
proof -
  let ?n = "byte_len pn" and ?v = "uval pn"
  note f = compact_fields [OF compact_parts_bound(1) [OF assms], of e]
  have round: "?v div 256 ^ k * 256 ^ k = ?v - ?v mod 256 ^ k" for k by (rule minus_mod_eq_div_mult [symmetric])
  show ?thesis
  proof (cases "2 ^ 23 \<le> lead3 ?n ?v")
    case False
    then have "e = ?n" "m = lead3 ?n ?v" using assms(2) by (auto simp: compact_parts_def Let_def)
    then show ?thesis unfolding compact_value_def f by (simp add: lead3_def round)
  next
    case True
    then have em: "e = ?n + 1" "m = lead3 ?n ?v div 256"
      using assms(2) by (auto simp: compact_parts_def Let_def)
    consider "?n \<le> 2" | "?n = 3" | "3 < ?n" by linarith
    then show ?thesis
    proof cases
      case 1
      have "256 * 256 ^ (3 - Suc ?n) = (256 :: nat) ^ (3 - ?n)"
        using 1 pow256_split [of 1 "3 - Suc ?n" "3 - ?n"] by simp
      then show ?thesis unfolding compact_value_def f
        using 1 by (simp add: em lead3_def div_mult2_eq [symmetric])
    next
      case 2
      then show ?thesis unfolding compact_value_def f using round [of 1] by (simp add: em lead3_def)
    next
      case 3
      have "256 ^ (?n - 3) * 256 = (256 :: nat) ^ (?n - 2)"
        using 3 pow256_split [of "?n - 3" 1 "?n - 2"] by simp
      then show ?thesis unfolding compact_value_def f
        using 3 round [of "?n - 2"] by (simp add: em lead3_def div_mult2_eq [symmetric])
    qed
  qed
qed

text \<open>A code whose mantissa is normalised is the code of the number it denotes.\<close>

lemma canonical_parts:
  assumes "length pn = WIDTH" and "uval pn * 256 ^ 3 = m * 256 ^ e" and "2 ^ 15 \<le> m" and "m < 2 ^ 23"
  shows "compact_parts pn = (e, m)"
proof (cases "2 ^ 16 \<le> m")
  case True
  let ?v = "uval pn"
  have e: "1 \<le> e"
  proof (rule ccontr)
    assume "\<not> 1 \<le> e"
    then have "?v * 256 ^ 3 = m" using assms(2) by simp
    then show False using assms(3,4) by (cases ?v) auto
  qed
  have "?v * 256 ^ 3 < 256 ^ e * 256 ^ 3" unfolding assms(2) using assms(4) by simp
  then have up: "?v < 256 ^ e" by simp
  have "256 ^ (e - 1) * 256 ^ 3 = 256 ^ 2 * (256 :: nat) ^ e"
    using e by (simp only: power_add [symmetric]) simp
  also have "\<dots> \<le> ?v * 256 ^ 3" unfolding assms(2) using True by simp
  finally have lo: "256 ^ (e - 1) \<le> ?v" by simp
  have n: "byte_len pn = e" using byte_len_eq [OF assms(1) lo up e] .
  have "lead3 e ?v = m"
  proof (cases "e \<le> 3")
    case True
    have "?v * 256 ^ (3 - e) * 256 ^ e = m * 256 ^ e"
      using assms(2) pow256_split [of "3 - e" e 3] True by (simp only: mult.assoc)
    then show ?thesis using True by (simp add: lead3_def)
  next
    case False
    have "?v * 256 ^ 3 = m * 256 ^ (e - 3) * 256 ^ 3"
      using assms(2) pow256_split [of "e - 3" 3 e] False by (simp only: mult.assoc)
    then have "?v = m * 256 ^ (e - 3)" by simp
    then show ?thesis using False by (simp add: lead3_def)
  qed
  then show ?thesis using n assms(4) by (simp add: compact_parts_def)
next
  case False
  let ?v = "uval pn"
  have e: "2 \<le> e"
  proof (rule ccontr)
    assume "\<not> 2 \<le> e"
    then consider "e = 0" | "e = 1" by linarith
    then show False using assms(2,3) False by cases (cases ?v; simp)+
  qed
  have p1: "(256 :: nat) ^ (e - 1) * 256 ^ 3 = 256 ^ 2 * 256 ^ e"
    using e by (simp only: power_add [symmetric]) simp
  have "?v * 256 ^ 3 < 256 ^ (e - 1) * 256 ^ 3" unfolding assms(2) p1 using False by simp
  then have up: "?v < 256 ^ (e - 1)" by simp
  have "256 ^ (e - 1 - 1) * 256 ^ 3 = 256 ^ 1 * (256 :: nat) ^ e"
    using e by (simp only: power_add [symmetric]) simp
  also have "\<dots> \<le> ?v * 256 ^ 3" unfolding assms(2) using assms(3) by simp
  finally have lo: "256 ^ (e - 1 - 1) \<le> ?v" by simp
  have n: "byte_len pn = e - 1" using byte_len_eq [OF assms(1) lo up] e by simp
  have "lead3 (e - 1) ?v = 256 * m"
  proof (cases "e - 1 \<le> 3")
    case True
    have "256 ^ (3 - (e - 1)) * 256 ^ e = (256 :: nat) ^ 4" using True e by (intro pow256_split) simp
    then have "?v * 256 ^ (3 - (e - 1)) * 256 ^ e = 256 * (?v * 256 ^ 3)" by (simp only: mult.assoc) simp
    then have "?v * 256 ^ (3 - (e - 1)) * 256 ^ e = 256 * m * 256 ^ e" unfolding assms(2) by simp
    then show ?thesis using True by (simp add: lead3_def)
  next
    case False
    have "?v * 256 ^ 3 = m * 256 ^ (e - 3) * 256 ^ 3"
      using assms(2) pow256_split [of "e - 3" 3 e] False by (simp only: mult.assoc)
    then have "?v = m * (256 * 256 ^ (e - 1 - 3))" using False pow256_split [of 1 "e - 1 - 3" "e - 3"] by simp
    then show ?thesis using False by (simp add: lead3_def)
  qed
  then show ?thesis using n assms(3,4) e by (simp add: compact_parts_def)
qed

lemma SetCompact_negative: "fst (snd (SetCompact c)) \<longleftrightarrow> compact_value (unat c) \<noteq> 0 \<and> bit c 23"
proof -
  define e where "e = unat (drop_bit 24 c)"
  define w where "w = c AND 0x007fffff"
  have e: "e = compact_exp (unat c)" by (simp add: e_def compact_exp_def unat_drop_u32)
  have w: "unat w = compact_mant (unat c)" unfolding w_def compact_mant_def by (rule unat_and_mant)
  have "fst (snd (SetCompact c)) \<longleftrightarrow>
      (if e \<le> 3 then drop_bit (8 * (3 - e)) w else w) \<noteq> 0 \<and> c AND 0x00800000 \<noteq> 0"
    by (simp only: SetCompact_def Let_def e_def w_def fst_conv snd_conv)
  also have "\<dots> \<longleftrightarrow> unat (if e \<le> 3 then drop_bit (8 * (3 - e)) w else w) \<noteq> 0 \<and> bit c 23"
    by (simp only: sign_bit unat_eq_zero)
  finally show ?thesis
    by (simp add: e w compact_value_def unat_drop_u32 pow256 del: unat_eq_zero)
qed

lemma canonical_sign: "m < 2 ^ 23 \<Longrightarrow> unat c = 2 ^ 24 * e + m \<Longrightarrow> \<not> bit (c :: u32) 23"
proof -
  assume m: "m < 2 ^ 23" and c: "unat c = 2 ^ 24 * e + m"
  have "unat c div 2 ^ 23 = 2 * e" using m by (simp add: c)
  then have "\<not> bit (unat c) 23" by (simp add: bit_iff_odd)
  then show ?thesis by (simp add: bit_unsigned_iff)
qed

lemma compact_exact:
  assumes "compact_parts pn = (e, m)" and "length pn = WIDTH" and "uval pn \<noteq> 0"
  shows "compact_value (2 ^ 24 * e + m) * 256 ^ 3 = m * 256 ^ e"
proof -
  note f = compact_fields [OF compact_parts_bound(1) [OF assms(2,1)], of e]
  show ?thesis
  proof (cases "e \<le> 3")
    case True
    have "compact_value (2 ^ 24 * e + m) = uval pn"
      using compact_value_parts [OF assms(2,1)] True by simp
    moreover have "m = uval pn * 256 ^ (3 - e)"
    proof (cases "2 ^ 23 \<le> lead3 (byte_len pn) (uval pn)")
      case sign: True
      then have em: "e = byte_len pn + 1" "m = lead3 (byte_len pn) (uval pn) div 256"
        using assms(1) by (auto simp: compact_parts_def Let_def)
      then have "lead3 (byte_len pn) (uval pn) = uval pn * 256 ^ (3 - e) * 256"
        using True pow256_split [of "3 - e" 1 "3 - byte_len pn"] by (simp add: lead3_def mult.assoc)
      then show ?thesis using em by simp
    next
      case False
      then show ?thesis using assms(1) True by (auto simp: compact_parts_def Let_def lead3_def)
    qed
    ultimately show ?thesis using True pow256_split [of "3 - e" e 3] by (simp only: mult.assoc)
  next
    case False
    then show ?thesis using pow256_split [of "e - 3" 3 e]
      unfolding compact_value_def f by (simp only: mult.assoc) simp
  qed
qed

lemma compact_precision:
  assumes "length pn = WIDTH" and "compact_parts pn = (e, m)"
  shows "(uval pn - compact_value (2 ^ 24 * e + m)) * 2 ^ 15 \<le> compact_value (2 ^ 24 * e + m)"
proof (cases "e \<le> 3 \<or> uval pn = 0")
  case True
  then have "compact_value (2 ^ 24 * e + m) = uval pn" using compact_value_parts [OF assms] by auto
  then show ?thesis by simp
next
  case False
  note b = compact_parts_bound [OF assms]
  let ?P = "256 ^ (e - 3) :: nat"
  have val: "compact_value (2 ^ 24 * e + m) = m * ?P"
    using False unfolding compact_value_def compact_fields [OF b(1)] by simp
  have "uval pn - compact_value (2 ^ 24 * e + m) = uval pn mod ?P"
    using compact_value_parts [OF assms] by simp
  also have "\<dots> \<le> ?P" by (simp add: less_imp_le)
  finally have "(uval pn - compact_value (2 ^ 24 * e + m)) * 2 ^ 15 \<le> ?P * m"
    using b(3) False by (intro mult_le_mono) simp_all
  then show ?thesis using val by (simp only: mult.commute)
qed

section \<open>Properties\<close>

text \<open>
  C8: \<^verbatim>\<open>SetCompact\<close> yields the denoted number modulo \<open>2 ^ 256\<close>, the overflow flag is set exactly when
  that number does not fit into 256 bits, and the sign flag when the mantissa is not zero and bit 23 is
  set.
\<close>

theorem SetCompact_correct:
  "uval (fst (SetCompact c)) = compact_value (unat c) mod 2 ^ 256 \<and> wf_limbs (fst (SetCompact c)) \<and>
   (snd (snd (SetCompact c)) \<longleftrightarrow> 2 ^ 256 \<le> compact_value (unat c)) \<and>
   (fst (snd (SetCompact c)) \<longleftrightarrow> compact_value (unat c) \<noteq> 0 \<and> bit c 23)"
  using SetCompact_value [of c] SetCompact_overflow [of c] SetCompact_negative [of c]
  by (simp add: wf_limbs_def)

text \<open>
  C9: \<^verbatim>\<open>GetCompact\<close> never fails its assertions, and reading its result back gives a number without sign or
  overflow that is at most the original, misses it by less than one part in \<open>2 ^ 15\<close>, and has the same
  code: encoding is idempotent after one rounding.
\<close>

theorem GetCompact_roundtrip:
  assumes "wf_limbs a"
  shows "\<exists>c v. GetCompact a False = Some c \<and> SetCompact c = (v, False, False) \<and> wf_limbs v \<and>
    uval v \<le> uval a \<and> (uval a - uval v) * 2 ^ 15 \<le> uval v \<and> GetCompact v False = Some c"
proof -
  have a: "length a = WIDTH" using assms by (simp add: wf_limbs_def)
  obtain e m where em: "compact_parts a = (e, m)" by (cases "compact_parts a")
  obtain c where c: "GetCompact a False = Some c" "unat c = 2 ^ 24 * e + m"
    using GetCompact_parts [OF a em] by blast
  define v where "v = fst (SetCompact c)"
  note mb = compact_parts_bound [OF a em]
  have val: "compact_value (unat c) = uval a - uval a mod 256 ^ (e - 3)"
    using compact_value_parts [OF a em] c(2) by simp
  then have "compact_value (unat c) < 2 ^ 256" using uval_bound [of a] a by simp
  then have v: "uval v = compact_value (unat c)" "length v = WIDTH" "SetCompact c = (v, False, False)"
    using SetCompact_value [of c] SetCompact_overflow [of c] SetCompact_negative [of c]
      canonical_sign [OF mb(1) c(2)] by (simp_all add: v_def prod_eq_iff)
  have again: "compact_parts v = (e, m)"
  proof (cases "uval a = 0")
    case True
    then have "uval v = uval a" using v(1) val by simp
    then show ?thesis using uval_inject [of v a] a v(2) em by simp
  next
    case False
    then show ?thesis using mb canonical_parts [of v m e] compact_exact [OF em a] v(1,2) c(2) by simp
  qed
  have "(uval a - uval v) * 2 ^ 15 \<le> uval v"
    using compact_precision [OF a em] v(1) c(2) by simp
  moreover have "GetCompact v False = Some c"
    using GetCompact_parts [OF v(2) again] c(2) by (auto simp: word_unat_eq_iff)
  ultimately show ?thesis using c(1) v val by (auto simp: wf_limbs_def)
qed

theorem GetCompact_roundtrip_witness:
  "\<exists>c v. GetCompact (base_uint_of 0x123456789a) False = Some c \<and> SetCompact c = (v, False, False)"
  using GetCompact_roundtrip [of "base_uint_of 0x123456789a"] by (auto simp: wf_limbs_def)

end
