(* ===== verification/Pow.thy ===== *)
theory Pow
  imports Compact "HOL-Library.Monad_Syntax"
begin

text \<open>
  \<^verbatim>\<open>src/src/pow.cpp\<close>: the difficulty adjustment, the proof-of-work check and the work of a block. A
  \<^verbatim>\<open>CBlockIndex*\<close> is the list of the block and its ancestors, the block first, so that \<^verbatim>\<open>pprev\<close> is the
  tail and \<^verbatim>\<open>NULL\<close> the empty list. The global variables are the record \<open>chain_cfg\<close>. Functions that may
  throw (division by zero in \<^verbatim>\<open>arith_uint256\<close>), fail an \<^verbatim>\<open>assert\<close>, divide an \<^verbatim>\<open>int\<close> by zero or read past one of the
  tables of the last 64 blocks return an option. Signed overflow, undefined in C++, wraps in the model.
\<close>

section \<open>Parameters and blocks\<close>

record block_index =
  nHeight :: int
  nTime :: u32
  nBits :: u32
  nChainWork :: limbs

record pow_params =
  powLimit :: bytes
  powAlternate :: bytes
  nHF22Height :: "u32 option"
  nHF22NotariesPriorityRotateDelta :: u32
  nPowAveragingWindow :: int
  nPowMaxAdjustDown :: int
  nPowMaxAdjustUp :: int
  nPowTargetSpacing :: int
  nMaxFutureBlockTime :: int

record chain_cfg =
  ASSETCHAINS_ALGO :: u32
  ASSETCHAINS_EQUIHASH :: u32
  ASSETCHAINS_BLOCKTIME :: int
  ASSETCHAINS_ADAPTIVEPOW :: int
  ASSETCHAINS_STAKED :: int
  isKMD :: bool
  KOMODO_LOADINGBLOCKS :: bool

definition KOMODO_MINDIFF_NBITS :: u32 where
  "KOMODO_MINDIFF_NBITS = 0x200f0f0f"

definition KOMODO_ELECTION_GAP :: int where
  "KOMODO_ELECTION_GAP = 2000"

definition AveragingWindowTimespan :: "pow_params \<Rightarrow> int" where
  "AveragingWindowTimespan p = to_int64 (nPowAveragingWindow p * nPowTargetSpacing p)"

definition MinActualTimespan :: "pow_params \<Rightarrow> int" where
  "MinActualTimespan p = cdiv (to_int64 (AveragingWindowTimespan p * (100 - nPowMaxAdjustUp p))) 100"

definition MaxActualTimespan :: "pow_params \<Rightarrow> int" where
  "MaxActualTimespan p = cdiv (to_int64 (AveragingWindowTimespan p * (100 + nPowMaxAdjustDown p))) 100"

text \<open>\<^verbatim>\<open>CBlockIndex::GetMedianTimePast\<close>: the median of the last eleven block times.\<close>

definition GetMedianTimePast :: "block_index list \<Rightarrow> int" where
  "GetMedianTimePast pindex =
     (let times = sort (map (\<lambda>b. uint (nTime b)) (take 11 pindex)) in times ! (length times div 2))"

text \<open>An \<^verbatim>\<open>int64_t\<close> given to the constructor \<^verbatim>\<open>arith_uint256(uint64_t)\<close>.\<close>

definition arith_of :: "int \<Rightarrow> limbs" where
  "arith_of x = base_uint_of (word_of_int x)"

definition bn_limit :: "chain_cfg \<Rightarrow> pow_params \<Rightarrow> limbs" where
  "bn_limit cfg p = (if ASSETCHAINS_ALGO cfg = ASSETCHAINS_EQUIHASH cfg
                     then UintToArith256 (powLimit p) else UintToArith256 (powAlternate p))"

text \<open>Integer division in C: dividing by zero does not return.\<close>

definition idiv :: "int \<Rightarrow> int \<Rightarrow> int option" where
  "idiv a b = (if b = 0 then None else Some (cdiv a b))"

definition imod :: "int \<Rightarrow> int \<Rightarrow> int option" where
  "imod a b = (if b = 0 then None else Some (cmod a b))"

text \<open>Reading an array: out of its bounds there is no value.\<close>

definition array_get :: "'a list \<Rightarrow> nat \<Rightarrow> 'a option" where
  "array_get xs i = (if i < length xs then Some (xs ! i) else None)"

lemma array_get_in [simp]: "i < length xs \<Longrightarrow> array_get xs i = Some (xs ! i)"
  by (simp add: array_get_def)

lemma array_get_Some: "array_get xs i = Some x \<longleftrightarrow> i < length xs \<and> xs ! i = x"
  by (auto simp: array_get_def)

section \<open>The adaptive adjustments\<close>

text \<open>The factor \<^verbatim>\<open>K\<close>.\<close>

definition K_scale :: int where
  "K_scale = 1000000"

definition RT_CST_RST_outer ::
  "chain_cfg \<Rightarrow> u32 \<Rightarrow> limbs \<Rightarrow> u32 list \<Rightarrow> limbs list \<Rightarrow> int \<Rightarrow> int \<Rightarrow> nat \<Rightarrow> limbs option" where
  "RT_CST_RST_outer cfg time bnTarget ts ct numerator denominator W = do {
     let T = ASSETCHAINS_BLOCKTIME cfg;
     mintarget \<leftarrow> uint_div bnTarget (arith_of 2);
     cmpval0 \<leftarrow> idiv (to_int32 (T * numerator)) denominator;
     let cmpval = (if cmpval0 < 2 then 2 else cmpval0);
     ts0 \<leftarrow> array_get ts 0;
     tsW \<leftarrow> array_get ts W;
     if ts0 - tsW < word_of_int cmpval
     then do {
       outerK \<leftarrow> idiv (to_int64 (K_scale * uint (time - ts0) * uint (ts0 - tsW) * denominator))
                      (to_int32 (numerator * to_int32 (T * T)));
       t \<leftarrow> (if outerK < K_scale
             then do { ct0 \<leftarrow> array_get ct 0; q \<leftarrow> uint_div ct0 (arith_of K_scale); Some (uint_mul q (arith_of outerK)) }
             else Some bnTarget);
       Some (if 0 < CompareTo t mintarget then mintarget else t)
     }
     else Some bnTarget
   }"

text \<open>The sum \<^verbatim>\<open>ct[0] + .. + ct[width-1]\<close>.\<close>

definition sum_targets :: "limbs list \<Rightarrow> nat \<Rightarrow> limbs option" where
  "sum_targets ct width = foldl (\<lambda>acc i. do { t \<leftarrow> acc; c \<leftarrow> array_get ct i; Some (uint_add t c) }) (array_get ct 0) [1..<width]"

definition RT_CST_RST_target :: "chain_cfg \<Rightarrow> u32 \<Rightarrow> u32 list \<Rightarrow> limbs list \<Rightarrow> nat \<Rightarrow> limbs option" where
  "RT_CST_RST_target cfg time ts ct width = do {
     let T = ASSETCHAINS_BLOCKTIME cfg;
     total \<leftarrow> sum_targets ct width;
     q \<leftarrow> uint_div total (arith_of (int width * K_scale));
     ts0 \<leftarrow> array_get ts 0;
     tsw \<leftarrow> array_get ts width;
     innerK \<leftarrow> idiv (to_int64 (K_scale * uint (time - ts0) * uint (ts0 - tsw)))
                    (to_int32 (to_int32 (int width * T) * T));
     Some (uint_mul q (arith_of innerK))
   }"

definition RT_CST_RST_inner ::
  "chain_cfg \<Rightarrow> u32 \<Rightarrow> limbs \<Rightarrow> u32 list \<Rightarrow> limbs list \<Rightarrow> nat \<Rightarrow> nat \<Rightarrow> limbs option" where
  "RT_CST_RST_inner cfg time bnTarget ts ct W outeri = do {
     let width = outeri + W;
     let expected = to_int32 ((int width + 1) * ASSETCHAINS_BLOCKTIME cfg);
     ts0 \<leftarrow> array_get ts 0;
     tsw \<leftarrow> array_get ts width;
     let elapsed = sint (ts0 - tsw);
     if elapsed < expected
     then do {
       q \<leftarrow> uint_div bnTarget (arith_of 101);
       let mintarget = uint_mul q (arith_of 100);
       t \<leftarrow> RT_CST_RST_target cfg time ts ct W;
       Some (if t = bnTarget then mintarget else t)
     }
     else Some bnTarget
   }"

definition zawy_targetMA :: "chain_cfg \<Rightarrow> limbs \<Rightarrow> limbs \<Rightarrow> int \<Rightarrow> int \<Rightarrow> int \<Rightarrow> limbs option" where
  "zawy_targetMA cfg easy bnSum num numerator divisor = do {
     q \<leftarrow> uint_div bnSum (arith_of (to_int32 (to_int32 (to_int32 (ASSETCHAINS_BLOCKTIME cfg * num) * num) * divisor)));
     let t = uint_mul q (arith_of numerator);
     Some (if 0 < CompareTo t easy then easy else t)
   }"

definition zawy_exponential_val360000 :: "chain_cfg \<Rightarrow> int \<Rightarrow> int option" where
  "zawy_exponential_val360000 cfg num = do {
     let T = ASSETCHAINS_BLOCKTIME cfg;
     n \<leftarrow> idiv num T;
     let A = ((\<lambda>a. to_int64 (a * 3)) ^^ nat n) 1;
     modval \<leftarrow> imod num T;
     B \<leftarrow> (if modval \<noteq> 0
           then do {
             b1 \<leftarrow> idiv (to_int32 (3600 * 110 * modval)) T;
             b2 \<leftarrow> idiv (to_int32 (to_int32 (3600 * 60 * modval) * modval)) (to_int32 (T * T));
             Some (3600 * 100 + b1 + b2)
           }
           else Some (3600 * 100));
     Some (to_int64 (A * B))
   }"

definition zawy_exponential :: "chain_cfg \<Rightarrow> limbs \<Rightarrow> int \<Rightarrow> limbs option" where
  "zawy_exponential cfg bnTarget mult = do {
     q \<leftarrow> uint_div bnTarget (arith_of (100 * 3600));
     v \<leftarrow> zawy_exponential_val360000 cfg mult;
     Some (uint_mul q (arith_of v))
   }"

definition zawy_ctB :: "chain_cfg \<Rightarrow> limbs \<Rightarrow> u32 \<Rightarrow> limbs option" where
  "zawy_ctB cfg bnTarget solvetime = do {
     let T = ASSETCHAINS_BLOCKTIME cfg;
     num \<leftarrow> idiv (to_int64 (1000 * uint solvetime * uint solvetime * 1000)) (to_int32 (to_int32 (T * T) * 784));
     if 1 < num
     then do { q \<leftarrow> uint_div bnTarget (arith_of 1000); Some (uint_mul q (arith_of num)) }
     else Some bnTarget
   }"

definition zawy_TSA_EMA :: "chain_cfg \<Rightarrow> int \<Rightarrow> limbs \<Rightarrow> limbs option" where
  "zawy_TSA_EMA cfg tipdiff0 prevTarget = do {
     let T = ASSETCHAINS_BLOCKTIME cfg;
     let tipdiff1 = (if tipdiff0 < 4 then 4 else tipdiff0);
     let tipdiff = tipdiff1 - tipdiff1 mod 2;
     t \<leftarrow> uint_div prevTarget (arith_of (to_int64 (K_scale * T)));
     let A = uint_mul t (arith_of T);
     v \<leftarrow> zawy_exponential_val360000 cfg (cdiv tipdiff 2);
     u \<leftarrow> uint_div t (arith_of 360000);
     let B = uint_mul u (arith_of (to_int64 (tipdiff * v)));
     let C = uint_mul u (arith_of (to_int64 (T * v)));
     q \<leftarrow> uint_div (uint_sub (uint_add A B) C) (arith_of tipdiff);
     Some (uint_mul q (arith_of (to_int64 (K_scale * T))))
   }"

section \<open>The next work\<close>

definition clamp_timespan :: "chain_cfg \<Rightarrow> pow_params \<Rightarrow> int \<Rightarrow> int" where
  "clamp_timespan cfg p span =
     (if ASSETCHAINS_ADAPTIVEPOW cfg \<le> 0
      then let s1 = (if span < MinActualTimespan p then MinActualTimespan p else span)
           in if MaxActualTimespan p < s1 then MaxActualTimespan p else s1
      else span)"

text \<open>
  \<^verbatim>\<open>CalculateNextWorkRequired\<close>. The product with the \<^verbatim>\<open>int64_t\<close> time span resolves to
  \<^verbatim>\<open>operator*=(uint32_t)\<close>, which takes its low 32 bits.
\<close>

definition CalculateNextWorkRequired :: "chain_cfg \<Rightarrow> pow_params \<Rightarrow> limbs \<Rightarrow> int \<Rightarrow> int \<Rightarrow> u32 option" where
  "CalculateNextWorkRequired cfg p bnAvg nLastBlockTime nFirstBlockTime = do {
     let A = AveragingWindowTimespan p;
     let span0 = to_int64 (nLastBlockTime - nFirstBlockTime);
     let span1 = to_int64 (A + cdiv (to_int64 (span0 - A)) 4);
     let span = clamp_timespan cfg p span1;
     q \<leftarrow> uint_div bnAvg (arith_of A);
     let bnNew = uint_mul32 q (word_of_int span);
     let bnPowLimit = bn_limit cfg p;
     GetCompact (if 0 < CompareTo bnNew bnPowLimit then bnPowLimit else bnNew) False
   }"

text \<open>
  \<^verbatim>\<open>GetNextWorkRequired\<close>, in the order of the source. The tables \<^verbatim>\<open>zflags\<close>, \<^verbatim>\<open>ct\<close> and \<^verbatim>\<open>ts\<close> of the last 64
  blocks are filled only with adaptive proof of work and stay zero otherwise.
\<close>

record zawy_tables =
  zflags :: "int list"
  ct :: "limbs list"
  ts :: "u32 list"

definition empty_tables :: zawy_tables where
  "empty_tables = \<lparr>zflags = replicate 64 0, ct = replicate 64 base_uint_zero, ts = replicate 64 0\<rparr>"

definition read_tables :: "block_index list \<Rightarrow> zawy_tables" where
  "read_tables chain =
     (let bs = take 64 chain; n = 64 - length bs
      in \<lparr>zflags = map (\<lambda>b. uint (nBits b AND 3)) bs @ replicate n 0,
          ct = map (\<lambda>b. fst (SetCompact (nBits b))) bs @ replicate n base_uint_zero,
          ts = map nTime bs @ replicate n 0\<rparr>)"

text \<open>The second loop over the tables, which runs only when there are more than 64 blocks.\<close>

primrec adjust_ct :: "chain_cfg \<Rightarrow> nat \<Rightarrow> nat \<Rightarrow> zawy_tables \<Rightarrow> zawy_tables option" where
  "adjust_ct cfg i 0 z = Some z"
| "adjust_ct cfg i (Suc n) z =
     do {
       flag \<leftarrow> array_get (zflags z) i;
       if flag = 1 \<or> flag = 2
       then do {
         ct_i \<leftarrow> array_get (ct z) i;
         ts_i \<leftarrow> array_get (ts z) i;
         ts_next \<leftarrow> array_get (ts z) (i + 1);
         c \<leftarrow> zawy_ctB cfg ct_i (ts_i - ts_next);
         adjust_ct cfg (Suc i) n (z\<lparr>ct := (ct z)[i := c]\<rparr>)
       }
       else adjust_ct cfg (Suc i) n z
     }"

text \<open>
  The loop over the averaging window: what is left of the chain, the new \<^verbatim>\<open>mult\<close> and the sum of the
  targets.
\<close>

primrec window_loop ::
  "chain_cfg \<Rightarrow> u32 option \<Rightarrow> int list \<Rightarrow> nat \<Rightarrow> nat \<Rightarrow> block_index list \<Rightarrow> int \<Rightarrow> limbs \<Rightarrow>
   (block_index list \<times> int \<times> limbs) option" where
  "window_loop cfg pblock zf i 0 chain mult bnTot = Some (chain, mult, bnTot)"
| "window_loop cfg pblock zf i (Suc n) chain mult bnTot =
     (case chain of
        [] \<Rightarrow> Some ([], mult, bnTot)
      | b # bs \<Rightarrow>
          let bnTmp = fst (SetCompact (nBits b))
          in case (if 0 < ASSETCHAINS_ADAPTIVEPOW cfg then pblock else None) of
               None \<Rightarrow> window_loop cfg pblock zf (Suc i) n bs mult (uint_add bnTot bnTmp)
             | Some time \<Rightarrow>
                 let diff0 = sint (time - nTime b);
                     diff = to_int32 (diff0 - to_int32 ((8 + int i) * ASSETCHAINS_BLOCKTIME cfg));
                     mult' = (if i < 6 \<and> mult < diff then diff else mult)
                 in do {
                      flag \<leftarrow> array_get zf i;
                      flag0 \<leftarrow> array_get zf 0;
                      t \<leftarrow> (if flag \<noteq> 0 \<and> flag0 = 0
                            then do { q \<leftarrow> uint_div bnTmp (arith_of 8); Some (uint_mul q (arith_of 7)) }
                            else Some bnTmp);
                      window_loop cfg pblock zf (Suc i) n bs mult' (uint_add bnTot t)
                    })"

text \<open>The cascade of outer triggers: the first that lowers the target wins.\<close>

primrec outer_cascade ::
  "chain_cfg \<Rightarrow> u32 \<Rightarrow> zawy_tables \<Rightarrow> limbs \<Rightarrow> (int \<times> int \<times> nat) list \<Rightarrow> limbs \<Rightarrow> (limbs \<times> int) option" where
  "outer_cascade cfg time z orig [] t = Some (t, if CompareTo t orig < 0 then 2 else 0)"
| "outer_cascade cfg time z orig (c # cs) t =
     (if CompareTo t orig < 0 then Some (t, 2)
      else case c of (numerator, denominator, W) \<Rightarrow> do {
             t' \<leftarrow> RT_CST_RST_outer cfg time orig (ts z) (ct z) numerator denominator W;
             outer_cascade cfg time z orig cs t' })"

definition outer_adjust :: "chain_cfg \<Rightarrow> u32 \<Rightarrow> zawy_tables \<Rightarrow> limbs \<Rightarrow> (limbs \<times> int) option" where
  "outer_adjust cfg time z bnTarget = do {
     let T = ASSETCHAINS_BLOCKTIME cfg;
     t \<leftarrow> (if 60 \<le> T \<and> T < 100 then RT_CST_RST_outer cfg time bnTarget (ts z) (ct z) 1 60 1
           else if 100 \<le> T then RT_CST_RST_outer cfg time bnTarget (ts z) (ct z) 1 100 1
           else Some bnTarget);
     outer_cascade cfg time z bnTarget [(15, 100, 2), (1, 2, 3), (7, 3, 6), (12, 7, 12)] t
   }"

text \<open>The loop for the block of the last outer trigger: its index, or the bound when there is none among the \<open>n\<close> blocks from \<open>i\<close> on.\<close>

primrec last_outer :: "int list \<Rightarrow> nat \<Rightarrow> nat \<Rightarrow> nat option" where
  "last_outer zf i 0 = Some i"
| "last_outer zf i (Suc n) = do { flag \<leftarrow> array_get zf i; if flag = 2 then Some i else last_outer zf (Suc i) n }"

text \<open>The cascade of inner adjustments, from that block on.\<close>

primrec inner_cascade ::
  "chain_cfg \<Rightarrow> u32 \<Rightarrow> zawy_tables \<Rightarrow> nat \<Rightarrow> (nat \<times> nat) list \<Rightarrow> limbs \<Rightarrow> limbs option" where
  "inner_cascade cfg time z i [] t = Some t"
| "inner_cascade cfg time z i (c # cs) t =
     (case c of (bound, W) \<Rightarrow>
        if i < bound
        then do { t' \<leftarrow> RT_CST_RST_inner cfg time t (ts z) (ct z) W i;
                  inner_cascade cfg time z i cs (if CompareTo t' t < 0 then t' else t) }
        else inner_cascade cfg time z i cs t)"

definition inner_adjust :: "chain_cfg \<Rightarrow> u32 \<Rightarrow> zawy_tables \<Rightarrow> limbs \<Rightarrow> (limbs \<times> int) option" where
  "inner_adjust cfg time z bnTarget = do {
     i \<leftarrow> last_outer (zflags z) 0 50;
     t1 \<leftarrow> (if i < 10
            then do { t \<leftarrow> RT_CST_RST_inner cfg time bnTarget (ts z) (ct z) 1 i;
                      Some (if 0 < CompareTo t bnTarget then bnTarget else t) }
            else Some bnTarget);
     t \<leftarrow> inner_cascade cfg time z i [(20, 2), (30, 3), (40, 6), (50, 12)] t1;
     Some (t, if t \<noteq> bnTarget then 1 else 0)
   }"

text \<open>The last part: the adjustments of the target that \<^verbatim>\<open>CalculateNextWorkRequired\<close> gave.\<close>

definition adaptive_adjust ::
  "chain_cfg \<Rightarrow> int \<Rightarrow> int \<Rightarrow> int \<Rightarrow> u32 option \<Rightarrow> zawy_tables \<Rightarrow> u32 \<Rightarrow> u32 option" where
  "adaptive_adjust cfg height tipdiff mult pblock z nbits = do {
     let bnTarget = fst (SetCompact nbits);
     let finish = (\<lambda>t flag. do { n \<leftarrow> GetCompact t False; Some ((n AND 0xfffffffc) OR word_of_int flag) });
     case (if 64 < height \<and> 0 < tipdiff then pblock else None) of
       None \<Rightarrow> finish bnTarget 0
     | Some time \<Rightarrow> do {
         let easy_bits = KOMODO_MINDIFF_NBITS AND NOT 3;
         let easy = fst (SetCompact easy_bits);
         flag0 \<leftarrow> array_get (zflags z) 0;
         (t, flag) \<leftarrow> (if flag0 = 0 \<or> flag0 = 3
                       then outer_adjust cfg time z bnTarget else inner_adjust cfg time z bnTarget);
         if 1 < mult
         then do {
           t' \<leftarrow> zawy_exponential cfg t mult;
           if CompareTo t' t < 0 \<or> 0 < CompareTo t' easy then Some easy_bits else finish t' flag
         }
         else finish t flag
       }
   }"

definition GetNextWorkRequired ::
  "chain_cfg \<Rightarrow> pow_params \<Rightarrow> block_index list \<Rightarrow> u32 option \<Rightarrow> u32 option" where
  "GetNextWorkRequired cfg p pindexLast pblock = do {
     nProofOfWorkLimit \<leftarrow> GetCompact (bn_limit cfg p) False;
     case pindexLast of
       [] \<Rightarrow> Some nProofOfWorkLimit
     | tip # _ \<Rightarrow> do {
         let height = to_int32 (nHeight tip + 1);
         let window = nat (nPowAveragingWindow p);
         let adaptive = (if 0 < ASSETCHAINS_ADAPTIVEPOW cfg \<and> 64 \<le> height then pblock else None);
         let tipdiff = (case adaptive of None \<Rightarrow> 0 | Some time \<Rightarrow> sint (time - nTime tip));
         let mult0 = (case adaptive of None \<Rightarrow> 0
                      | Some _ \<Rightarrow> to_int32 (tipdiff - to_int32 (7 * ASSETCHAINS_BLOCKTIME cfg)));
         z \<leftarrow> (if adaptive = None then Some empty_tables
               else if 64 < length pindexLast then adjust_ct cfg 0 63 (read_tables pindexLast)
               else Some (read_tables pindexLast));
         if adaptive \<noteq> None \<and> ASSETCHAINS_ADAPTIVEPOW cfg = 2
         then do {
           ct0 \<leftarrow> array_get (ct z) 0;
           t \<leftarrow> zawy_TSA_EMA cfg tipdiff ct0;
           n \<leftarrow> GetCompact t False;
           Some ((n AND 0xfffffffc) OR 0)
         }
         else do {
           (pindexFirst, mult, bnTot) \<leftarrow> window_loop cfg pblock (zflags z) 0 window pindexLast mult0 base_uint_zero;
           if pindexFirst = [] then Some nProofOfWorkLimit
           else do {
             bnAvg \<leftarrow> uint_div bnTot (arith_of (nPowAveragingWindow p));
             nbits \<leftarrow> CalculateNextWorkRequired cfg p bnAvg
                        (GetMedianTimePast pindexLast) (GetMedianTimePast pindexFirst);
             if 0 < ASSETCHAINS_ADAPTIVEPOW cfg
             then adaptive_adjust cfg height tipdiff mult pblock z nbits
             else Some nbits
           }
         }
       }
   }"

section \<open>The proof-of-work check\<close>

definition isSecondBlockAllowed :: "int \<Rightarrow> u32 \<Rightarrow> u32 \<Rightarrow> u32 \<Rightarrow> int list \<Rightarrow> bool" where
  "isSecondBlockAllowed notaryid blocktime threshold delta vPriorityList =
     (if threshold \<le> blocktime \<and> 0 < delta \<and> length vPriorityList = 64 \<and> 0 \<le> notaryid
      then let nPos = unat (blocktime - threshold) div unat delta
           in if nPos < length vPriorityList
              then 0 < length (filter (\<lambda>x. x = notaryid) (take (nPos + 1) vPriorityList))
              else True
      else False)"

text \<open>\<^verbatim>\<open>std::rotate(it, std::next(it), end)\<close> at the first occurrence of \<open>m\<close>, unless that is the last element.\<close>

definition move_to_end :: "int \<Rightarrow> int list \<Rightarrow> int list" where
  "move_to_end m l =
     (case dropWhile (\<lambda>x. x \<noteq> m) l of
        x # y # ys \<Rightarrow> takeWhile (\<lambda>x. x \<noteq> m) l @ (y # ys) @ [x]
      | _ \<Rightarrow> l)"

text \<open>The notaries \<open>0..63\<close>, those of the blocks \<open>65..1\<close> back moved to the end in that order.\<close>

definition priority_list :: "int list \<Rightarrow> int list" where
  "priority_list mids =
     foldl (\<lambda>l i. if mids ! i \<noteq> - 1 then move_to_end (mids ! i) l else l) (map int [0..<64]) (rev [1..<66])"

text \<open>
  What the check asks the notary code: \<^verbatim>\<open>komodo_chainactive_timestamp\<close>, \<^verbatim>\<open>komodo_currentheight\<close>,
  \<^verbatim>\<open>komodo_chosennotary\<close> (its result and \<^verbatim>\<open>*notaryidp\<close>), \<^verbatim>\<open>komodo_eligiblenotary\<close> (its result and the arrays
  \<^verbatim>\<open>mids\<close> and \<^verbatim>\<open>blocktimes\<close> it fills) and \<^verbatim>\<open>komodo_is_special\<close>.
\<close>

record notary_env =
  chainactive_timestamp :: u32
  currentheight :: int
  chosennotary :: "int \<Rightarrow> bytes \<Rightarrow> u32 \<Rightarrow> int \<times> int"
  eligiblenotary :: "int \<Rightarrow> int \<times> int list \<times> u32 list"
  is_special :: "int list \<Rightarrow> u32 list \<Rightarrow> int \<Rightarrow> bytes \<Rightarrow> u32 \<Rightarrow> int"

record pow_header =
  hdr_nTime :: u32
  hdr_nBits :: u32
  hdr_hash :: bytes

text \<open>The value of \<^verbatim>\<open>flag\<close> for a notary.\<close>

definition notary_flag :: "int \<Rightarrow> int \<Rightarrow> int \<Rightarrow> int \<Rightarrow> int" where
  "notary_flag height special special2 flag =
     (if 10000 < height \<and> height < 80000 \<and> (special \<noteq> 0 \<or> 0 < special2) then 1
      else if 80000 \<le> height \<and> height < 108000 \<and> 0 < special2 then 1
      else if 108000 \<le> height \<and> 0 < special2
      then (if 1000000 < height \<or> 64 < cmod height KOMODO_ELECTION_GAP \<or> cmod height KOMODO_ELECTION_GAP = 0
            then 1 else 0)
      else if height = 790833 then 1
      else if special2 < 0 then (if 792000 < height then 0 else flag)
      else flag)"

text \<open>The hard fork that lets notaries mine a second block after a gap: the new \<^verbatim>\<open>special2\<close>.\<close>

definition hf22_special2 ::
  "chain_cfg \<Rightarrow> pow_params \<Rightarrow> int \<Rightarrow> u32 \<Rightarrow> u32 \<Rightarrow> int \<Rightarrow> int list \<Rightarrow> u32 list \<Rightarrow> int \<Rightarrow> int" where
  "hf22_special2 cfg p height blocktime tiptime notaryid mids blocktimes special2 =
     (case nHF22Height p of
        None \<Rightarrow> special2
      | Some hf \<Rightarrow>
          let nMaxGAPAllowed = word_of_int (nMaxFutureBlockTime p + 1)
          in if isKMD cfg \<and> hf < word_of_int height \<and> tiptime + nMaxGAPAllowed \<le> blocktime \<and>
                tiptime = blocktimes ! 1 \<and> (special2 = - 1 \<or> special2 = 1) \<and>
                isSecondBlockAllowed notaryid blocktime (tiptime + nMaxGAPAllowed)
                  (nHF22NotariesPriorityRotateDelta p) (priority_list mids)
             then 2 else special2)"

text \<open>
  The notary part: \<^const>\<open>None\<close> when the check ends there with \<^verbatim>\<open>true\<close> because the public key is null,
  otherwise whether the block may use the minimum difficulty.
\<close>

definition notary_easy ::
  "chain_cfg \<Rightarrow> pow_params \<Rightarrow> notary_env \<Rightarrow> pow_header \<Rightarrow> bytes \<Rightarrow> int \<Rightarrow> bool option" where
  "notary_easy cfg p env hdr pubkey33 height =
     (if 34000 < height \<and> isKMD cfg
      then let tiptime = chainactive_timestamp env;
               (special, notaryid) = chosennotary env height pubkey33 tiptime
           in if length (filter (\<lambda>b. b \<noteq> 0) (take 33 pubkey33)) = 0 then None
              else let (flag0, mids, blocktimes) = eligiblenotary env height;
                       special2_0 = is_special env mids blocktimes height pubkey33 (hdr_nTime hdr)
                   in if 0 \<le> notaryid
                      then let flag = notary_flag height special special2_0 flag0;
                               special2 = hf22_special2 cfg p height (hdr_nTime hdr) tiptime notaryid
                                            mids blocktimes special2_0
                           in Some ((flag \<noteq> 0 \<or> 0 < special2) \<and> special2 \<noteq> - 2)
                      else Some False
      else Some False)"

definition CheckProofOfWork ::
  "chain_cfg \<Rightarrow> pow_params \<Rightarrow> notary_env \<Rightarrow> pow_header \<Rightarrow> bytes \<Rightarrow> int \<Rightarrow> bool" where
  "CheckProofOfWork cfg p env hdr pubkey33 height0 =
     (let height = (if height0 = 0 then to_int32 (currentheight env + 1) else height0)
      in case notary_easy cfg p env hdr pubkey33 height of
           None \<Rightarrow> True
         | Some easy \<Rightarrow>
             let (bnTarget, fNegative, fOverflow) =
                   (if easy then SetCompact KOMODO_MINDIFF_NBITS else SetCompact (hdr_nBits hdr));
                 bnLimit = (if height \<le> 1 \<or> ASSETCHAINS_ALGO cfg = ASSETCHAINS_EQUIHASH cfg
                            then UintToArith256 (powLimit p) else UintToArith256 (powAlternate p))
             in if fNegative \<or> EqualTo bnTarget 0 \<or> fOverflow \<or> 0 < CompareTo bnTarget bnLimit then False
                else let bnTarget' = (if ASSETCHAINS_STAKED cfg \<noteq> 0 then fst (SetCompact KOMODO_MINDIFF_NBITS)
                                      else bnTarget)
                     in if 0 < CompareTo (UintToArith256 (hdr_hash hdr)) bnTarget'
                        then (if KOMODO_LOADINGBLOCKS cfg then True
                              else if \<not> isKMD cfg \<or> 792000 < height then False else True)
                        else True)"

section \<open>Work\<close>

definition GetBlockProof :: "block_index \<Rightarrow> limbs option" where
  "GetBlockProof block =
     (let (bnTarget, fNegative, fOverflow) = SetCompact (nBits block)
      in if fNegative \<or> fOverflow \<or> EqualTo bnTarget 0 then Some (base_uint_of 0)
         else do {
           q \<leftarrow> uint_div (uint_compl bnTarget) (uint_add bnTarget (base_uint_of 1));
           Some (uint_add q (base_uint_of 1))
         })"

definition GetBlockProofEquivalentTime ::
  "block_index \<Rightarrow> block_index \<Rightarrow> block_index \<Rightarrow> pow_params \<Rightarrow> int option" where
  "GetBlockProofEquivalentTime to from tip p = do {
     let (r0, sign) = (if 0 < CompareTo (nChainWork to) (nChainWork from)
                       then (uint_sub (nChainWork to) (nChainWork from), 1)
                       else (uint_sub (nChainWork from) (nChainWork to), - 1 :: int));
     proof_tip \<leftarrow> GetBlockProof tip;
     r \<leftarrow> uint_div (uint_mul r0 (arith_of (nPowTargetSpacing p))) proof_tip;
     Some (if 63 < uint_bits r then sign * (2 ^ 63 - 1)
           else to_int64 (sign * uint (GetLow64 r)))
   }"

section \<open>Work\<close>

context uint_arith
begin

text \<open>The identity in the comment of \<^verbatim>\<open>GetBlockProof\<close>, from the laws of the arithmetic.\<close>

lemma block_proof:
  assumes t: "wf t" and pos: "0 < val t" and small: "val t + 1 < 2 ^ 256"
  shows "\<exists>q. dv (compl t) (add t (of64 1)) = Some q \<and> wf (add q (of64 1)) \<and>
             val (add q (of64 1)) = 2 ^ 256 div (val t + 1)"
proof -
  have one: "wf (of64 1)" "val (of64 1) = 1" using val_of64 [of 1] by simp_all
  have inc: "wf (add t (of64 1))" "val (add t (of64 1)) = val t + 1"
    using val_add [OF t one(1)] small by (simp_all add: one(2))
  have cp: "wf (compl t)" "val (compl t) = 2 ^ 256 - 1 - val t" using val_compl [OF t] by simp_all
  obtain q where q: "dv (compl t) (add t (of64 1)) = Some q" "wf q"
    "val q = (2 ^ 256 - 1 - val t) div (val t + 1)"
    using val_dv [OF cp(1) inc(1)] by (auto simp: inc(2) cp(2))
  have "2 ^ 256 = (2 ^ 256 - 1 - val t) + (val t + 1)" using small by simp
  then have "2 ^ 256 div (val t + 1) = ((2 ^ 256 - 1 - val t) + (val t + 1)) div (val t + 1)" by (simp only:)
  also have "\<dots> = val q + 1" unfolding q(3) by (rule div_add_self2) simp
  finally have sum: "2 ^ 256 div (val t + 1) = val q + 1" .
  have "2 ^ 256 div (val t + 1) \<le> 2 ^ 256 div 2" using pos by (intro div_le_mono2) simp_all
  then have "val q + 1 < 2 ^ 256" unfolding sum by simp
  then have "wf (add q (of64 1))" "val (add q (of64 1)) = val q + 1"
    using val_add [OF q(2) one(1)] by (simp_all add: one(2))
  with q(1) sum show ?thesis by auto
qed

end

text \<open>A target read from \<^verbatim>\<open>nBits\<close> never has all bits set, so adding one does not wrap.\<close>

lemma compact_not_max: "compact_value c < 2 ^ 256 \<Longrightarrow> compact_value c + 1 < 2 ^ 256"
proof (cases "compact_exp c \<le> 3")
  case True
  have "compact_value c \<le> compact_mant c" using True by (simp add: compact_value_def)
  moreover have "compact_mant c < 2 ^ 23" by (simp add: compact_mant_def)
  ultimately show ?thesis by simp
next
  case False
  assume lt: "compact_value c < 2 ^ 256"
  have "256 dvd compact_value c"
    using False by (simp add: compact_value_def dvd_power)
  moreover have "\<not> 256 dvd (2 ^ 256 - 1 :: nat)" by simp
  ultimately have "compact_value c \<noteq> 2 ^ 256 - 1" by metis
  with lt show ?thesis by linarith
qed

definition valid_bits :: "u32 \<Rightarrow> bool" where
  "valid_bits c \<longleftrightarrow> \<not> bit c 23 \<and> 0 < compact_value (unat c) \<and> compact_value (unat c) < 2 ^ 256"

lemma SetCompact_cases:
  obtains v neg ovf where "SetCompact c = (v, neg, ovf)" and "wf_limbs v"
    and "uval v = compact_value (unat c) mod 2 ^ 256"
    and "ovf \<longleftrightarrow> 2 ^ 256 \<le> compact_value (unat c)"
    and "neg \<longleftrightarrow> compact_value (unat c) \<noteq> 0 \<and> bit c 23"
  using SetCompact_value [of c] SetCompact_overflow [of c] SetCompact_negative [of c]
  by (cases "SetCompact c") (auto simp: wf_limbs_def)

lemma valid_bits_flags:
  assumes "SetCompact c = (v, neg, ovf)"
  shows "\<not> (neg \<or> ovf \<or> EqualTo v 0) \<longleftrightarrow> valid_bits c"
    and "valid_bits c \<Longrightarrow> uval v = compact_value (unat c)"
    and "wf_limbs v"
proof -
  obtain v' n' o' where s: "SetCompact c = (v', n', o')" "wf_limbs v'"
    "uval v' = compact_value (unat c) mod 2 ^ 256" "o' \<longleftrightarrow> 2 ^ 256 \<le> compact_value (unat c)"
    "n' \<longleftrightarrow> compact_value (unat c) \<noteq> 0 \<and> bit c 23" by (rule SetCompact_cases)
  then have v: "v = v'" "neg = n'" "ovf = o'" using assms by simp_all
  have l: "length v = WIDTH" using s(2) v by (simp add: wf_limbs_def)
  show "\<not> (neg \<or> ovf \<or> EqualTo v 0) \<longleftrightarrow> valid_bits c"
    using s(3-5) unfolding v valid_bits_def EqualTo_uval [OF l [unfolded v]]
    by (cases "2 ^ 256 \<le> compact_value (unat c)") auto
  show "uval v = compact_value (unat c)" if "valid_bits c" using that s(3) v by (simp add: valid_bits_def)
  show "wf_limbs v" using s(2) v by simp
qed

lemma GetBlockProof_work:
  "\<exists>w. GetBlockProof b = Some w \<and> wf_limbs w \<and>
       uval w = (if valid_bits (nBits b) then 2 ^ 256 div (compact_value (unat (nBits b)) + 1) else 0)"
proof -
  obtain v neg ovf where s: "SetCompact (nBits b) = (v, neg, ovf)" by (cases "SetCompact (nBits b)")
  note v = valid_bits_flags [OF s]
  show ?thesis
  proof (cases "valid_bits (nBits b)")
    case True
    then have "0 < uval v" "uval v + 1 < 2 ^ 256"
      using v(2) compact_not_max [of "unat (nBits b)"] by (simp_all add: valid_bits_def)
    from arith256.block_proof [OF v(3) this] True v(1,2) s show ?thesis
      by (auto simp: GetBlockProof_def)
  next
    case False
    then show ?thesis using v(1) s by (auto simp: GetBlockProof_def wf_limbs_def)
  qed
qed

lemma arith_of_nonneg: "0 \<le> x \<Longrightarrow> x < 2 ^ 64 \<Longrightarrow> uval (arith_of x) = nat x"
  by (simp add: arith_of_def unat_eq_nat_uint uint_word_of_int)

lemma wf_arith_of [simp]: "wf_limbs (arith_of x)"
  by (simp add: arith_of_def wf_limbs_def)

lemma GetCompact_decode:
  assumes "wf_limbs a"
  obtains c v where "GetCompact a False = Some c" and "SetCompact c = (v, False, False)"
    and "wf_limbs v" and "uval v \<le> uval a" and "(uval a - uval v) * 2 ^ 15 \<le> uval v"
proof -
  have a: "length a = WIDTH" using assms by (simp add: wf_limbs_def)
  obtain e m where em: "compact_parts a = (e, m)" by (cases "compact_parts a")
  obtain c where c: "GetCompact a False = Some c" "unat c = 2 ^ 24 * e + m"
    using GetCompact_parts [OF a em] by blast
  have val: "compact_value (unat c) = uval a - uval a mod 256 ^ (e - 3)"
    using compact_value_parts [OF a em] c(2) by simp
  then have lt: "compact_value (unat c) < 2 ^ 256" using uval_bound [of a] a by simp
  obtain v neg ovf where s: "SetCompact c = (v, neg, ovf)" "wf_limbs v"
    "uval v = compact_value (unat c) mod 2 ^ 256" "ovf \<longleftrightarrow> 2 ^ 256 \<le> compact_value (unat c)"
    "neg \<longleftrightarrow> compact_value (unat c) \<noteq> 0 \<and> bit c 23" by (rule SetCompact_cases)
  show ?thesis
  proof (rule that [OF c(1), of v])
    show "SetCompact c = (v, False, False)"
      using s lt canonical_sign [OF compact_parts_bound(1) [OF a em] c(2)] by simp
    show "wf_limbs v" by (rule s)
    show "uval v \<le> uval a" using s(3) lt val by simp
    show "(uval a - uval v) * 2 ^ 15 \<le> uval v"
      using compact_precision [OF a em] s(3) lt c(2) by simp
  qed
qed

section \<open>The retargeting step\<close>

lemma wf_bn_limit [simp]: "wf_limbs (bn_limit cfg p)"
  by (simp add: bn_limit_def wf_limbs_def)

lemma cap_at:
  assumes "wf_limbs x" and "wf_limbs l"
  defines "r \<equiv> if 0 < CompareTo x l then l else x"
  shows "wf_limbs r" and "uval r = min (uval x) (uval l)"
  using assms arith256.val_cmp [OF assms(1,2)] by (auto simp: r_def min_def)

lemma CalculateNextWorkRequired_some:
  assumes "wf_limbs bnAvg" and "word_of_int (AveragingWindowTimespan p) \<noteq> (0 :: u64)"
  shows "\<exists>r. CalculateNextWorkRequired cfg p bnAvg l f = GetCompact r False \<and> wf_limbs r \<and>
    uval r \<le> uval (bn_limit cfg p)"
proof -
  have "uval (arith_of (AveragingWindowTimespan p)) \<noteq> 0"
    using assms(2) by (simp add: arith_of_def unat_eq_zero)
  then obtain q where q: "uint_div bnAvg (arith_of (AveragingWindowTimespan p)) = Some q" "wf_limbs q"
    using arith256.val_dv [OF assms(1) wf_arith_of, of "AveragingWindowTimespan p"] by auto
  define A where "A = AveragingWindowTimespan p"
  define x where "x = uint_mul32 q (word_of_int (clamp_timespan cfg p
    (to_int64 (A + cdiv (to_int64 (to_int64 (l - f) - A)) 4))))"
  define r where "r = (if 0 < CompareTo x (bn_limit cfg p) then bn_limit cfg p else x)"
  have x: "wf_limbs x" unfolding x_def using arith256.val_mul32 [OF q(2)] by simp
  have "CalculateNextWorkRequired cfg p bnAvg l f = GetCompact r False"
    by (simp only: CalculateNextWorkRequired_def Let_def q(1) bind.simps r_def x_def A_def)
  moreover have "wf_limbs r" "uval r \<le> uval (bn_limit cfg p)"
    unfolding r_def using cap_at [OF x wf_bn_limit, of cfg p] by simp_all
  ultimately show ?thesis by blast
qed

lemma GetCompact_total: "wf_limbs a \<Longrightarrow> \<exists>c. GetCompact a False = Some c"
  by (erule GetCompact_decode) blast

text \<open>Consensus parameters as every chain has them: positive, and small enough for the time spans to fit.\<close>

definition sane_params :: "pow_params \<Rightarrow> bool" where
  "sane_params p \<longleftrightarrow> 0 < nPowAveragingWindow p \<and> 0 < nPowTargetSpacing p \<and>
     0 \<le> nPowMaxAdjustUp p \<and> nPowMaxAdjustUp p \<le> 100 \<and> 0 \<le> nPowMaxAdjustDown p \<and>
     nPowAveragingWindow p * nPowTargetSpacing p * (100 + nPowMaxAdjustDown p) < 2 ^ 32"

lemma sane_timespans:
  assumes "sane_params p"
  defines "A \<equiv> nPowAveragingWindow p * nPowTargetSpacing p"
  shows "AveragingWindowTimespan p = A" and "0 < A" and "A < 2 ^ 32"
    and "0 \<le> MinActualTimespan p" and "MinActualTimespan p \<le> A"
    and "A \<le> MaxActualTimespan p" and "MaxActualTimespan p < 2 ^ 32"
proof -
  have w: "0 < nPowAveragingWindow p" "0 < nPowTargetSpacing p"
    and u: "0 \<le> nPowMaxAdjustUp p" "nPowMaxAdjustUp p \<le> 100" "0 \<le> nPowMaxAdjustDown p"
    and m: "A * (100 + nPowMaxAdjustDown p) < 2 ^ 32"
    using assms by (simp_all add: sane_params_def A_def)
  show A: "0 < A" unfolding A_def using w by simp
  have "A * 100 \<le> A * (100 + nPowMaxAdjustDown p)" using A u by (intro mult_left_mono) simp_all
  then have A100: "A * 100 < 2 ^ 32" using m by simp
  then show A32: "A < 2 ^ 32" using A by simp
  then show awt: "AveragingWindowTimespan p = A"
    unfolding AveragingWindowTimespan_def A_def [symmetric] using A by (intro to_int64_id) simp_all
  have lo: "0 \<le> A * (100 - nPowMaxAdjustUp p)" "A * (100 - nPowMaxAdjustUp p) \<le> A * 100"
    using A u by (simp_all add: mult_left_mono)
  then have min: "MinActualTimespan p = A * (100 - nPowMaxAdjustUp p) div 100"
    unfolding MinActualTimespan_def awt using A100 by (simp del: to_int64_id add: to_int64_id)
  have hi: "0 \<le> A * (100 + nPowMaxAdjustDown p)" using A u by simp
  then have max: "MaxActualTimespan p = A * (100 + nPowMaxAdjustDown p) div 100"
    unfolding MaxActualTimespan_def awt using m by simp
  show "0 \<le> MinActualTimespan p" unfolding min using lo by simp
  have "A * (100 - nPowMaxAdjustUp p) div 100 \<le> A * 100 div 100" using lo(2) by (intro zdiv_mono1) simp_all
  then show "MinActualTimespan p \<le> A" unfolding min by simp
  have "A * 100 div 100 \<le> A * (100 + nPowMaxAdjustDown p) div 100"
    using \<open>A * 100 \<le> _\<close> by (intro zdiv_mono1) simp_all
  then show "A \<le> MaxActualTimespan p" unfolding max by simp
  show "MaxActualTimespan p < 2 ^ 32" unfolding max using m hi by linarith
qed

lemma unat_of_int32: "unat (word_of_int x :: u32) = nat (x mod 2 ^ 32)"
  by (simp only: unat_eq_nat_uint uint_word_of_int take_bit_eq_mod len_of_numeral_defs) simp

lemma clamp_word:
  assumes "sane_params p"
  shows "unat (word_of_int (clamp_timespan cfg p s) :: u32) =
    (if ASSETCHAINS_ADAPTIVEPOW cfg \<le> 0 then nat (max (MinActualTimespan p) (min (MaxActualTimespan p) s)) else nat (s mod 2 ^ 32))"
proof (cases "ASSETCHAINS_ADAPTIVEPOW cfg \<le> 0")
  case True
  note sane = sane_timespans(4-7) [OF assms]
  let ?c = "max (MinActualTimespan p) (min (MaxActualTimespan p) s)"
  have "MinActualTimespan p \<le> MaxActualTimespan p" using sane(2,3) by linarith
  then have c: "clamp_timespan cfg p s = ?c" using True by (simp add: clamp_timespan_def Let_def max_def min_def)
  have "0 \<le> ?c" "?c < 2 ^ 32" using sane by linarith+
  then have "?c mod 2 ^ 32 = ?c" by (rule mod_pos_pos_trivial)
  then show ?thesis unfolding c unat_of_int32 using True by (simp only: if_True)
next
  case False
  then show ?thesis unfolding unat_of_int32 by (simp only: clamp_timespan_def if_False)
qed

lemma CalculateNextWorkRequired_value:
  fixes l f :: int
  assumes "sane_params p" and "wf_limbs bnAvg"
  defines "A \<equiv> AveragingWindowTimespan p"
  defines "moved \<equiv> to_int64 (A + cdiv (to_int64 (to_int64 (l - f) - A)) 4)"
  shows "\<exists>r. CalculateNextWorkRequired cfg p bnAvg l f = GetCompact r False \<and> wf_limbs r \<and>
    uval r = min (uval bnAvg div nat A *
        (if ASSETCHAINS_ADAPTIVEPOW cfg \<le> 0 then nat (max (MinActualTimespan p) (min (MaxActualTimespan p) moved))
         else nat (moved mod 2 ^ 32)) mod 2 ^ 256)
      (uval (bn_limit cfg p))"
proof -
  have A: "0 < A" "A < 2 ^ 32" using sane_timespans(1-3) [OF assms(1)] by (simp_all add: A_def)
  then have val: "uval (arith_of A) = nat A" by (simp add: arith_of_nonneg)
  then obtain q where q: "uint_div bnAvg (arith_of A) = Some q" "wf_limbs q" "uval q = uval bnAvg div nat A"
    using arith256.val_dv [OF assms(2) wf_arith_of, of A] A by auto
  define x where "x = uint_mul32 q (word_of_int (clamp_timespan cfg p moved))"
  have x: "wf_limbs x" "uval x = uval bnAvg div nat A * unat (word_of_int (clamp_timespan cfg p moved) :: u32) mod 2 ^ 256"
    using arith256.val_mul32 [OF q(2), of "word_of_int (clamp_timespan cfg p moved)"] by (simp_all add: x_def q(3))
  define r where "r = (if 0 < CompareTo x (bn_limit cfg p) then bn_limit cfg p else x)"
  have "CalculateNextWorkRequired cfg p bnAvg l f = GetCompact r False"
    by (simp only: CalculateNextWorkRequired_def Let_def A_def [symmetric] q(1) bind.simps r_def x_def moved_def)
  moreover have "wf_limbs r" "uval r = min (uval x) (uval (bn_limit cfg p))"
    unfolding r_def using cap_at [OF x(1) wf_bn_limit, of cfg p] by simp_all
  ultimately show ?thesis unfolding x(2) clamp_word [OF assms(1)] by blast
qed

section \<open>The whole of GetNextWorkRequired without adaptive proof of work\<close>

lemma window_loop_total:
  assumes "ASSETCHAINS_ADAPTIVEPOW cfg \<le> 0" and "wf_limbs tot"
  shows "\<exists>rest tot'. window_loop cfg pblock zf i n chain mult tot = Some (rest, mult, tot') \<and> wf_limbs tot' \<and>
    rest = drop n chain"
  using assms(2)
proof (induction n arbitrary: i chain tot)
  case 0
  then show ?case by simp
next
  case (Suc n)
  show ?case
  proof (cases chain)
    case Nil
    with Suc.prems show ?thesis by simp
  next
    case (Cons b bs)
    have "wf_limbs (fst (SetCompact (nBits b)))"
      using SetCompact_value [of "nBits b"] by (simp add: wf_limbs_def)
    then have "wf_limbs (uint_add tot (fst (SetCompact (nBits b))))"
      using arith256.val_add [OF Suc.prems] by blast
    from Suc.IH [OF this, of "Suc i" bs] assms(1) Cons show ?thesis by (simp add: Let_def)
  qed
qed

lemma GetNextWorkRequired_nonadaptive:
  assumes "sane_params p" and "nPowAveragingWindow p < 2 ^ 32" and "ASSETCHAINS_ADAPTIVEPOW cfg \<le> 0"
  shows "\<exists>r. GetNextWorkRequired cfg p chain pblock = GetCompact r False \<and> wf_limbs r \<and>
    uval r \<le> uval (bn_limit cfg p)"
proof -
  let ?l = "bn_limit cfg p" and ?w = "nPowAveragingWindow p"
  obtain lim where lim: "GetCompact ?l False = Some lim" using GetCompact_total [OF wf_bn_limit] by blast
  show ?thesis
  proof (cases chain)
    case Nil
    then show ?thesis using lim by (intro exI [of _ ?l]) (simp add: GetNextWorkRequired_def)
  next
    case (Cons tip bs)
    obtain tot where tot: "wf_limbs tot" and
      loop: "window_loop cfg pblock (zflags empty_tables) 0 (nat ?w) chain 0 base_uint_zero =
        Some (drop (nat ?w) chain, 0, tot)"
      using window_loop_total [OF assms(3), of base_uint_zero pblock "zflags empty_tables" 0 "nat ?w" chain 0]
      by (auto simp: wf_limbs_def)
    have "0 < ?w" using assms(1) by (simp add: sane_params_def)
    then have "uval (arith_of ?w) \<noteq> 0" using assms(2) by (simp add: arith_of_nonneg)
    then obtain avg where avg: "uint_div tot (arith_of ?w) = Some avg" "wf_limbs avg"
      using arith256.val_dv [OF tot wf_arith_of, of ?w] by auto
    let ?rest = "drop (nat ?w) chain"
    have na: "\<not> 0 < ASSETCHAINS_ADAPTIVEPOW cfg" using assms(3) by simp
    note unfold = GetNextWorkRequired_def Let_def na loop [unfolded Cons] avg(1) lim Cons
    have eq: "GetNextWorkRequired cfg p chain pblock =
        CalculateNextWorkRequired cfg p avg (GetMedianTimePast chain) (GetMedianTimePast ?rest)" if "?rest \<noteq> []"
      using that unfolding Cons by (simp add: unfold)
    have short: "GetNextWorkRequired cfg p chain pblock = Some lim" if "?rest = []"
      using that unfolding Cons by (simp add: unfold)
    have "word_of_int (AveragingWindowTimespan p) \<noteq> (0 :: u64)"
    proof -
      have "uval (arith_of (AveragingWindowTimespan p)) \<noteq> 0"
        using sane_timespans(1-3) [OF assms(1)] by (simp add: arith_of_nonneg)
      then show ?thesis by (auto simp: arith_of_def)
    qed
    from CalculateNextWorkRequired_some [OF avg(2) this] lim show ?thesis
      using eq short by (cases "?rest = []") (auto intro!: exI [of _ ?l])
  qed
qed

section \<open>The notaries' priority list\<close>

lemma move_to_end_perm:
  "set (move_to_end m l) = set l \<and> (distinct (move_to_end m l) \<longleftrightarrow> distinct l) \<and> length (move_to_end m l) = length l"
proof (cases "dropWhile (\<lambda>x. x \<noteq> m) l")
  case Nil
  then show ?thesis by (simp only: move_to_end_def list.case)
next
  case (Cons x xs)
  then have "l = takeWhile (\<lambda>x. x \<noteq> m) l @ x # xs" by (metis takeWhile_dropWhile_id)
  moreover have "set (t @ xs @ [x]) = set (t @ x # xs) \<and>
      (distinct (t @ xs @ [x]) \<longleftrightarrow> distinct (t @ x # xs)) \<and> length (t @ xs @ [x]) = length (t @ x # xs)" for t
    by auto
  ultimately show ?thesis
    using Cons by (cases xs) (simp add: move_to_end_def, metis append_Cons list.simps(5) move_to_end_def)
qed

lemma priority_list_perm:
  "set (priority_list mids) = int ` {0..<64} \<and> distinct (priority_list mids) \<and> length (priority_list mids) = 64"
proof -
  let ?f = "\<lambda>l i. if mids ! i \<noteq> - 1 then move_to_end (mids ! i) l else l"
  have fold: "set (foldl ?f l is) = set l \<and> (distinct (foldl ?f l is) \<longleftrightarrow> distinct l) \<and> length (foldl ?f l is) = length l" for l "is"
    by (induction "is" arbitrary: l) (simp_all add: move_to_end_perm)
  have "distinct (map int [0..<64])" by (simp add: distinct_map inj_on_def del: upt_rec_numeral)
  moreover have "set (map int [0..<64]) = int ` {0..<64}" by (simp del: upt_rec_numeral)
  ultimately show ?thesis
    unfolding priority_list_def using fold [of "map int [0..<64]" "rev [1..<66]"]
    by (simp only: length_map length_upt) simp
qed

text \<open>The notaries that may mine a second block: the first \<open>nPos + 1\<close> of the list, later all.\<close>

lemma isSecondBlockAllowed_iff:
  assumes "length l = 64" and "0 < delta" and "0 \<le> n"
  shows "isSecondBlockAllowed n time threshold delta l \<longleftrightarrow> threshold \<le> time \<and>
    (64 \<le> unat (time - threshold) div unat delta \<or> n \<in> set (take (unat (time - threshold) div unat delta + 1) l))"
  using assms by (auto simp: isSecondBlockAllowed_def Let_def filter_empty_conv)

lemma allowed_later:
  assumes "isSecondBlockAllowed n t1 threshold delta l" and "t1 \<le> t2"
  shows "isSecondBlockAllowed n t2 threshold delta l"
proof -
  have h: "threshold \<le> t1" "0 < delta" "length l = 64" "0 \<le> n"
    using assms(1) by (auto simp: isSecondBlockAllowed_def split: if_splits)
  have "threshold \<le> t2" using h(1) assms(2) by simp
  have "unat (t1 - threshold) \<le> unat (t2 - threshold)"
    using h(1) assms(2) \<open>threshold \<le> t2\<close> by (simp add: unat_sub word_le_nat_alt)
  then have pos: "unat (t1 - threshold) div unat delta \<le> unat (t2 - threshold) div unat delta"
    by (rule div_le_mono)
  then have "set (take (unat (t1 - threshold) div unat delta + 1) l) \<subseteq> set (take (unat (t2 - threshold) div unat delta + 1) l)"
    by (intro set_take_subset_set_take) simp
  then show ?thesis
    using assms(1) pos \<open>threshold \<le> t2\<close> h by (auto simp: isSecondBlockAllowed_iff)
qed

section \<open>The adaptive adjustments only lower the target\<close>

lemma div_two_le: "uint_div t (arith_of 2) = Some m \<Longrightarrow> wf_limbs t \<Longrightarrow> wf_limbs m \<and> uval m = uval t div 2"
  using arith256.val_dv [of t "arith_of 2"] arith_of_nonneg [of 2] by auto

lemma wf_mul: "wf_limbs a \<Longrightarrow> wf_limbs b \<Longrightarrow> wf_limbs (uint_mul a b)"
  using arith256.val_mul by blast

lemma wf_div: "uint_div a b = Some q \<Longrightarrow> wf_limbs a \<Longrightarrow> wf_limbs b \<Longrightarrow> wf_limbs q"
  using arith256.val_dv [of a b] by (auto split: if_splits)

lemma capped_at_half:
  assumes "uint_div t (arith_of 2) = Some m" and "wf_limbs t" and "wf_limbs u"
    and "Some (if 0 < CompareTo u m then m else u) = Some t'"
  shows "wf_limbs t' \<and> (t' = t \<or> uval t' \<le> uval t div 2)"
  using cap_at [OF assms(3), of m] div_two_le [OF assms(1,2)] assms(4) by auto

lemma outer_lowers:
  assumes "RT_CST_RST_outer cfg time t tss cts num den W = Some t'" and "wf_limbs t" and "wf_limbs (cts ! 0)"
  shows "wf_limbs t' \<and> (t' = t \<or> uval t' \<le> uval t div 2)"
  using assms(1) unfolding RT_CST_RST_outer_def Let_def
proof (elim bind_someE if_someE)
  fix m oK u q c
  assume m: "uint_div t (arith_of 2) = Some m" and t': "Some (if 0 < CompareTo u m then m else u) = Some t'"
    and "array_get cts 0 = Some c" "uint_div c (arith_of K_scale) = Some q" "Some (uint_mul q (arith_of oK)) = Some u"
  then have "wf_limbs u" using wf_mul [OF wf_div [OF _ assms(3)]] by (auto simp: array_get_Some)
  from capped_at_half [OF m assms(2) this t'] show ?thesis .
next
  fix m u
  assume m: "uint_div t (arith_of 2) = Some m" and t': "Some (if 0 < CompareTo u m then m else u) = Some t'"
    and "Some t = Some u"
  then have "wf_limbs u" using assms(2) by simp
  from capped_at_half [OF m assms(2) this t'] show ?thesis .
qed (use assms(2) in simp)

lemma outer_cascade_lowers:
  assumes "outer_cascade cfg time z orig cs t = Some (t', flag)" and "wf_limbs orig" and "wf_limbs (ct z ! 0)"
    and "wf_limbs t" and "t = orig \<or> uval t \<le> uval orig div 2"
  shows "wf_limbs t' \<and> (t' = orig \<or> uval t' \<le> uval orig div 2) \<and> flag = (if uval t' < uval orig then 2 else 0)"
  using assms(1,4,5)
proof (induction cs arbitrary: t)
  case Nil
  then show ?case using arith256.val_cmp [OF Nil(2) assms(2)] by (auto split: if_splits)
next
  case (Cons c cs)
  obtain n d W where c: "c = (n, d, W)" by (cases c)
  show ?case
  proof (cases "CompareTo t orig < 0")
    case True
    then show ?thesis using Cons.prems arith256.val_cmp [OF Cons.prems(2) assms(2)] by (auto split: if_splits)
  next
    case False
    then obtain u where "RT_CST_RST_outer cfg time orig (ts z) (ct z) n d W = Some u"
      and rest: "outer_cascade cfg time z orig cs u = Some (t', flag)"
      using Cons.prems(1) by (auto simp: c bind_eq_Some_conv)
    from outer_lowers [OF this(1) assms(2,3)] Cons.IH [OF rest] show ?thesis by blast
  qed
qed

lemma outer_adjust_lowers:
  assumes "outer_adjust cfg time z t = Some (t', flag)" and "wf_limbs t" and "wf_limbs (ct z ! 0)"
  shows "wf_limbs t' \<and> (t' = t \<or> uval t' \<le> uval t div 2) \<and> flag = (if uval t' < uval t then 2 else 0)"
  using assms(1) unfolding outer_adjust_def Let_def
proof (elim bind_someE)
  fix u
  assume "(if 60 \<le> ASSETCHAINS_BLOCKTIME cfg \<and> ASSETCHAINS_BLOCKTIME cfg < 100
      then RT_CST_RST_outer cfg time t (ts z) (ct z) 1 60 1
      else if 100 \<le> ASSETCHAINS_BLOCKTIME cfg then RT_CST_RST_outer cfg time t (ts z) (ct z) 1 100 1
      else Some t) = Some u"
  then have "wf_limbs u \<and> (u = t \<or> uval u \<le> uval t div 2)"
    by (elim if_someE) (use outer_lowers [OF _ assms(2,3)] assms(2) in simp_all)
  moreover assume "outer_cascade cfg time z t [(15, 100, 2), (1, 2, 3), (7, 3, 6), (12, 7, 12)] u = Some (t', flag)"
  ultimately show ?thesis using outer_cascade_lowers [OF _ assms(2,3)] by blast
qed

end
