(* ===== verification/PowCorrect.thy ===== *)
theory PowCorrect
  imports Pow
begin

text \<open>
  What the lemmas of \<^verbatim>\<open>Pow\<close> give for the functions of \<^verbatim>\<open>src/src/pow.cpp\<close> that consensus calls: the check and the work of
  a block, the bounds of the retargeting step, that the adaptive code returns on every chain, and the range
  in which its integer exponential is exact.
\<close>

section \<open>The adaptive code is total\<close>

text \<open>The block times for which no divisor of the adaptive code vanishes or overflows.\<close>

definition sane_blocktime :: "chain_cfg \<Rightarrow> bool" where
  "sane_blocktime cfg \<longleftrightarrow> 1 \<le> ASSETCHAINS_BLOCKTIME cfg \<and> ASSETCHAINS_BLOCKTIME cfg \<le> 1000"

definition wf_tables :: "zawy_tables \<Rightarrow> bool" where
  "wf_tables z \<longleftrightarrow> length (zflags z) = 64 \<and> length (ct z) = 64 \<and> length (ts z) = 64 \<and> list_all wf_limbs (ct z)"

lemma wf_tables_nth: "wf_tables z \<Longrightarrow> i < 64 \<Longrightarrow> wf_limbs (ct z ! i)"
  by (simp add: wf_tables_def list_all_length)

lemma sane_timespan_word:
  assumes "sane_params p"
  shows "word_of_int (AveragingWindowTimespan p) \<noteq> (0 :: u64)"
proof -
  have "uval (arith_of (AveragingWindowTimespan p)) \<noteq> 0"
    using sane_timespans(1-3) [OF assms] by (simp add: arith_of_nonneg)
  then show ?thesis by (auto simp: arith_of_def)
qed

lemma uint_div_total:
  assumes "wf_limbs a" and "0 < x" and "x < 2 ^ 64"
  obtains q where "uint_div a (arith_of x) = Some q" and "wf_limbs q" and "uval q = uval a div nat x"
  using assms arith256.val_dv [OF assms(1) wf_arith_of, of x] arith_of_nonneg [of x] by auto

lemma square_bounds: "1 \<le> t \<Longrightarrow> t \<le> 1000 \<Longrightarrow> 1 \<le> t * t \<and> t * t \<le> (1000000 :: int)"
  using mult_mono [of 1 t 1 t] mult_mono [of t 1000 t 1000] by simp

lemma sane_divisor:
  assumes "sane_blocktime cfg" and "1 \<le> k" and "k \<le> 2000"
  defines "T \<equiv> ASSETCHAINS_BLOCKTIME cfg"
  shows "to_int32 (k * to_int32 (T * T)) = k * (T * T)" and "to_int32 (to_int32 (T * T) * k) = k * (T * T)"
    and "to_int32 (to_int32 (k * T) * T) = k * (T * T)" and "0 < k * (T * T)"
proof -
  have T: "1 \<le> T" "T \<le> 1000" using assms(1) by (simp_all add: sane_blocktime_def T_def)
  note sq = square_bounds [OF T]
  have k: "k * (T * T) \<le> 2000 * 1000000" using sq assms(2,3) by (intro mult_mono) auto
  have kT: "k * T \<le> 2000 * 1000" using T assms(2,3) by (intro mult_mono) auto
  show p: "0 < k * (T * T)" using mult_pos_pos [of k "T * T"] sq assms(2) by linarith
  have p': "0 < k * T" using T assms(2) by (intro mult_pos_pos) auto
  have "to_int32 (T * T) = T * T" "to_int32 (k * T) = k * T" "to_int32 (k * (T * T)) = k * (T * T)"
    by (auto intro!: to_int32_id) (use sq k kT p p' in linarith)+
  then show "to_int32 (k * to_int32 (T * T)) = k * (T * T)" "to_int32 (to_int32 (T * T) * k) = k * (T * T)"
    "to_int32 (to_int32 (k * T) * T) = k * (T * T)" by (simp_all add: ac_simps)
qed

lemma idiv_total: "b \<noteq> 0 \<Longrightarrow> idiv a b = Some (cdiv a b)"
  by (simp add: idiv_def)

lemma outer_total:
  assumes "sane_blocktime cfg" and "wf_limbs t" and "wf_limbs (cts ! 0)" and "1 \<le> num" "num \<le> 2000" "den \<noteq> 0"
    and "W < length tss" and "cts \<noteq> []"
  shows "\<exists>t'. RT_CST_RST_outer cfg time t tss cts num den W = Some t'"
proof -
  obtain m where m: "uint_div t (arith_of 2) = Some m" by (rule uint_div_total [OF assms(2), of 2]) simp_all
  obtain q where q: "uint_div (cts ! 0) (arith_of K_scale) = Some q"
    by (rule uint_div_total [OF assms(3), of K_scale]) (simp_all add: K_scale_def)
  have i: "idiv x den = Some (cdiv x den)" for x using assms(6) by (rule idiv_total)
  have j: "idiv x (to_int32 (num * to_int32 (ASSETCHAINS_BLOCKTIME cfg * ASSETCHAINS_BLOCKTIME cfg))) =
      Some (cdiv x (to_int32 (num * to_int32 (ASSETCHAINS_BLOCKTIME cfg * ASSETCHAINS_BLOCKTIME cfg))))" for x
    using sane_divisor(1,4) [OF assms(1,4,5)] by (intro idiv_total) linarith
  have "tss \<noteq> []" using assms(7) by auto
  then show ?thesis
    using i j assms(7,8) by (simp add: RT_CST_RST_outer_def Let_def m q)
qed

lemma outer_cascade_total:
  assumes "sane_blocktime cfg" and "wf_limbs orig" and "wf_tables z"
    and "list_all (\<lambda>(num, den, W). 1 \<le> num \<and> num \<le> 2000 \<and> den \<noteq> 0 \<and> W < 64) cs"
  shows "\<exists>t' flag. outer_cascade cfg time z orig cs t = Some (t', flag)"
  using assms(4)
proof (induction cs arbitrary: t)
  case Nil
  then show ?case by simp
next
  case (Cons c cs)
  obtain n d W where c: "c = (n, d, W)" by (cases c)
  from Cons.prems obtain u where "RT_CST_RST_outer cfg time orig (ts z) (ct z) n d W = Some u"
    using outer_total [OF assms(1,2) wf_tables_nth [OF assms(3), of 0], of n d W "ts z" time] assms(3) by (fastforce simp: c wf_tables_def)
  with Cons show ?case by (auto simp: c)
qed

lemma outer_adjust_total:
  assumes "sane_blocktime cfg" and "wf_limbs t" and "wf_tables z"
  shows "\<exists>t' flag. outer_adjust cfg time z t = Some (t', flag)"
proof -
  have o: "\<exists>u. RT_CST_RST_outer cfg time t (ts z) (ct z) 1 d 1 = Some u" if "d \<noteq> 0" for d
    by (rule outer_total [OF assms(1,2)]) (use wf_tables_nth [OF assms(3), of 0] that assms(3) in \<open>auto simp: wf_tables_def\<close>)
  have c: "\<exists>t' flag. outer_cascade cfg time z t [(15, 100, 2), (1, 2, 3), (7, 3, 6), (12, 7, 12)] u = Some (t', flag)" for u
    by (rule outer_cascade_total [OF assms]) simp
  show ?thesis
    using o [of 60] o [of 100] c unfolding outer_adjust_def Let_def by (auto simp del: outer_cascade.simps)
qed

lemma sum_targets_total:
  assumes "wf_tables z" and "width < 64"
  shows "\<exists>r. sum_targets (ct z) width = Some r \<and> wf_limbs r"
proof -
  let ?f = "\<lambda>acc i. do { t \<leftarrow> acc; c \<leftarrow> array_get (ct z) i; Some (uint_add t c) }"
  have len: "length (ct z) = 64" using assms(1) by (simp add: wf_tables_def)
  have "\<exists>r. foldl ?f (Some a) is = Some r \<and> wf_limbs r" if "list_all (\<lambda>i. i < 64) is" "wf_limbs a" for a "is"
    using that arith256.val_add wf_tables_nth [OF assms(1)] by (induction "is" arbitrary: a) (auto simp: len)
  moreover have "array_get (ct z) 0 = Some (ct z ! 0)" using len by simp
  ultimately show ?thesis
    unfolding sum_targets_def using assms wf_tables_nth [OF assms(1), of 0] by (simp add: list_all_iff)
qed

lemma inner_total:
  assumes "sane_blocktime cfg" and "wf_limbs t" and "wf_tables z" and "1 \<le> W" and "i + W < 64"
  shows "\<exists>t'. RT_CST_RST_inner cfg time t (ts z) (ct z) W i = Some t' \<and> wf_limbs t'"
proof -
  obtain q where q: "uint_div t (arith_of 101) = Some q" "wf_limbs q" by (rule uint_div_total [OF assms(2), of 101]) simp_all
  obtain r where r: "sum_targets (ct z) W = Some r" "wf_limbs r" using sum_targets_total [OF assms(3), of W] assms(5) by auto
  obtain s where s: "uint_div r (arith_of (int W * K_scale)) = Some s" "wf_limbs s"
    by (rule uint_div_total [OF r(2), of "int W * K_scale"]) (use assms(4,5) in \<open>simp_all add: K_scale_def\<close>)
  have i: "idiv x (to_int32 (to_int32 (int W * ASSETCHAINS_BLOCKTIME cfg) * ASSETCHAINS_BLOCKTIME cfg)) =
      Some (cdiv x (to_int32 (to_int32 (int W * ASSETCHAINS_BLOCKTIME cfg) * ASSETCHAINS_BLOCKTIME cfg)))" for x
    using sane_divisor(3,4) [OF assms(1), of "int W"] assms(4,5) by (intro idiv_total) linarith
  have g: "array_get (ts z) k = Some (ts z ! k)" if "k < 64" for k using that assms(3) by (simp add: wf_tables_def)
  show ?thesis
    using i assms(2,5) wf_mul [OF s(2) wf_arith_of] wf_mul [OF q(2) wf_arith_of]
    by (simp add: RT_CST_RST_inner_def RT_CST_RST_target_def Let_def q s r g)
qed

text \<open>The widths that are read after a trigger at \<open>i\<close> stay inside the tables because each pair bounds \<open>i\<close>.\<close>

lemma inner_cascade_lowers:
  assumes "sane_blocktime cfg" and "wf_tables z" and "list_all (\<lambda>(bound, W). 1 \<le> W \<and> bound + W \<le> 64) cs" and "wf_limbs t"
  shows "\<exists>t'. inner_cascade cfg time z i cs t = Some t' \<and> wf_limbs t' \<and> uval t' \<le> uval t"
  using assms(3,4)
proof (induction cs arbitrary: t)
  case Nil
  then show ?case by simp
next
  case (Cons c cs)
  obtain b W where c: "c = (b, W)" by (cases c)
  show ?case
  proof (cases "i < b")
    case True
    then obtain u where u: "RT_CST_RST_inner cfg time t (ts z) (ct z) W i = Some u" "wf_limbs u"
      using inner_total [OF assms(1) Cons.prems(2) assms(2), of W i time] Cons.prems(1) by (auto simp: c)
    define v where "v = (if CompareTo u t < 0 then u else t)"
    have v: "wf_limbs v" "uval v \<le> uval t"
      using u(2) Cons.prems(2) arith256.val_cmp [OF u(2) Cons.prems(2)] by (auto simp: v_def)
    from Cons.IH [OF _ v(1)] Cons.prems(1) v(2) True show ?thesis
      by (auto simp: c u(1) v_def [symmetric] intro: order_trans)
  next
    case False
    with Cons show ?thesis by (auto simp: c)
  qed
qed

lemma last_outer_total: "i + n \<le> length zf \<Longrightarrow> \<exists>k \<le> i + n. last_outer zf i n = Some k"
proof (induction n arbitrary: i)
  case (Suc n)
  then obtain k where "k \<le> Suc i + n" "last_outer zf (Suc i) n = Some k" using Suc.IH [of "Suc i"] by auto
  with Suc.prems show ?case by auto
qed simp

lemma inner_adjust_lowers:
  assumes "sane_blocktime cfg" and "wf_tables z" and "wf_limbs t"
  shows "\<exists>t' flag. inner_adjust cfg time z t = Some (t', flag) \<and> wf_limbs t' \<and> uval t' \<le> uval t \<and>
    flag = (if uval t' < uval t then 1 else 0)"
proof -
  obtain i where i: "last_outer (zflags z) 0 50 = Some i"
    using last_outer_total [of 0 50 "zflags z"] assms(2) by (auto simp: wf_tables_def simp del: last_outer.simps)
  obtain v where v: "(if i < 10 then do { u \<leftarrow> RT_CST_RST_inner cfg time t (ts z) (ct z) 1 i; Some (if 0 < CompareTo u t then t else u) } else Some t) = Some v"
    "wf_limbs v" "uval v \<le> uval t"
  proof (cases "i < 10")
    case True
    then obtain u where u: "RT_CST_RST_inner cfg time t (ts z) (ct z) 1 i = Some u" "wf_limbs u"
      using inner_total [OF assms(1,3,2), of 1 i time] by auto
    show thesis
      by (rule that [of "if 0 < CompareTo u t then t else u"]) (use True u(1) cap_at [OF u(2) assms(3)] in simp_all)
  qed (use assms(3) in \<open>auto intro: that\<close>)
  obtain t' where c: "inner_cascade cfg time z i [(20, 2), (30, 3), (40, 6), (50, 12)] v = Some t'"
    "wf_limbs t'" "uval t' \<le> uval v"
    using inner_cascade_lowers [OF assms(1,2) _ v(2), of "[(20, 2), (30, 3), (40, 6), (50, 12)]" time i]
    by (auto simp del: inner_cascade.simps)
  have "t' \<noteq> t \<longleftrightarrow> uval t' < uval t"
    using c(2,3) v(2,3) uval_inject [of t' t] assms(3) by (auto simp: wf_limbs_def le_less)
  moreover have "inner_adjust cfg time z t = Some (t', if t' \<noteq> t then 1 else 0)"
    unfolding inner_adjust_def i bind.simps v(1) c(1) by simp
  ultimately show ?thesis using c v by auto
qed

lemma ctB_total:
  assumes "sane_blocktime cfg" and "wf_limbs t"
  shows "\<exists>t'. zawy_ctB cfg t s = Some t' \<and> wf_limbs t'"
proof -
  obtain q where q: "uint_div t (arith_of 1000) = Some q" "wf_limbs q"
    by (rule uint_div_total [OF assms(2), of 1000]) simp_all
  let ?d = "to_int32 (to_int32 (ASSETCHAINS_BLOCKTIME cfg * ASSETCHAINS_BLOCKTIME cfg) * 784)"
  have "idiv x ?d = Some (cdiv x ?d)" for x
    using sane_divisor(2,4) [OF assms(1), of 784] by (intro idiv_total) linarith
  then show ?thesis
    using assms(2) wf_mul [OF q(2) wf_arith_of] by (simp add: zawy_ctB_def Let_def q)
qed

lemma adjust_ct_total:
  assumes "sane_blocktime cfg" and "wf_tables z" and "i + n \<le> 63"
  shows "\<exists>z'. adjust_ct cfg i n z = Some z' \<and> wf_tables z'"
  using assms(2,3)
proof (induction n arbitrary: i z)
  case 0
  then show ?case by simp
next
  case (Suc n)
  obtain c where c: "zawy_ctB cfg (ct z ! i) (ts z ! i - ts z ! (i + 1)) = Some c" "wf_limbs c"
    using ctB_total [OF assms(1), of "ct z ! i" "ts z ! i - ts z ! (i + 1)"] wf_tables_nth [OF Suc.prems(1), of i] Suc.prems(2) by auto
  have "wf_tables (z\<lparr>ct := (ct z)[i := c]\<rparr>)"
    using Suc.prems(1) c(2) set_update_subset_insert [of "ct z" i c] by (auto simp: wf_tables_def list_all_iff)
  from Suc.IH [OF this, of "Suc i"] Suc.IH [OF Suc.prems(1), of "Suc i"] Suc.prems show ?case
    by (simp add: c [simplified] wf_tables_def)
qed

lemma wf_SetCompact [simp]: "wf_limbs (fst (SetCompact c))"
  using SetCompact_value [of c] by (simp add: wf_limbs_def)

lemma wf_zero: "wf_limbs base_uint_zero"
  by (simp add: wf_limbs_def)

lemma wf_read_tables: "wf_tables (read_tables chain)"
  by (auto simp: wf_tables_def read_tables_def Let_def list_all_iff in_set_replicate wf_zero)

lemma wf_empty_tables: "wf_tables empty_tables"
  by (auto simp: wf_tables_def empty_tables_def list_all_iff in_set_replicate wf_zero)

lemma val360000_total:
  assumes "sane_blocktime cfg"
  shows "\<exists>v. zawy_exponential_val360000 cfg num = Some v"
proof -
  have T: "ASSETCHAINS_BLOCKTIME cfg \<noteq> 0" using assms by (auto simp: sane_blocktime_def)
  have d: "to_int32 (ASSETCHAINS_BLOCKTIME cfg * ASSETCHAINS_BLOCKTIME cfg) \<noteq> 0"
    using sane_divisor(1,4) [OF assms, of 1] by (auto simp: to_int32_def)
  then show ?thesis
    using T by (simp add: zawy_exponential_val360000_def Let_def idiv_def imod_def)
qed

lemma exponential_total:
  assumes "sane_blocktime cfg" and "wf_limbs t"
  shows "\<exists>t'. zawy_exponential cfg t m = Some t' \<and> wf_limbs t'"
proof -
  obtain q where q: "uint_div t (arith_of (100 * 3600)) = Some q" "wf_limbs q"
    by (rule uint_div_total [OF assms(2), of "100 * 3600"]) simp_all
  obtain v where "zawy_exponential_val360000 cfg m = Some v" using val360000_total [OF assms(1)] by blast
  then show ?thesis using wf_mul [OF q(2) wf_arith_of] q by (simp add: zawy_exponential_def)
qed

lemma wf_add: "wf_limbs a \<Longrightarrow> wf_limbs b \<Longrightarrow> wf_limbs (uint_add a b)"
  using arith256.val_add by blast

lemma wf_sub: "wf_limbs a \<Longrightarrow> wf_limbs b \<Longrightarrow> wf_limbs (uint_sub a b)"
  by (simp add: wf_limbs_def uint_sub_def uint_add_def)

lemma TSA_EMA_total:
  assumes "sane_blocktime cfg" and "wf_limbs t" and "d < 2 ^ 31"
  shows "\<exists>t'. zawy_TSA_EMA cfg d t = Some t' \<and> wf_limbs t'"
proof -
  let ?T = "ASSETCHAINS_BLOCKTIME cfg"
  have KT: "to_int64 (K_scale * ?T) = K_scale * ?T" "0 < K_scale * ?T" "K_scale * ?T < 2 ^ 64"
    using assms(1) by (simp_all add: K_scale_def sane_blocktime_def)
  define e where "e = (if d < 4 then 4 else d)"
  define e' where "e' = e - e mod 2"
  have e: "0 < e'" "e' < 2 ^ 64" using assms(3) pos_mod_bound [of 2 e] pos_mod_sign [of 2 e] by (auto simp: e_def e'_def)
  obtain q where q: "uint_div t (arith_of (K_scale * ?T)) = Some q" "wf_limbs q"
    by (rule uint_div_total [OF assms(2) KT(2,3)])
  obtain u where u: "uint_div q (arith_of 360000) = Some u" "wf_limbs u" by (rule uint_div_total [OF q(2), of 360000]) simp_all
  obtain v where v: "zawy_exponential_val360000 cfg (cdiv e' 2) = Some v" using val360000_total [OF assms(1)] by blast
  let ?s = "uint_sub (uint_add (uint_mul q (arith_of ?T)) (uint_mul u (arith_of (to_int64 (e' * v)))))
    (uint_mul u (arith_of (to_int64 (?T * v))))"
  have s: "wf_limbs ?s" by (intro wf_sub wf_add wf_mul q u wf_arith_of)
  obtain w where w: "uint_div ?s (arith_of e') = Some w" "wf_limbs w" by (rule uint_div_total [OF s e])
  have "zawy_TSA_EMA cfg d t = Some (uint_mul w (arith_of (K_scale * ?T)))"
    unfolding zawy_TSA_EMA_def Let_def e_def [symmetric] e'_def [symmetric] KT(1) by (simp add: q(1) u(1) v w(1))
  then show ?thesis using wf_mul [OF w(2) wf_arith_of] by simp
qed

lemma window_loop_adaptive:
  assumes "wf_limbs tot" and "i + n \<le> length zf"
  shows "\<exists>rest m tot'. window_loop cfg pblock zf i n chain mult tot = Some (rest, m, tot') \<and> wf_limbs tot'"
  using assms
proof (induction n arbitrary: i chain tot mult)
  case 0
  then show ?case by simp
next
  case (Suc n)
  show ?case
  proof (cases chain)
    case Nil
    with Suc.prems show ?thesis by simp
  next
    case (Cons b bs)
    let ?t = "fst (SetCompact (nBits b))"
    obtain q where q: "uint_div ?t (arith_of 8) = Some q" "wf_limbs q"
      by (rule uint_div_total [OF wf_SetCompact, of 8]) simp_all
    note IH = Suc.IH [of "uint_add tot ?t" "Suc i" bs] Suc.IH [of "uint_add tot (uint_mul q (arith_of 7))" "Suc i" bs]
    note wf = wf_add [OF Suc.prems(1) wf_SetCompact] wf_add [OF Suc.prems(1) wf_mul [OF q(2) wf_arith_of]]
    have go: "\<exists>rest m tot'. window_loop cfg pblock zf (Suc i) n bs mult' (uint_add tot t) = Some (rest, m, tot') \<and> wf_limbs tot'"
      if "t = ?t \<or> t = uint_mul q (arith_of 7)" for t mult'
      using that IH wf Suc.prems(2) by auto
    have "zf \<noteq> []" using Suc.prems(2) by auto
    then show ?thesis
      by (cases "if 0 < ASSETCHAINS_ADAPTIVEPOW cfg then pblock else None"; cases "zf ! i \<noteq> 0 \<and> zf ! 0 = 0")
        (use Suc.prems(2) in \<open>simp_all add: Cons Let_def q(1) go array_get_def\<close>)
  qed
qed

lemma finish_total: "wf_limbs t \<Longrightarrow> \<exists>n. (do { n \<leftarrow> GetCompact t False; Some ((n AND m) OR f) }) = Some n"
  using GetCompact_total [of t] by auto

lemma adaptive_adjust_total:
  assumes "sane_blocktime cfg" and "wf_tables z"
  shows "\<exists>n. adaptive_adjust cfg h d m pblock z nbits = Some n"
proof -
  let ?t = "fst (SetCompact nbits)"
  have g: "array_get (zflags z) 0 = Some (zflags z ! 0)" using assms(2) by (simp add: wf_tables_def)
  obtain f0 where f0: "GetCompact ?t False = Some f0" using GetCompact_total [OF wf_SetCompact] by blast
  have branch: "\<exists>t flag. (if zflags z ! 0 = 0 \<or> zflags z ! 0 = 3 then outer_adjust cfg time z ?t else inner_adjust cfg time z ?t) =
      Some (t, flag) \<and> wf_limbs t" for time
    using outer_adjust_total [OF assms(1) wf_SetCompact assms(2), of time nbits] inner_adjust_lowers [OF assms wf_SetCompact, of time nbits]
      outer_adjust_lowers [of cfg time z ?t] wf_tables_nth [OF assms(2), of 0] by auto
  show ?thesis
  proof (cases "if 64 < h \<and> 0 < d then pblock else None")
    case None
    then show ?thesis by (simp add: adaptive_adjust_def Let_def f0)
  next
    case (Some time)
    obtain t flag where t: "(if zflags z ! 0 = 0 \<or> zflags z ! 0 = 3 then outer_adjust cfg time z ?t else inner_adjust cfg time z ?t) =
      Some (t, flag)" "wf_limbs t" using branch by blast
    obtain t' where e: "zawy_exponential cfg t m = Some t'" "wf_limbs t'" using exponential_total [OF assms(1) t(2)] by blast
    obtain g g' where "GetCompact t False = Some g" "GetCompact t' False = Some g'"
      using GetCompact_total t(2) e(2) by blast
    then show ?thesis unfolding adaptive_adjust_def Let_def Some by (simp add: g t(1) e(1))
  qed
qed

lemma GetNextWorkRequired_some:
  assumes "sane_params p" and "nPowAveragingWindow p \<le> 64" and "sane_blocktime cfg"
  shows "\<exists>n. GetNextWorkRequired cfg p chain pblock = Some n"
proof -
  let ?w = "nPowAveragingWindow p"
  obtain lim where lim: "GetCompact (bn_limit cfg p) False = Some lim" using GetCompact_total [OF wf_bn_limit] by blast
  show ?thesis
  proof (cases chain)
    case Nil
    then show ?thesis using lim by (simp add: GetNextWorkRequired_def)
  next
    case (Cons tip bs)
    define ad where "ad = (if 0 < ASSETCHAINS_ADAPTIVEPOW cfg \<and> 64 \<le> to_int32 (nHeight tip + 1) then pblock else None)"
    define d where "d = (case ad of None \<Rightarrow> 0 | Some time \<Rightarrow> sint (time - nTime tip))"
    define m0 where "m0 = (case ad of None \<Rightarrow> 0 | Some _ \<Rightarrow> to_int32 (d - to_int32 (7 * ASSETCHAINS_BLOCKTIME cfg)))"
    have d: "d < 2 ^ 31" using sint_less [where 'a = 32] by (auto simp: d_def split: option.split)
    obtain z where z: "(if ad = None then Some empty_tables else if 64 < length chain then adjust_ct cfg 0 63 (read_tables chain)
        else Some (read_tables chain)) = Some z" "wf_tables z"
      using adjust_ct_total [OF assms(3) wf_read_tables, of 0 63 chain] wf_read_tables wf_empty_tables
      by (cases "ad = None"; cases "64 < length chain") (auto simp del: adjust_ct.simps)
    obtain t n where t: "zawy_TSA_EMA cfg d (ct z ! 0) = Some t" "GetCompact t False = Some n"
      using TSA_EMA_total [OF assms(3) wf_tables_nth [OF z(2), of 0] d] GetCompact_total by (metis zero_less_numeral)
    have g: "array_get (ct z) 0 = Some (ct z ! 0)" using z(2) by (simp add: wf_tables_def)
    have len: "0 + nat ?w \<le> length (zflags z)" using z(2) assms(2) by (simp add: wf_tables_def)
    obtain rest m tot where w: "window_loop cfg pblock (zflags z) 0 (nat ?w) chain m0 base_uint_zero = Some (rest, m, tot)" "wf_limbs tot"
      using window_loop_adaptive [OF wf_zero len, of cfg pblock chain m0] by blast
    obtain avg where avg: "uint_div tot (arith_of ?w) = Some avg" "wf_limbs avg"
      by (rule uint_div_total [OF w(2), of ?w]) (use assms(1,2) in \<open>simp_all add: sane_params_def\<close>)
    have "word_of_int (AveragingWindowTimespan p) \<noteq> (0 :: u64)"
      using sane_timespan_word [OF assms(1)] .
    then obtain nb where nb: "CalculateNextWorkRequired cfg p avg (GetMedianTimePast chain) (GetMedianTimePast rest) = Some nb"
      using CalculateNextWorkRequired_some [OF avg(2)] GetCompact_total by metis
    obtain r where r: "adaptive_adjust cfg (to_int32 (nHeight tip + 1)) d m pblock z nb = Some r"
      using adaptive_adjust_total [OF assms(3) z(2)] by blast
    show ?thesis
      unfolding GetNextWorkRequired_def Let_def Cons list.case ad_def [symmetric] d_def [symmetric] m0_def [symmetric]
        z(1) [unfolded Cons] lim bind.simps w(1) [unfolded Cons] prod.case avg(1) nb [unfolded Cons] r g t
      by simp
  qed
qed

section \<open>Properties\<close>

text \<open>
  C14: \<^verbatim>\<open>GetBlockProof\<close> never divides by zero, and the work of a block is \<open>2 ^ 256 div (target + 1)\<close> when \<^verbatim>\<open>nBits\<close>
  denotes a positive target below \<open>2 ^ 256\<close>, and zero otherwise.
\<close>

theorem GetBlockProof_correct:
  "\<exists>w. GetBlockProof b = Some w \<and> wf_limbs w \<and>
       uval w = (if valid_bits (nBits b) then 2 ^ 256 div (compact_value (unat (nBits b)) + 1) else 0)"
  by (rule GetBlockProof_work)

lemma valid_mindiff: "valid_bits KOMODO_MINDIFF_NBITS"
  by (simp add: valid_bits_def KOMODO_MINDIFF_NBITS_def compact_value_def compact_exp_def compact_mant_def bit_iff_odd_drop_bit drop_bit_eq_div)

definition limit_for :: "chain_cfg \<Rightarrow> pow_params \<Rightarrow> int \<Rightarrow> bytes" where
  "limit_for cfg p height =
     (if height \<le> 1 \<or> ASSETCHAINS_ALGO cfg = ASSETCHAINS_EQUIHASH cfg then powLimit p else powAlternate p)"

text \<open>Proof of work with given bits: the target is valid and within the limit, and the hash is at most the target.\<close>

definition pow_passes :: "chain_cfg \<Rightarrow> pow_params \<Rightarrow> pow_header \<Rightarrow> int \<Rightarrow> u32 \<Rightarrow> bool" where
  "pow_passes cfg p hdr height bits \<longleftrightarrow>
     valid_bits bits \<and> compact_value (unat bits) \<le> le_val (limit_for cfg p height) \<and>
     (le_val (hdr_hash hdr) \<le>
        compact_value (unat (if ASSETCHAINS_STAKED cfg \<noteq> 0 then KOMODO_MINDIFF_NBITS else bits)) \<or>
      KOMODO_LOADINGBLOCKS cfg \<or> (isKMD cfg \<and> height \<le> 792000))"

lemma CheckProofOfWork_passes:
  assumes "length (powLimit p) = 32" and "length (powAlternate p) = 32" and "length (hdr_hash hdr) = 32"
    and "h = (if height = 0 then to_int32 (currentheight env + 1) else height)"
    and "notary_easy cfg p env hdr pk h = Some easy"
  defines "bits \<equiv> (if easy then KOMODO_MINDIFF_NBITS else hdr_nBits hdr)"
  shows "CheckProofOfWork cfg p env hdr pk height \<longleftrightarrow> pow_passes cfg p hdr h bits"
proof -
  obtain v neg ovf where s: "SetCompact bits = (v, neg, ovf)" by (cases "SetCompact bits")
  obtain w n' o' where m: "SetCompact KOMODO_MINDIFF_NBITS = (w, n', o')" by (cases "SetCompact KOMODO_MINDIFF_NBITS")
  note v = valid_bits_flags [OF s] and w = valid_bits_flags [OF m]
  have wv: "uval w = compact_value (unat KOMODO_MINDIFF_NBITS)" by (rule w(2)) (rule valid_mindiff)
  let ?l = "UintToArith256 (limit_for cfg p h)" and ?h = "UintToArith256 (hdr_hash hdr)"
  have l: "wf_limbs ?l" "uval ?l = le_val (limit_for cfg p h)"
    using assms(1,2) by (simp_all add: limit_for_def UintToArith256_uval wf_limbs_def)
  have h: "wf_limbs ?h" "uval ?h = le_val (hdr_hash hdr)"
    using assms(3) by (simp_all add: UintToArith256_uval wf_limbs_def)
  have lim: "(if h \<le> 1 \<or> ASSETCHAINS_ALGO cfg = ASSETCHAINS_EQUIHASH cfg
      then UintToArith256 (powLimit p) else UintToArith256 (powAlternate p)) = ?l" by (simp add: limit_for_def)
  have b: "(if easy then SetCompact KOMODO_MINDIFF_NBITS else SetCompact (hdr_nBits hdr)) = (v, neg, ovf)"
    using s by (simp add: bits_def split: if_splits)
  have c: "0 < CompareTo v ?l \<longleftrightarrow> uval ?l < uval v" "0 < CompareTo ?h v \<longleftrightarrow> uval v < uval ?h"
    "0 < CompareTo ?h w \<longleftrightarrow> uval w < uval ?h"
    using arith256.val_cmp [OF v(3) l(1)] arith256.val_cmp [OF h(1) v(3)] arith256.val_cmp [OF h(1) w(3)] by simp_all
  show ?thesis
  proof (cases "valid_bits bits")
    case True
    note vv = v(2) [OF True]
    from True v(1) have "\<not> neg" "\<not> ovf" "\<not> EqualTo v 0" by auto
    then show ?thesis
      unfolding CheckProofOfWork_def Let_def assms(4) [symmetric] pow_passes_def using True
      by (cases "ASSETCHAINS_STAKED cfg = 0")
        (simp_all add: assms(5) b lim m c l(2) h(2) vv wv not_less, auto)
  next
    case False
    with v(1) have "neg \<or> EqualTo v 0 \<or> ovf \<or> 0 < CompareTo v ?l" by blast
    with False show ?thesis
      unfolding CheckProofOfWork_def Let_def assms(4) [symmetric] pow_passes_def
      by (simp only: if_False assms(5) b lim option.case prod.case if_True) simp
  qed
qed

lemma notary_easy_None: "notary_easy cfg p env hdr pk h = None \<longleftrightarrow> 34000 < h \<and> isKMD cfg \<and> list_all (\<lambda>b. b = 0) (take 33 pk)"
  by (auto simp: notary_easy_def Let_def filter_empty_conv list_all_iff split: prod.splits)

text \<open>
  C10: the proof-of-work check, exactly, at every height, where height 0 stands for the one after the current tip. On the main chain above
  height 34000 a block passes unchecked when the public key is null. Otherwise the notary rules decide whether the block may use
  the minimum difficulty, and it passes when its bits denote a positive target without overflow that is within the limit, and its
  hash is at most the target (the minimum difficulty on a staked chain), where the comparison with the hash does not count while
  blocks are loaded and on the main chain up to height 792000.
\<close>

theorem CheckProofOfWork_exact:
  fixes env :: notary_env and height :: int
  assumes "length (powLimit p) = 32" and "length (powAlternate p) = 32" and "length (hdr_hash hdr) = 32"
  defines "h \<equiv> if height = 0 then to_int32 (currentheight env + 1) else height"
  shows "CheckProofOfWork cfg p env hdr pk height \<longleftrightarrow>
    34000 < h \<and> isKMD cfg \<and> list_all (\<lambda>b. b = 0) (take 33 pk) \<or>
    (\<exists>easy. notary_easy cfg p env hdr pk h = Some easy \<and>
       pow_passes cfg p hdr h (if easy then KOMODO_MINDIFF_NBITS else hdr_nBits hdr))"
proof (cases "notary_easy cfg p env hdr pk h")
  case None
  then have "CheckProofOfWork cfg p env hdr pk height" by (simp add: CheckProofOfWork_def h_def Let_def)
  with None show ?thesis by (simp add: notary_easy_None)
next
  case (Some easy)
  then have "\<not> (34000 < h \<and> isKMD cfg \<and> list_all (\<lambda>b. b = 0) (take 33 pk))" using notary_easy_None [of cfg p env hdr pk h] by simp
  with Some CheckProofOfWork_passes [OF assms(1-3) h_def [THEN meta_eq_to_obj_eq] Some] show ?thesis by auto
qed

text \<open>Away from the main chain the notary rules never apply, so the check is plain proof of work.\<close>

lemma notary_easy_off: "\<not> isKMD cfg \<Longrightarrow> notary_easy cfg p env hdr pk height = Some False"
  by (simp add: notary_easy_def)

text \<open>The parameters of the main network in \<^verbatim>\<open>chainparams.cpp\<close>, and a chain without notaries.\<close>

definition kmd_params :: pow_params where
  "kmd_params = \<lparr>powLimit = replicate 32 0x0f, powAlternate = replicate 32 0x0f, nHF22Height = Some 2973410,
     nHF22NotariesPriorityRotateDelta = 20, nPowAveragingWindow = 17, nPowMaxAdjustDown = 32, nPowMaxAdjustUp = 16,
     nPowTargetSpacing = 60, nMaxFutureBlockTime = 420\<rparr>"

definition plain_cfg :: chain_cfg where
  "plain_cfg = \<lparr>ASSETCHAINS_ALGO = 0, ASSETCHAINS_EQUIHASH = 0, ASSETCHAINS_BLOCKTIME = 60, ASSETCHAINS_ADAPTIVEPOW = 0,
     ASSETCHAINS_STAKED = 0, isKMD = False, KOMODO_LOADINGBLOCKS = False\<rparr>"

definition no_notaries :: notary_env where
  "no_notaries = \<lparr>chainactive_timestamp = 0, currentheight = 0, chosennotary = (\<lambda>_ _ _. (0, - 1)),
     eligiblenotary = (\<lambda>_. (0, replicate 66 0, replicate 66 0)), is_special = (\<lambda>_ _ _ _ _. 0)\<rparr>"

lemma kmd_params_sane: "sane_params kmd_params"
  by (simp add: sane_params_def kmd_params_def)

lemma plain_cfg_simps [simp]:
  "sane_blocktime plain_cfg" "ASSETCHAINS_ADAPTIVEPOW plain_cfg = 0" "isKMD plain_cfg = False"
  by (simp_all add: sane_blocktime_def plain_cfg_def)

lemma le_val_replicate: "255 * le_val (replicate n b) = unat b * (256 ^ n - 1)"
proof (induction n)
  case (Suc n)
  have "255 * le_val (replicate (Suc n) b) = 255 * unat b + 256 * (255 * le_val (replicate n b))" by simp
  also have "\<dots> = unat b * (255 + 256 * (256 ^ n - 1))" unfolding Suc by (simp add: algebra_simps)
  also have "255 + 256 * (256 ^ n - 1) = (256 ^ Suc n - 1 :: nat)"
    using one_le_power [of "256 :: nat" n] by (simp add: diff_mult_distrib2)
  finally show ?case .
qed simp

lemma le_val_replicate32: "le_val (replicate 32 b) = unat b * (256 ^ 32 - 1) div 255"
  using le_val_replicate [of 32 b] by (metis nonzero_mult_div_cancel_left numeral_neq_zero)

theorem CheckProofOfWork_exact_witness:
  "CheckProofOfWork plain_cfg kmd_params no_notaries
     \<lparr>hdr_nTime = 0, hdr_nBits = 0x1f010000, hdr_hash = replicate 32 0\<rparr> [] 0 \<and>
   CheckProofOfWork (plain_cfg\<lparr>isKMD := True\<rparr>) kmd_params no_notaries
     \<lparr>hdr_nTime = 0, hdr_nBits = 0, hdr_hash = replicate 32 255\<rparr> (replicate 33 0) 34001"
proof
  show "CheckProofOfWork plain_cfg kmd_params no_notaries \<lparr>hdr_nTime = 0, hdr_nBits = 0x1f010000, hdr_hash = replicate 32 0\<rparr> [] 0"
    by (subst CheckProofOfWork_exact)
      (simp_all add: kmd_params_def notary_easy_off plain_cfg_def limit_for_def valid_bits_def compact_value_def pow_passes_def no_notaries_def
        compact_exp_def compact_mant_def bit_iff_odd_drop_bit drop_bit_eq_div le_val_replicate32 exI [of _ False])
  show "CheckProofOfWork (plain_cfg\<lparr>isKMD := True\<rparr>) kmd_params no_notaries \<lparr>hdr_nTime = 0, hdr_nBits = 0, hdr_hash = replicate 32 255\<rparr> (replicate 33 0) 34001"
    by (subst CheckProofOfWork_exact) (simp_all add: kmd_params_def list_all_iff in_set_replicate)
qed

text \<open>
  C11: \<^verbatim>\<open>GetNextWorkRequired\<close> always returns: with the consensus parameters of a real chain and a block time of at
  most 1000 seconds no division by zero, no failed assertion and no read past the tables of the last 64
  blocks happens, on any chain, with or without adaptive proof of work.
\<close>

theorem GetNextWorkRequired_total:
  assumes "sane_params p" and "nPowAveragingWindow p \<le> 64" and "sane_blocktime cfg"
  shows "\<exists>n. GetNextWorkRequired cfg p chain pblock = Some n"
  by (rule GetNextWorkRequired_some [OF assms])

theorem GetNextWorkRequired_total_witness:
  "\<exists>n. GetNextWorkRequired (plain_cfg\<lparr>ASSETCHAINS_ADAPTIVEPOW := 1\<rparr>) kmd_params
         (replicate 100 \<lparr>nHeight = 99, nTime = 5, nBits = 0x1f010000, nChainWork = base_uint_zero\<rparr>) (Some 70) = Some n"
  by (rule GetNextWorkRequired_total [OF kmd_params_sane])
    (simp_all add: kmd_params_def sane_blocktime_def plain_cfg_def)

text \<open>
  Without adaptive proof of work the required bits always decode, without sign or overflow, to a target that
  is at most the proof-of-work limit of the chain's algorithm.
\<close>

lemma GetNextWorkRequired_limit:
  assumes "sane_params p" and "nPowAveragingWindow p < 2 ^ 32" and "ASSETCHAINS_ADAPTIVEPOW cfg \<le> 0"
  shows "\<exists>c v. GetNextWorkRequired cfg p chain pblock = Some c \<and> SetCompact c = (v, False, False) \<and>
    uval v \<le> uval (bn_limit cfg p)"
  using GetNextWorkRequired_nonadaptive [OF assms] GetCompact_decode order_trans by metis

text \<open>
  C13: one retargeting step, exactly, for every average and every pair of times: the average target over the averaging time span,
  times a time span, modulo \<open>2 ^ 256\<close>, capped at the limit. The time span is the averaging one moved by a quarter of the
  deviation. Without adaptive proof of work it is held between \<^verbatim>\<open>MinActualTimespan\<close> and \<^verbatim>\<open>MaxActualTimespan\<close>, which lie on either side of the
  averaging one. With adaptive proof of work it is not held, and its low 32 bits are what is multiplied.
\<close>

theorem CalculateNextWorkRequired_bounds:
  fixes nLastBlockTime nFirstBlockTime :: int
  assumes "sane_params p" and "wf_limbs bnAvg"
  defines "A \<equiv> AveragingWindowTimespan p" and "lo \<equiv> MinActualTimespan p" and "hi \<equiv> MaxActualTimespan p"
  defines "moved \<equiv> to_int64 (A + cdiv (to_int64 (to_int64 (nLastBlockTime - nFirstBlockTime) - A)) 4)"
  shows "0 < A \<and> 0 \<le> lo \<and> lo \<le> A \<and> A \<le> hi \<and> hi < 2 ^ 32 \<and>
    (\<exists>r. CalculateNextWorkRequired cfg p bnAvg nLastBlockTime nFirstBlockTime = GetCompact r False \<and> wf_limbs r \<and>
      uval r = min (uval bnAvg div nat A *
          (if ASSETCHAINS_ADAPTIVEPOW cfg \<le> 0 then nat (max lo (min hi moved)) else nat (moved mod 2 ^ 32)) mod 2 ^ 256)
        (uval (bn_limit cfg p)))"
proof -
  note sane = sane_timespans [OF assms(1)]
  have "0 < A" "0 \<le> lo" "lo \<le> A" "A \<le> hi" "hi < 2 ^ 32" using sane unfolding A_def lo_def hi_def by linarith+
  with CalculateNextWorkRequired_value [OF assms(1,2)] show ?thesis unfolding A_def lo_def hi_def moved_def by blast
qed

theorem CalculateNextWorkRequired_bounds_witness:
  "\<exists>r. CalculateNextWorkRequired plain_cfg kmd_params (base_uint_of 1000000) 5 0 = GetCompact r False \<and>
    uval r = min (1000000 div 1020 * nat (max 856 (min 1346 766))) (uval (bn_limit plain_cfg kmd_params))"
  using CalculateNextWorkRequired_bounds [OF kmd_params_sane, of "base_uint_of 1000000" plain_cfg 5 0]
  by (simp add: wf_limbs_def AveragingWindowTimespan_def MaxActualTimespan_def MinActualTimespan_def kmd_params_def cdiv_def) blast

text \<open>
  The outer and inner triggers of the adaptive algorithm return on every table of targets and never raise the
  target. An outer trigger at least halves it and is flagged with 2, an inner one is flagged with 1, and a
  target that is kept has the flag 0.
\<close>

lemma adaptive_triggers_lower:
  assumes "sane_blocktime cfg" and "wf_tables z" and "wf_limbs t"
  shows "\<exists>t1 f1 t2 f2. outer_adjust cfg time z t = Some (t1, f1) \<and> inner_adjust cfg time z t = Some (t2, f2) \<and>
    (t1 = t \<or> uval t1 \<le> uval t div 2) \<and> uval t2 \<le> uval t \<and>
    f1 = (if uval t1 < uval t then 2 else 0) \<and> f2 = (if uval t2 < uval t then 1 else 0)"
proof -
  have w: "wf_limbs (ct z ! 0)" using wf_tables_nth [OF assms(2)] by simp
  obtain t1 f1 where "outer_adjust cfg time z t = Some (t1, f1)" using outer_adjust_total [OF assms(1,3,2)] by blast
  with outer_adjust_lowers [OF this assms(3) w] inner_adjust_lowers [OF assms] show ?thesis by blast
qed

text \<open>
  C16: the priority list of the notaries is always a permutation of the 64 notary ids, and a notary that may mine a
  second block at some time may do so at every later time.
\<close>

theorem second_block_fair:
  "set (priority_list mids) = int ` {0..<64} \<and> distinct (priority_list mids) \<and>
   (isSecondBlockAllowed n t1 threshold delta (priority_list mids) \<and> t1 \<le> t2 \<longrightarrow>
    isSecondBlockAllowed n t2 threshold delta (priority_list mids))"
  using priority_list_perm [of mids] allowed_later [of n t1 threshold delta "priority_list mids" t2] by (simp only:) simp

theorem second_block_fair_witness:
  "isSecondBlockAllowed 3 2000 0 20 (priority_list (replicate 66 (- 1)))"
proof -
  have "isSecondBlockAllowed 3 1300 0 20 (priority_list (replicate 66 (- 1)))"
    using priority_list_perm [of "replicate 66 (- 1)"] by (simp add: isSecondBlockAllowed_def Let_def)
  with second_block_fair [of "replicate 66 (- 1)" 3 1300 0 20 2000] show ?thesis by simp
qed

text \<open>
  The equivalent time of a difference in chain work, at the speed of the tip, is that difference times the
  target spacing over the work of the tip, rounded down, with its sign, and clamped to the range of a signed
  64-bit number.
\<close>

lemma GetBlockProofEquivalentTime_exact:
  assumes "wf_limbs (nChainWork b)" and "wf_limbs (nChainWork a)" and "valid_bits (nBits tip)"
    and "0 < nPowTargetSpacing p" and "nPowTargetSpacing p < 2 ^ 63"
  defines "x \<equiv> uval (nChainWork b)" and "y \<equiv> uval (nChainWork a)"
    and "w \<equiv> 2 ^ 256 div (compact_value (unat (nBits tip)) + 1)"
  assumes "(if y < x then x - y else y - x) * nat (nPowTargetSpacing p) < 2 ^ 256"
  shows "GetBlockProofEquivalentTime b a tip p =
    Some ((if y < x then 1 else - 1) *
          min (2 ^ 63 - 1) (int ((if y < x then x - y else y - x) * nat (nPowTargetSpacing p) div w)))"
proof -
  let ?s = "nPowTargetSpacing p" and ?d = "if y < x then x - y else y - x"
  define r0 where "r0 = (if y < x then uint_sub (nChainWork b) (nChainWork a) else uint_sub (nChainWork a) (nChainWork b))"
  have len: "length (nChainWork b) = length (nChainWork a)" using assms(1,2) by (simp add: wf_limbs_def)
  have r0: "wf_limbs r0" "uval r0 = ?d"
    using wf_sub assms(1,2) uval_sub [OF len] uval_sub [OF len [symmetric]] by (simp_all add: r0_def x_def y_def)
  obtain pr where pr: "GetBlockProof tip = Some pr" "wf_limbs pr" "uval pr = w"
    using GetBlockProof_work [of tip] assms(3) by (auto simp: w_def)
  have "compact_value (unat (nBits tip)) + 1 \<le> 2 ^ 256" using assms(3) by (simp add: valid_bits_def)
  then have w: "0 < w" unfolding w_def by (simp add: div_greater_zero_iff)
  define m where "m = uint_mul r0 (arith_of ?s)"
  have m: "wf_limbs m" "uval m = ?d * nat ?s"
    using arith256.val_mul [OF r0(1) wf_arith_of, of ?s] assms(4,5,9) arith_of_nonneg [of ?s] r0(2) by (auto simp: m_def)
  obtain r where r: "uint_div m pr = Some r" "wf_limbs r" "uval r = ?d * nat ?s div w"
    using arith256.val_dv [OF m(1) pr(2)] m(2) pr(3) w by auto
  have rl: "length r = WIDTH" using r(2) by (simp add: wf_limbs_def)
  have c: "0 < CompareTo (nChainWork b) (nChainWork a) \<longleftrightarrow> y < x"
    using arith256.val_cmp [OF assms(1,2)] by (simp add: x_def y_def)
  have eq: "GetBlockProofEquivalentTime b a tip p = Some (if 63 < uint_bits r then (if y < x then 1 else - 1) * (2 ^ 63 - 1)
      else to_int64 ((if y < x then 1 else - 1) * uint (GetLow64 r)))"
    unfolding GetBlockProofEquivalentTime_def c Let_def using pr(1) r(1)
    by (cases "y < x") (simp_all add: m_def r0_def)
  show ?thesis
  proof (cases "63 < uint_bits r")
    case True
    then have "uval r \<noteq> 0" using uint_bits_zero [OF rl] by auto
    with uint_bits_bound(3) [OF rl] have "2 ^ (uint_bits r - 1) \<le> uval r" by simp
    moreover have "(2 :: nat) ^ 63 \<le> 2 ^ (uint_bits r - 1)" using True by (intro power_increasing) simp_all
    ultimately have "2 ^ 63 \<le> int (uval r)" by simp
    then show ?thesis unfolding eq r(3) [symmetric] using True by simp
  next
    case False
    then have "(2 :: nat) ^ uint_bits r \<le> 2 ^ 63" by (intro power_increasing) simp_all
    with uint_bits_bound(1) [OF rl] have lt: "uval r < 2 ^ 63" by linarith
    then have "unat (GetLow64 r) = uval r" using GetLow64_uval [OF rl] by simp
    then have u: "uint (GetLow64 r) = int (uval r)" by (metis uint_nat)
    show ?thesis unfolding eq r(3) [symmetric] u using False lt by simp
  qed
qed

lemma pow3_exact: "k \<le> 20 \<Longrightarrow> ((\<lambda>a. to_int64 (a * 3)) ^^ k) 1 = 3 ^ k"
proof (induction k)
  case (Suc k)
  have small: "to_int64 x = x" if "x \<le> 3486784401" "0 < x" for x using that by simp
  have "(3 :: int) ^ Suc k \<le> 3 ^ 20" using Suc.prems by (intro power_increasing) simp_all
  then have "(3 :: int) ^ k * 3 \<le> 3486784401" "0 < (3 :: int) ^ k * 3" by simp_all
  then have "to_int64 (3 ^ k * 3) = 3 ^ k * 3" by (rule small)
  then show ?case using Suc by simp
qed simp

text \<open>
  For a block time of at most 100 seconds the integer approximation of the exponential computes its formula
  over the integers, without overflow, for exponents up to 20.
\<close>

lemma zawy_exponential_exact:
  assumes "1 \<le> ASSETCHAINS_BLOCKTIME cfg" and "ASSETCHAINS_BLOCKTIME cfg \<le> 100"
    and "0 \<le> num" and "num div ASSETCHAINS_BLOCKTIME cfg \<le> 20"
  defines "T \<equiv> ASSETCHAINS_BLOCKTIME cfg" and "m \<equiv> num mod ASSETCHAINS_BLOCKTIME cfg"
  shows "zawy_exponential_val360000 cfg num =
    Some (3 ^ nat (num div T) * (360000 + 396000 * m div T + 216000 * m * m div (T * T)))"
proof -
  have T: "1 \<le> T" "T \<le> 100" using assms(1,2) by (simp_all add: T_def)
  have m: "0 \<le> m" "m < T" using T pos_mod_bound [of T num] by (simp_all add: m_def T_def)
  then have m99: "m \<le> 99" using T by linarith
  have mm: "m * m \<le> 99 * 99" "0 \<le> m * m" using mult_mono [of m 99 m 99] m m99 by simp_all
  have TT: "0 < T * T" "T * T \<le> 100 * 100" using T mult_mono [of T 100 T 100] by simp_all
  have n: "nat (num div T) \<le> 20" using assms(4) by (simp add: T_def)
  have cm: "cmod num T = m" using assms(3) T by (simp add: cmod_def m_def T_def minus_div_mult_eq_mod)
  have cd: "cdiv num T = num div T" using assms(3) T by simp
  let ?b1 = "396000 * m div T" and ?b2 = "216000 * m * m div (T * T)"
  have b1: "0 \<le> ?b1" "?b1 \<le> 396000 * 99" using T m m99 zdiv_mono2 [of "396000 * m" 1 T] by (auto simp: pos_imp_zdiv_nonneg_iff)
  have b2: "0 \<le> ?b2" "?b2 \<le> 216000 * (99 * 99)" using TT mm zdiv_mono2 [of "216000 * m * m" 1 "T * T"]
    by (auto simp: pos_imp_zdiv_nonneg_iff mult.assoc)
  have p20: "(3 :: int) ^ nat (num div T) \<le> 3 ^ 20" using n by (intro power_increasing) simp_all
  have "3 ^ nat (num div T) * (360000 + ?b1 + ?b2) \<le> 3 ^ 20 * (360000 + 396000 * 99 + 216000 * (99 * 99))"
    using b1 b2 p20 by (intro mult_mono) auto
  moreover have "0 \<le> 3 ^ nat (num div T) * (360000 + ?b1 + ?b2)" using b1 b2 by simp
  ultimately have big: "to_int64 (3 ^ nat (num div T) * (360000 + ?b1 + ?b2)) = 3 ^ nat (num div T) * (360000 + ?b1 + ?b2)"
    by (intro to_int64_id) simp_all
  have i32: "to_int32 x = x" if "0 \<le> x" "x \<le> 2117016000" for x using that by simp
  have i0: "to_int32 (216000 * m) = 216000 * m" by (rule i32) (use m m99 in simp_all)
  have i1: "to_int32 (396000 * m) = 396000 * m" by (rule i32) (use m m99 in simp_all)
  have i2: "to_int32 (216000 * m * m) = 216000 * m * m" by (rule i32) (use mm in \<open>simp_all add: mult.assoc\<close>)
  have i3: "to_int32 (T * T) = T * T" by (rule i32) (use TT in simp_all)
  note i = i0 i1 i2 i3
  show ?thesis
    unfolding zawy_exponential_val360000_def T_def [symmetric] Let_def
    using T TT m mm big by (cases "m = 0") (simp_all add: idiv_def imod_def cd cm pow3_exact [OF n] i big)
qed

text \<open>With a longer block time the 32-bit square overflows, and the curve is no longer increasing.\<close>

lemma zawy_exponential_overflow:
  "zawy_exponential_val360000 (plain_cfg\<lparr>ASSETCHAINS_BLOCKTIME := 120\<rparr>) 99 = Some 833715"
  "zawy_exponential_val360000 (plain_cfg\<lparr>ASSETCHAINS_BLOCKTIME := 120\<rparr>) 100 = Some 541739"
  by (simp_all add: zawy_exponential_val360000_def plain_cfg_def idiv_def imod_def cmod_def to_int32_def to_int64_def cdiv_def)

end
