(* ===== verification/Serialize.thy ===== *)
theory Serialize
  imports Prelude "HOL-Library.Monad_Syntax"
begin

text \<open>
  The serialization templates of \<^verbatim>\<open>src/src/serialize.h\<close>: integers, compact sizes, variable-length integers, byte vectors,
  vectors and arrays. A writer gives the bytes that an object adds to a stream; a reader takes the bytes that are
  left of a stream and gives the object and the bytes after it, or \<^const>\<open>None\<close> where the source throws
  \<^verbatim>\<open>std::ios_base::failure\<close>.
\<close>

type_synonym 'a reader = "bytes \<Rightarrow> ('a \<times> bytes) option"

named_theorems ser_simps \<open>reading back what a writer wrote\<close>

section \<open>Integers and raw bytes\<close>

text \<open>\<^verbatim>\<open>s.read\<close> of a fixed number of bytes.\<close>

definition ser_read :: "nat \<Rightarrow> bytes reader" where
  "ser_read n s = (if length s < n then None else Some (take n s, drop n s))"

definition ser_readdata8 :: "byte reader" where
  "ser_readdata8 s = (case s of [] \<Rightarrow> None | b # s' \<Rightarrow> Some (b, s'))"

definition ser_readdata16 :: "u16 reader" where
  "ser_readdata16 s = map_option (\<lambda>(obj, s'). (ReadLE16 obj, s')) (ser_read 2 s)"

definition ser_readdata32 :: "u32 reader" where
  "ser_readdata32 s = map_option (\<lambda>(obj, s'). (ReadLE32 obj, s')) (ser_read 4 s)"

definition ser_readdata64 :: "u64 reader" where
  "ser_readdata64 s = map_option (\<lambda>(obj, s'). (ReadLE64 obj, s')) (ser_read 8 s)"

definition ser_writedata8 :: "byte \<Rightarrow> bytes" where "ser_writedata8 obj = [obj]"
definition ser_writedata16 :: "u16 \<Rightarrow> bytes" where "ser_writedata16 obj = WriteLE16 obj"
definition ser_writedata32 :: "u32 \<Rightarrow> bytes" where "ser_writedata32 obj = WriteLE32 obj"
definition ser_writedata64 :: "u64 \<Rightarrow> bytes" where "ser_writedata64 obj = WriteLE64 obj"

text \<open>\<^verbatim>\<open>Serialize\<close> and \<^verbatim>\<open>Unserialize\<close> of the signed integers.\<close>

definition Serialize_int32 :: "int \<Rightarrow> bytes" where
  "Serialize_int32 a = ser_writedata32 (word_of_int a)"

definition Serialize_int64 :: "int \<Rightarrow> bytes" where
  "Serialize_int64 a = ser_writedata64 (word_of_int a)"

definition Unserialize_int64 :: "int reader" where
  "Unserialize_int64 s = map_option (\<lambda>(a, s'). (sint a, s')) (ser_readdata64 s)"

section \<open>Compact sizes\<close>

definition MAX_SIZE :: nat where "MAX_SIZE = 0x02000000"

definition GetSizeOfCompactSize :: "nat \<Rightarrow> nat" where
  "GetSizeOfCompactSize nSize =
     (if nSize < 253 then 1 else if nSize \<le> 0xFFFF then 3 else if nSize \<le> 0xFFFFFFFF then 5 else 9)"

definition WriteCompactSize :: "nat \<Rightarrow> bytes" where
  "WriteCompactSize nSize =
     (if nSize < 253 then ser_writedata8 (word_of_nat nSize)
      else if nSize \<le> 0xFFFF then ser_writedata8 253 @ ser_writedata16 (word_of_nat nSize)
      else if nSize \<le> 0xFFFFFFFF then ser_writedata8 254 @ ser_writedata32 (word_of_nat nSize)
      else ser_writedata8 255 @ ser_writedata64 (word_of_nat nSize))"

definition ReadCompactSize :: "bool \<Rightarrow> nat reader" where
  "ReadCompactSize range_check s = do {
     (chSize, s1) \<leftarrow> ser_readdata8 s;
     (nSizeRet, s2) \<leftarrow>
       (if chSize < 253 then Some (unat chSize, s1)
        else if chSize = 253 then do {
          (n, s2) \<leftarrow> ser_readdata16 s1;
          if unat n < 253 then None else Some (unat n, s2) }
        else if chSize = 254 then do {
          (n, s2) \<leftarrow> ser_readdata32 s1;
          if unat n < 0x10000 then None else Some (unat n, s2) }
        else do {
          (n, s2) \<leftarrow> ser_readdata64 s1;
          if unat n < 0x100000000 then None else Some (unat n, s2) });
     if range_check \<and> MAX_SIZE < nSizeRet then None else Some (nSizeRet, s2)
   }"

section \<open>Variable-length integers\<close>

text \<open>
  \<^verbatim>\<open>GetSizeOfVarInt\<close>, \<^verbatim>\<open>WriteVarInt\<close> and \<^verbatim>\<open>ReadVarInt\<close> at the type \<^verbatim>\<open>uint64_t\<close>. The writer fills \<^verbatim>\<open>tmp\<close> from the last digit and
  writes it backwards.
\<close>

function GetSizeOfVarInt :: "u64 \<Rightarrow> nat" where
  "GetSizeOfVarInt n = (if n \<le> 0x7F then 1 else 1 + GetSizeOfVarInt (drop_bit 7 n - 1))"
  by pat_completeness auto

function varint_tmp :: "nat \<Rightarrow> u64 \<Rightarrow> bytes" where
  "varint_tmp len n =
     ((ucast (n AND 0x7F)) OR (if len \<noteq> 0 then 0x80 else 0x00)) #
     (if n \<le> 0x7F then [] else varint_tmp (len + 1) (drop_bit 7 n - 1))"
  by pat_completeness auto

lemma varint_next: "\<not> n \<le> 0x7F \<Longrightarrow> unat (drop_bit 7 n - 1 :: u64) = unat n div 128 - 1"
proof -
  assume "\<not> n \<le> 0x7F"
  then have "128 \<le> unat n" by (simp add: word_le_nat_alt)
  moreover have "unat (drop_bit 7 n) = unat n div 128" by (simp add: drop_bit_eq_div unat_div)
  moreover have "(1 :: u64) \<le> drop_bit 7 n" using calculation by (simp add: word_le_nat_alt)
  ultimately show ?thesis by (simp add: unat_sub)
qed

lemma varint_less: "\<not> n \<le> 0x7F \<Longrightarrow> unat (drop_bit 7 n - 1 :: u64) < unat n"
  unfolding varint_next by (cases "unat n") (auto simp: word_le_nat_alt)

termination GetSizeOfVarInt
  by (relation "measure unat") (auto intro: varint_less)

termination varint_tmp
  by (relation "measure (unat \<circ> snd)") (auto intro: varint_less)

declare GetSizeOfVarInt.simps [simp del] varint_tmp.simps [simp del]

definition WriteVarInt :: "u64 \<Rightarrow> bytes" where
  "WriteVarInt n = rev (varint_tmp 0 n)"

fun varint_loop :: "u64 \<Rightarrow> u64 reader" where
  "varint_loop n [] = None"
| "varint_loop n (chData # s) =
     (let n' = push_bit 7 n OR ucast (chData AND 0x7F)
      in if chData AND 0x80 \<noteq> 0 then varint_loop (n' + 1) s else Some (n', s))"

definition ReadVarInt :: "u64 reader" where
  "ReadVarInt s = varint_loop 0 s"

section \<open>Vectors and arrays\<close>

definition Serialize_bytes :: "bytes \<Rightarrow> bytes" where
  "Serialize_bytes v = WriteCompactSize (length v) @ v"

text \<open>The loop that reads a byte vector in pieces of at most five million bytes.\<close>

function read_blocks :: "nat \<Rightarrow> bytes \<Rightarrow> bytes reader" where
  "read_blocks nSize v s =
     (if length v < nSize
      then let blk = min (nSize - length v) (1 + 4999999)
           in case ser_read blk s of None \<Rightarrow> None | Some (d, s') \<Rightarrow> read_blocks nSize (v @ d) s'
      else Some (v, s))"
  by pat_completeness auto
termination
  by (relation "measure (\<lambda>(nSize, v, _). nSize - length v)") (auto simp: ser_read_def split: if_splits)

declare read_blocks.simps [simp del]

definition Unserialize_bytes :: "bytes reader" where
  "Unserialize_bytes s = do {
     (nSize, s1) \<leftarrow> ReadCompactSize True s;
     read_blocks nSize [] s1
   }"

definition Serialize_vec :: "('a \<Rightarrow> bytes) \<Rightarrow> 'a list \<Rightarrow> bytes" where
  "Serialize_vec ser v = WriteCompactSize (length v) @ concat (map ser v)"

text \<open>Reading \<open>n\<close> elements in order: the elements of an array, or of a vector once its size is known.\<close>

primrec read_n :: "nat \<Rightarrow> 'a reader \<Rightarrow> 'a list reader" where
  "read_n 0 unser s = Some ([], s)"
| "read_n (Suc n) unser s = do {
     (x, s1) \<leftarrow> unser s;
     (xs, s2) \<leftarrow> read_n n unser s1;
     Some (x # xs, s2)
   }"

lemma length_read_n: "read_n n unser s = Some (xs, s') \<Longrightarrow> length xs = n"
  by (induction n arbitrary: s xs) (auto split: bind_splits)

text \<open>
  The loop of a vector of other elements: \<^verbatim>\<open>nMid\<close> grows in steps of \<open>step\<close>, which is \<^verbatim>\<open>5000000 / sizeof(T)\<close> and positive for
  every type that is serialized, and the elements up to it are read.
\<close>

function read_vec :: "nat \<Rightarrow> 'a reader \<Rightarrow> nat \<Rightarrow> 'a list \<Rightarrow> 'a list reader" where
  "read_vec step unser nSize v s =
     (if length v < nSize \<and> 0 < step
      then let nMid = min (length v + step) nSize
           in case read_n (nMid - length v) unser s of
                None \<Rightarrow> None | Some (xs, s') \<Rightarrow> read_vec step unser nSize (v @ xs) s'
      else Some (v, s))"
  by pat_completeness auto
termination
  by (relation "measure (\<lambda>(_, _, nSize, v, _). nSize - length v)") (auto dest: length_read_n)

declare read_vec.simps [simp del]

definition Unserialize_vec :: "nat \<Rightarrow> 'a reader \<Rightarrow> 'a list reader" where
  "Unserialize_vec step unser s = do {
     (nSize, s1) \<leftarrow> ReadCompactSize True s;
     read_vec step unser nSize [] s1
   }"

section \<open>Codecs\<close>

text \<open>
  What a class that is serialized promises: reading gives back what was written, whatever follows in the stream, and
  every sequence of bytes that is accepted is the one that writing the result gives.
\<close>

locale codec =
  fixes wf :: "'a \<Rightarrow> bool" and wr :: "'a \<Rightarrow> bytes" and rd :: "'a reader"
  assumes rd_wr: "wf x \<Longrightarrow> rd (wr x @ rest) = Some (x, rest)"
    and wr_rd: "rd s = Some (x, rest) \<Longrightarrow> wf x \<and> s = wr x @ rest"
begin

lemma prefix_free: "wf x \<Longrightarrow> wf y \<Longrightarrow> wr x @ r = wr y @ r' \<Longrightarrow> x = y \<and> r = r'"
  by (metis Pair_inject option.inject rd_wr)

lemma wr_inj: "wf x \<Longrightarrow> wf y \<Longrightarrow> wr x = wr y \<Longrightarrow> x = y"
  using prefix_free [of x y "[]" "[]"] by simp

lemma concat_prefix_free:
  assumes "list_all (\<lambda>x. wf x \<and> wr x \<noteq> []) xs" and "list_all (\<lambda>x. wf x \<and> wr x \<noteq> []) ys" and "length r = length r'"
    and "concat (map wr xs) @ r = concat (map wr ys) @ r'"
  shows "xs = ys \<and> r = r'"
  using assms
proof (induction xs arbitrary: ys)
  case Nil
  from Nil.prems(4) have "length (concat (map wr ys) @ r') = length r" by simp
  then show ?case using Nil.prems by (cases ys) auto
next
  case (Cons x xs)
  from Cons.prems(4) have len: "length (wr x @ concat (map wr xs) @ r) = length (concat (map wr ys) @ r')" by simp
  show ?case
  proof (cases ys)
    case Nil
    then show ?thesis using Cons.prems(1,3) len by simp
  next
    case (Cons y zs)
    have "x = y \<and> concat (map wr xs) @ r = concat (map wr zs) @ r'"
      by (rule prefix_free) (use Cons.prems Cons in simp_all)
    then show ?thesis using Cons.IH [of zs] Cons.prems(1-3) Cons by simp
  qed
qed

lemma read_n_wr: "list_all wf xs \<Longrightarrow> read_n (length xs) rd (concat (map wr xs) @ rest) = Some (xs, rest)"
  by (induction xs) (simp_all add: rd_wr)

lemma read_n_rd: "read_n n rd s = Some (xs, rest) \<Longrightarrow> length xs = n \<and> list_all wf xs \<and> s = concat (map wr xs) @ rest"
  by (induction n arbitrary: s xs) (auto split: bind_splits dest!: wr_rd)

lemma array_codec: "codec (\<lambda>xs. length xs = n \<and> list_all wf xs) (\<lambda>xs. concat (map wr xs)) (read_n n rd)"
  by unfold_locales (use read_n_wr read_n_rd in auto)

end

section \<open>Integers\<close>

lemma word_le_bytes:
  assumes "length d = n" and "LENGTH('a) = 8 * n"
  shows "le_bytes n (unat (word_of_nat (le_val d) :: 'a::len word)) = d"
proof -
  have "le_val d < 2 ^ LENGTH('a)" using le_val_bound [of d] assms by (simp add: power_mult)
  then show ?thesis using le_bytes_le_val [of d] assms by (simp add: unat_of_nat take_bit_nat_eq_self)
qed

lemma write_read [simp]:
  "length d = 2 \<Longrightarrow> WriteLE16 (ReadLE16 d) = d" "length d = 4 \<Longrightarrow> WriteLE32 (ReadLE32 d) = d"
  "length d = 8 \<Longrightarrow> WriteLE64 (ReadLE64 d) = d"
  by (simp_all add: WriteLE16_def ReadLE16_def WriteLE32_def ReadLE32_def WriteLE64_def ReadLE64_def word_le_bytes)

lemma read_write [simp]: "ReadLE16 (WriteLE16 x) = x" "ReadLE32 (WriteLE32 y) = y" "ReadLE64 (WriteLE64 z) = z"
  using ReadLE16_Write [of x "[]"] ReadLE32_Write [of y "[]"] ReadLE64_Write [of z "[]"] by simp_all

interpretation blob: codec "\<lambda>v. length v = n" "\<lambda>v. v" "ser_read n" for n
  by unfold_locales (auto simp: ser_read_def split: if_splits)

interpretation u8: codec "\<lambda>_. True" ser_writedata8 ser_readdata8
  by unfold_locales (auto simp: ser_writedata8_def ser_readdata8_def split: list.splits)

interpretation le16: codec "\<lambda>_. True" ser_writedata16 ser_readdata16
  by unfold_locales (auto simp: ser_writedata16_def ser_readdata16_def blob.rd_wr dest!: blob.wr_rd)

interpretation le32: codec "\<lambda>_. True" ser_writedata32 ser_readdata32
  by unfold_locales (auto simp: ser_writedata32_def ser_readdata32_def blob.rd_wr dest!: blob.wr_rd)

interpretation le64: codec "\<lambda>_. True" ser_writedata64 ser_readdata64
  by unfold_locales (auto simp: ser_writedata64_def ser_readdata64_def blob.rd_wr dest!: blob.wr_rd)

definition is_int64 :: "int \<Rightarrow> bool" where
  "is_int64 v \<longleftrightarrow> - (2 ^ 63) \<le> v \<and> v < 2 ^ 63"

lemma is_int64_sint: "is_int64 (sint (w :: u64))"
  using sint_ge [of w] sint_less [of w] by (simp add: is_int64_def)

lemma sint_of_int64: "is_int64 v \<Longrightarrow> sint (word_of_int v :: u64) = v"
  by (simp add: is_int64_def sint_sbintrunc' signed_take_bit_int_eq_self)

interpretation i64: codec is_int64 Serialize_int64 Unserialize_int64
  by unfold_locales
    (auto simp: Serialize_int64_def Unserialize_int64_def le64.rd_wr sint_of_int64 is_int64_sint dest!: le64.wr_rd)

section \<open>Compact sizes\<close>

lemma length_WriteCompactSize: "length (WriteCompactSize n) = GetSizeOfCompactSize n"
  by (simp add: WriteCompactSize_def GetSizeOfCompactSize_def ser_writedata8_def ser_writedata16_def ser_writedata32_def
      ser_writedata64_def)

lemma unat_word_of_nat: "n < 2 ^ LENGTH('a) \<Longrightarrow> unat (word_of_nat n :: 'a::len word) = n"
  by (simp add: unat_of_nat take_bit_nat_eq_self)

lemma ReadCompactSize_write:
  assumes "n < 2 ^ 64" and "rc \<longrightarrow> n \<le> MAX_SIZE"
  shows "ReadCompactSize rc (WriteCompactSize n @ rest) = Some (n, rest)"
proof -
  consider "n < 253" | "253 \<le> n" "n \<le> 0xFFFF" | "0xFFFF < n" "n \<le> 0xFFFFFFFF" | "0xFFFFFFFF < n" by linarith
  then show ?thesis
    using assms
    by cases (auto simp: ReadCompactSize_def WriteCompactSize_def u8.rd_wr le16.rd_wr le32.rd_wr le64.rd_wr
        unat_word_of_nat word_less_nat_alt)
qed

lemma byte_255: "\<not> c < 253 \<Longrightarrow> c \<noteq> 253 \<Longrightarrow> c \<noteq> 254 \<Longrightarrow> c = (255 :: byte)"
  using unat_bound [of c] by (auto simp: word_less_nat_alt word_unat_eq_iff)

lemma WriteCompactSize_read:
  assumes "ReadCompactSize rc s = Some (n, rest)"
  shows "s = WriteCompactSize n @ rest \<and> (rc \<longrightarrow> n \<le> MAX_SIZE) \<and> n < 2 ^ 64"
proof -
  obtain c s1 where c: "ser_readdata8 s = Some (c, s1)" using assms by (auto simp: ReadCompactSize_def split: bind_splits)
  then have s: "s = ser_writedata8 c @ s1" by (auto dest: u8.wr_rd)
  have b: "unat (x :: u16) < 65536" "unat (y :: u32) < 4294967296" "unat (z :: u64) < 18446744073709551616" "unat c < 256"
    for x y z using unat_bound [of x] unat_bound [of y] unat_bound [of z] unat_bound [of c] by simp_all
  consider "c < 253" | "c = 253" | "c = 254" | "c = 255" using byte_255 by blast
  then show ?thesis
  proof cases
    case 1
    then show ?thesis using assms c s b(4)
      by (auto simp: ReadCompactSize_def WriteCompactSize_def word_less_nat_alt split: if_splits)
  next
    case 2
    then obtain x where "ser_readdata16 s1 = Some (x, rest)" "n = unat x" "253 \<le> n" "rc \<longrightarrow> n \<le> MAX_SIZE"
      using assms c by (auto simp: ReadCompactSize_def split: bind_splits if_splits)
    then show ?thesis using s 2 b(1) [of x] by (auto simp: WriteCompactSize_def dest: le16.wr_rd)
  next
    case 3
    then obtain x where "ser_readdata32 s1 = Some (x, rest)" "n = unat x" "0x10000 \<le> n" "rc \<longrightarrow> n \<le> MAX_SIZE"
      using assms c by (auto simp: ReadCompactSize_def split: bind_splits if_splits)
    then show ?thesis using s 3 b(2) [of x] by (auto simp: WriteCompactSize_def dest: le32.wr_rd)
  next
    case 4
    then obtain x where "ser_readdata64 s1 = Some (x, rest)" "n = unat x" "0x100000000 \<le> n" "rc \<longrightarrow> n \<le> MAX_SIZE"
      using assms c by (auto simp: ReadCompactSize_def split: bind_splits if_splits)
    then show ?thesis using s 4 b(3) [of x] by (auto simp: WriteCompactSize_def dest: le64.wr_rd)
  qed
qed

interpretation csize: codec "\<lambda>n. n \<le> MAX_SIZE" WriteCompactSize "ReadCompactSize True"
  by unfold_locales (auto simp: ReadCompactSize_write MAX_SIZE_def dest!: WriteCompactSize_read)

section \<open>Vectors\<close>

lemma read_blocks_eq:
  "length v \<le> nSize \<Longrightarrow> read_blocks nSize v s =
     (if length s < nSize - length v then None else Some (v @ take (nSize - length v) s, drop (nSize - length v) s))"
proof (induction nSize v s rule: read_blocks.induct)
  case (1 nSize v s)
  show ?case
  proof (cases "length v < nSize")
    case True
    define blk where "blk = min (nSize - length v) (1 + 4999999)"
    have step: "read_blocks nSize v s = (case ser_read blk s of None \<Rightarrow> None | Some (d, s') \<Rightarrow> read_blocks nSize (v @ d) s')"
      using True by (subst read_blocks.simps) (simp add: blk_def)
    show ?thesis
    proof (cases "length s < blk")
      case True
      then show ?thesis using step by (simp add: ser_read_def) (simp add: blk_def)
    next
      case False
      let ?d = "take blk s" and ?s = "drop blk s"
      have le: "length (v @ ?d) \<le> nSize" using True False by (simp add: blk_def)
      have r: "ser_read blk s = Some (?d, ?s)" using False by (simp add: ser_read_def)
      have "read_blocks nSize v s = read_blocks nSize (v @ ?d) ?s"
        by (simp add: step r)
      also have "\<dots> = (if length ?s < nSize - length (v @ ?d) then None
          else Some ((v @ ?d) @ take (nSize - length (v @ ?d)) ?s, drop (nSize - length (v @ ?d)) ?s))"
        by (rule "1.IH" [OF True blk_def r refl le])
      also have "\<dots> = (if length s < nSize - length v then None
          else Some (v @ take (nSize - length v) s, drop (nSize - length v) s))"
      proof -
        have "nSize - length v = blk + (nSize - length (v @ ?d))" using True False by (simp add: blk_def min_def)
        then obtain k where k: "nSize - length (v @ ?d) = k" "nSize - length v = blk + k" by blast
        show ?thesis unfolding k using False by (auto simp: take_add add.commute)
      qed
      finally show ?thesis .
    qed
  qed (use 1 in \<open>simp add: read_blocks.simps\<close>)
qed

interpretation vbytes: codec "\<lambda>v. length v \<le> MAX_SIZE" Serialize_bytes Unserialize_bytes
proof
  show "Unserialize_bytes (Serialize_bytes x @ rest) = Some (x, rest)" if "length x \<le> MAX_SIZE" for x rest
    using that by (simp add: Unserialize_bytes_def Serialize_bytes_def csize.rd_wr read_blocks_eq)
  show "length x \<le> MAX_SIZE \<and> s = Serialize_bytes x @ rest" if "Unserialize_bytes s = Some (x, rest)" for x s rest
    using that by (auto simp: Unserialize_bytes_def Serialize_bytes_def read_blocks_eq split: bind_splits if_splits dest!: csize.wr_rd)
qed

lemma read_n_add:
  "read_n (m + n) unser s = (case read_n m unser s of None \<Rightarrow> None
     | Some (xs, s1) \<Rightarrow> map_option (\<lambda>(ys, s2). (xs @ ys, s2)) (read_n n unser s1))"
proof (induction m arbitrary: s)
  case (Suc m)
  show ?case
  proof (cases "unser s")
    case (Some p)
    then show ?thesis using Suc.IH [of "snd p"]
      by (cases p; cases "read_n m unser (snd p)") (auto simp: case_prod_beta map_option_case split: option.splits)
  qed simp
qed (simp add: option.map_id)

lemma read_vec_eq:
  "0 < step \<Longrightarrow> length v \<le> nSize \<Longrightarrow>
     read_vec step unser nSize v s = map_option (\<lambda>(xs, s'). (v @ xs, s')) (read_n (nSize - length v) unser s)"
proof (induction step unser nSize v s rule: read_vec.induct)
  case (1 step unser nSize v s)
  show ?case
  proof (cases "length v < nSize")
    case True
    define k where "k = min (length v + step) nSize - length v"
    have step: "read_vec step unser nSize v s = (case read_n k unser s of
        None \<Rightarrow> None | Some (xs, s') \<Rightarrow> read_vec step unser nSize (v @ xs) s')"
      using True "1.prems" by (subst read_vec.simps) (simp add: k_def)
    have split: "nSize - length v = k + (nSize - (length v + k))" using True by (simp add: k_def)
    show ?thesis
    proof (cases "read_n k unser s")
      case None
      then show ?thesis unfolding split read_n_add by (simp add: step)
    next
      case (Some p)
      obtain xs s1 where p: "p = (xs, s1)" by (cases p)
      have l: "length xs = k" using Some p length_read_n by auto
      have "read_vec step unser nSize v s = read_vec step unser nSize (v @ xs) s1"
        by (simp add: step Some p)
      also have "\<dots> = map_option (\<lambda>(ys, s'). ((v @ xs) @ ys, s')) (read_n (nSize - length (v @ xs)) unser s1)"
        by (rule "1.IH" [OF _ refl Some [unfolded p k_def] refl]) (use True "1.prems" l in \<open>simp_all add: k_def\<close>)
      finally show ?thesis unfolding split read_n_add using Some p l
        by (simp add: option.map_comp comp_def case_prod_unfold)
    qed
  qed (use 1 in \<open>simp add: read_vec.simps\<close>)
qed

context codec
begin

lemma vec_codec:
  assumes "0 < step"
  shows "codec (\<lambda>xs. length xs \<le> MAX_SIZE \<and> list_all wf xs) (Serialize_vec wr) (Unserialize_vec step rd)"
proof
  show "Unserialize_vec step rd (Serialize_vec wr xs @ rest) = Some (xs, rest)"
    if "length xs \<le> MAX_SIZE \<and> list_all wf xs" for xs rest
    using that assms by (simp add: Unserialize_vec_def Serialize_vec_def csize.rd_wr read_vec_eq read_n_wr)
  show "(length xs \<le> MAX_SIZE \<and> list_all wf xs) \<and> s = Serialize_vec wr xs @ rest"
    if "Unserialize_vec step rd s = Some (xs, rest)" for xs s rest
    using that assms by (auto simp: Unserialize_vec_def Serialize_vec_def read_vec_eq split: bind_splits
        dest!: csize.wr_rd read_n_rd)
qed

end

section \<open>Variable-length integers\<close>

lemma length_varint_tmp: "length (varint_tmp len n) = GetSizeOfVarInt n"
  by (induction n arbitrary: len rule: GetSizeOfVarInt.induct) (simp add: varint_tmp.simps GetSizeOfVarInt.simps)

lemma mask7: "(0x7F :: 'a::len word) = mask 7"
  by (simp add: mask_numeral)

lemma bit_80: "bit (0x80 :: byte) k \<longleftrightarrow> k = 7" "bit (0x80 :: int) k \<longleftrightarrow> k = 7"
proof -
  have "(0x80 :: byte) = push_bit 7 1" "(0x80 :: int) = push_bit 7 1" by simp_all
  then show "bit (0x80 :: byte) k \<longleftrightarrow> k = 7" "bit (0x80 :: int) k \<longleftrightarrow> k = 7"
    by (simp_all only: bit_push_bit_iff) (auto simp: bit_simps)
qed

lemma digit_bits: "(ucast (n AND 0x7F :: u64) :: byte) AND 0x80 = 0"
  "((ucast (n AND 0x7F :: u64) :: byte) OR 0x80) AND 0x80 \<noteq> 0"
  "ucast ((ucast (n AND 0x7F :: u64) :: byte) AND 0x7F) = n AND 0x7F"
  "ucast (((ucast (n AND 0x7F :: u64) :: byte) OR 0x80) AND 0x7F) = n AND 0x7F"
proof -
  show "(ucast (n AND 0x7F :: u64) :: byte) AND 0x80 = 0"
    unfolding mask7 by (rule bit_eqI) (auto simp: bit_simps bit_80)
  have "bit (((ucast (n AND 0x7F :: u64) :: byte) OR 0x80) AND 0x80) 7"
    unfolding mask7 by (simp add: bit_simps bit_80)
  then show "((ucast (n AND 0x7F :: u64) :: byte) OR 0x80) AND 0x80 \<noteq> 0" by auto
  show "ucast ((ucast (n AND 0x7F :: u64) :: byte) AND 0x7F) = n AND 0x7F"
    unfolding mask7 by (rule bit_eqI) (auto simp: bit_simps)
  show "ucast (((ucast (n AND 0x7F :: u64) :: byte) OR 0x80) AND 0x7F) = n AND 0x7F"
    unfolding mask7 by (rule bit_eqI) (auto simp: bit_simps bit_80)
qed

lemma varint_glue: "push_bit 7 (drop_bit 7 n) OR (n AND 0x7F) = (n :: u64)"
  unfolding mask7 by (rule bit_eqI) (auto simp: bit_simps)

lemma varint_loop_tmp:
  "varint_loop 0 (rev (varint_tmp len n) @ t) = (if len = 0 then Some (n, t) else varint_loop (n + 1) t)"
proof (induction n arbitrary: len t rule: GetSizeOfVarInt.induct)
  case (1 n)
  let ?d = "(ucast (n AND 0x7F) :: byte) OR (if len \<noteq> 0 then 0x80 else 0x00)"
  have step: "varint_loop (drop_bit 7 n) (?d # t) = (if len = 0 then Some (n, t) else varint_loop (n + 1) t)"
    using digit_bits [of n] varint_glue [of n] by (simp add: Let_def)
  show ?case
  proof (cases "n \<le> 0x7F")
    case True
    then have "drop_bit 7 n = 0" by (simp add: drop_bit_eq_div word_le_nat_alt word_unat_eq_iff unat_div)
    then show ?thesis using step True by (simp add: varint_tmp.simps)
  next
    case False
    then show ?thesis using step "1.IH" [OF False, of "len + 1" "?d # t"] by (simp add: varint_tmp.simps)
  qed
qed

lemma GetSizeOfVarInt_le: "unat n < 128 ^ Suc k \<Longrightarrow> GetSizeOfVarInt n \<le> Suc k"
proof (induction k arbitrary: n)
  case 0
  then show ?case by (subst GetSizeOfVarInt.simps) (simp add: word_le_nat_alt)
next
  case (Suc k)
  show ?case
  proof (cases "n \<le> 0x7F")
    case False
    then have "unat (drop_bit 7 n - 1 :: u64) < 128 ^ Suc k" using Suc.prems varint_next [OF False] by (simp add: less_mult_imp_div_less less_imp_diff_less mult.commute)
    from Suc.IH [OF this] False show ?thesis by (subst GetSizeOfVarInt.simps) simp
  qed (subst GetSizeOfVarInt.simps, simp)
qed

text \<open>
  Reading a variable-length integer gives back what was written, in the number of bytes that was announced, and the writer
  never fills more than its buffer of \<^verbatim>\<open>(sizeof(n)*8+6)/7\<close> bytes.
\<close>

lemma varint_roundtrip:
  "ReadVarInt (WriteVarInt n @ rest) = Some (n, rest) \<and> length (WriteVarInt n) = GetSizeOfVarInt n \<and> length (WriteVarInt n) \<le> (8 * 8 + 6) div 7"
proof -
  have "unat n < 128 ^ Suc 9" using unat_bound [of n] by simp
  from GetSizeOfVarInt_le [OF this] show ?thesis by (simp add: ReadVarInt_def WriteVarInt_def varint_loop_tmp length_varint_tmp)
qed

text \<open>
  The comment above \<^verbatim>\<open>WriteVarInt\<close> promises that every integer has exactly one encoding. The reader does not check
  for overflow, so the encoding of \<open>2 ^ 64\<close> is a second one of zero.
\<close>

lemma varint_second_zero:
  "ReadVarInt [0x80, 0xfe, 0xfe, 0xfe, 0xfe, 0xfe, 0xfe, 0xfe, 0xff, 0x0] = Some (0, []) \<and> WriteVarInt 0 = [0]"
  by (simp add: ReadVarInt_def WriteVarInt_def varint_tmp.simps)

text \<open>
  A compact size is read from exactly one encoding, the one that is written, and only up to the limit on sizes.
\<close>

lemma compact_size_canonical:
  "ReadCompactSize True s = Some (n, rest) \<longleftrightarrow> s = WriteCompactSize n @ rest \<and> n \<le> MAX_SIZE"
  using csize.rd_wr [of n rest] csize.wr_rd [of s n rest] by blast

end
