(* ===== verification/BlockHash.thy ===== *)
theory BlockHash
  imports Prelude
begin

text \<open>
  The part that the three hashers of \<^verbatim>\<open>src/src/crypto\<close> (\<^verbatim>\<open>CSHA256\<close>, \<^verbatim>\<open>CSHA1\<close>, \<^verbatim>\<open>CRIPEMD160\<close>)
  have in common: the object's fields, what a message split into 64-byte blocks is, and the
  contract of \<^verbatim>\<open>Write\<close> as the locale \<open>md_hasher\<close>. The facts that hold for every hasher (writes in
  pieces, padding) are proved once in the locale; the theories \<open>Sha256\<close>, \<open>Sha1\<close> and
  \<open>Ripemd160\<close> interpret it on their own \<^verbatim>\<open>Write\<close>.
\<close>

text \<open>The fields \<^verbatim>\<open>uint32_t s[]\<close>, \<^verbatim>\<open>unsigned char buf[64]\<close> and \<^verbatim>\<open>size_t bytes\<close>.\<close>

record hasher =
  s :: "u32 list"
  buf :: bytes
  nbytes :: u64

text \<open>\<open>memcpy(buf + off, data, data.size())\<close> inside an array that is large enough.\<close>

definition memcpy_at :: "bytes \<Rightarrow> nat \<Rightarrow> bytes \<Rightarrow> bytes" where
  "memcpy_at b off data = take off b @ data @ drop (off + length data) b"

text \<open>The 64-byte blocks of a message, and what is left after the last full block.\<close>

function blocks64 :: "bytes \<Rightarrow> bytes list" where
  "blocks64 m = (if 64 \<le> length m then take 64 m # blocks64 (drop 64 m) else [])"
  by pat_completeness auto
termination
  by (relation "measure length") auto

declare blocks64.simps [simp del]

definition rest64 :: "bytes \<Rightarrow> bytes" where
  "rest64 m = drop (64 * (length m div 64)) m"

text \<open>The padding of the three hash functions: one bit, zeros, the bit length as eight bytes.\<close>

definition pad_zeros :: "nat \<Rightarrow> nat" where
  "pad_zeros n = (119 - n mod 64) mod 64"

lemma take_pad:
  "take (1 + (119 - n mod 64) mod 64) (0x80 # replicate 63 0) = (0x80 :: byte) # replicate (pad_zeros n) 0"
proof -
  have "(119 - n mod 64) mod 64 \<le> 63" by (simp add: less_Suc_eq_le [symmetric])
  then show ?thesis by (simp add: pad_zeros_def min_def)
qed

definition md_pad :: "(u64 \<Rightarrow> bytes) \<Rightarrow> bytes \<Rightarrow> bytes" where
  "md_pad sizedesc m =
     m @ 0x80 # replicate (pad_zeros (length m)) 0 @ sizedesc (word_of_nat (8 * length m))"

subsection \<open>Blocks\<close>

lemma blocks64_short [simp]: "length m < 64 \<Longrightarrow> blocks64 m = []"
  by (simp add: blocks64.simps)

lemma blocks64_long: "64 \<le> length m \<Longrightarrow> blocks64 m = take 64 m # blocks64 (drop 64 m)"
  by (simp add: blocks64.simps)

lemma blocks64_one: "length m = 64 \<Longrightarrow> blocks64 m = [m]"
  by (simp add: blocks64_long)

lemma blocks64_append:
  "length a mod 64 = 0 \<Longrightarrow> blocks64 (a @ b) = blocks64 a @ blocks64 b"
proof (induction a rule: blocks64.induct)
  case (1 a)
  show ?case
  proof (cases "64 \<le> length a")
    case True
    have "length (drop 64 a) mod 64 = 0"
      using True "1.prems" by (simp add: le_mod_geq)
    then have "blocks64 (drop 64 a @ b) = blocks64 (drop 64 a) @ blocks64 b"
      by (rule "1.IH" [OF True])
    with True show ?thesis by (simp add: blocks64_long [of "a @ b"] blocks64_long [of a])
  next
    case False
    with "1.prems" have "a = []" by auto
    then show ?thesis by simp
  qed
qed

lemma length_rest64 [simp]: "length (rest64 m) = length m mod 64"
  by (simp add: rest64_def minus_mult_div_eq_mod)

lemma rest64_append:
  assumes "length a mod 64 = 0"
  shows "rest64 (a @ b) = rest64 b"
proof -
  obtain k where k: "length a = 64 * k" using assms by (metis mod_0_imp_dvd dvdE)
  have "(64 * k + length b) div 64 = k + length b div 64" by simp
  then show ?thesis by (simp add: rest64_def k)
qed

lemma full_prefix: "m = take (64 * (length m div 64)) m @ rest64 m"
  by (simp add: rest64_def)

lemma length_full_prefix [simp]: "min (length m) (64 * (length m div 64)) = 64 * (length m div 64)"
  by (rule min_absorb2) simp

lemma blocks64_full_prefix: "blocks64 (take (64 * (length m div 64)) m) = blocks64 m"
proof -
  have "blocks64 m = blocks64 (take (64 * (length m div 64)) m @ rest64 m)"
    using full_prefix by metis
  also have "\<dots> = blocks64 (take (64 * (length m div 64)) m)"
    by (subst blocks64_append) simp_all
  finally show ?thesis ..
qed

text \<open>What one more write does to the blocks: only the unprocessed rest and the new data matter.\<close>

lemma blocks64_snoc: "blocks64 (m @ d) = blocks64 m @ blocks64 (rest64 m @ d)"
proof -
  let ?p = "take (64 * (length m div 64)) m"
  have "blocks64 (m @ d) = blocks64 (?p @ rest64 m @ d)"
    using full_prefix [of m] by (metis append_assoc)
  also have "\<dots> = blocks64 ?p @ blocks64 (rest64 m @ d)"
    by (rule blocks64_append) simp
  finally show ?thesis by (simp add: blocks64_full_prefix)
qed

lemma rest64_snoc: "rest64 (m @ d) = rest64 (rest64 m @ d)"
proof -
  let ?p = "take (64 * (length m div 64)) m"
  have "rest64 (m @ d) = rest64 (?p @ rest64 m @ d)"
    using full_prefix [of m] by (metis append_assoc)
  also have "\<dots> = rest64 (rest64 m @ d)"
    by (rule rest64_append) simp
  finally show ?thesis .
qed

lemma rest64_short [simp]: "length m < 64 \<Longrightarrow> rest64 m = m"
  by (simp add: rest64_def)

lemma rest64_drop: "64 \<le> length m \<Longrightarrow> rest64 (drop 64 m) = rest64 m"
  using rest64_append [of "take 64 m" "drop 64 m"] by simp

lemma rest64_drop_mult: "64 * k \<le> length m \<Longrightarrow> rest64 (drop (64 * k) m) = rest64 m"
  using rest64_append [of "take (64 * k) m" "drop (64 * k) m"] by simp

lemma length_md_pad:
  assumes "\<And>n. length (sizedesc n) = 8"
  shows "length (md_pad sizedesc m) mod 64 = 0"
proof -
  let ?r = "length m mod 64"
  have "pad_zeros (length m) = (if ?r \<le> 55 then 55 - ?r else 119 - ?r)"
    by (simp add: pad_zeros_def le_mod_geq)
  then have "?r + 9 + pad_zeros (length m) = 64 \<or> ?r + 9 + pad_zeros (length m) = 128"
    by (simp add: less_imp_le)
  moreover have "length (md_pad sizedesc m) mod 64 = (?r + 9 + pad_zeros (length m)) mod 64"
    by (simp add: md_pad_def assms mod_add_left_eq add.assoc)
  ultimately show ?thesis by (elim disjE) simp_all
qed

text \<open>The byte counter wraps at \<open>2 ^ 64\<close>, a multiple of the block size, so it keeps the buffer fill.\<close>

lemma nbytes_mod64 [simp]: "unat (word_of_nat n :: u64) mod 64 = n mod 64"
proof -
  have "unat (word_of_nat n :: u64) = n mod 2 ^ 64" by (simp add: unat_of_nat)
  moreover have "(n mod 2 ^ 64) mod 64 = n mod 64"
    by (rule mod_mod_cancel) simp
  ultimately show ?thesis by simp
qed

lemma length_memcpy_at [simp]:
  "off + length d \<le> length b \<Longrightarrow> length (memcpy_at b off d) = length b"
  by (simp add: memcpy_at_def)

lemma take_memcpy_at:
  "off \<le> length b \<Longrightarrow> take (off + length d) (memcpy_at b off d) = take off b @ d"
  by (simp add: memcpy_at_def)

section \<open>The contract of a hasher\<close>

text \<open>
  \<open>hash_inv compress init h m\<close>: the object \<open>h\<close> has been fed exactly the message \<open>m\<close>. The
  chaining state has absorbed the full blocks and the buffer holds the rest; the stale bytes of
  the buffer behind it are arbitrary.
\<close>

definition hash_inv :: "(u32 list \<Rightarrow> bytes \<Rightarrow> u32 list) \<Rightarrow> u32 list \<Rightarrow> hasher \<Rightarrow> bytes \<Rightarrow> bool" where
  "hash_inv compress init h m \<longleftrightarrow>
     s h = foldl compress init (blocks64 m) \<and>
     length (buf h) = 64 \<and> take (length m mod 64) (buf h) = rest64 m \<and>
     nbytes h = word_of_nat (length m)"

locale md_hasher =
  fixes compress :: "u32 list \<Rightarrow> bytes \<Rightarrow> u32 list"
    and init :: "u32 list"
    and start :: hasher
    and wr :: "hasher \<Rightarrow> bytes \<Rightarrow> hasher"
    and fin :: "hasher \<Rightarrow> 'o"
    and sizedesc :: "u64 \<Rightarrow> bytes"
    and out :: "u32 list \<Rightarrow> 'o"
  assumes start_inv: "hash_inv compress init start []"
    and wr_inv: "hash_inv compress init h m \<Longrightarrow> hash_inv compress init (wr h d) (m @ d)"
    and fin_def: "fin h = out (s (wr (wr h (0x80 # replicate (pad_zeros (unat (nbytes h))) 0))
                                    (sizedesc (push_bit 3 (nbytes h)))))"
    and length_sizedesc: "length (sizedesc n) = 8"
begin

text \<open>Any way of cutting the message into writes leads to an object that has been fed the message.\<close>

lemma writes_inv: "hash_inv compress init h m \<Longrightarrow> hash_inv compress init (foldl wr h ds) (m @ concat ds)"
proof (induction ds arbitrary: h m)
  case Nil
  then show ?case by simp
next
  case (Cons d ds)
  from Cons.IH [OF wr_inv [OF Cons.prems]] show ?case by simp
qed

lemma fin_padded:
  assumes "hash_inv compress init h m"
  shows "fin h = out (foldl compress init (blocks64 (md_pad sizedesc m)))"
proof -
  have n: "nbytes h = word_of_nat (length m)"
    using assms by (simp add: hash_inv_def)
  have z: "pad_zeros (unat (word_of_nat (length m) :: u64)) = pad_zeros (length m)"
    by (simp add: pad_zeros_def)
  have "push_bit 3 (word_of_nat (length m) :: u64) = word_of_nat (8 * length m)"
    by (simp add: push_bit_eq_mult mult.commute)
  with wr_inv [OF wr_inv [OF assms], of "0x80 # replicate (pad_zeros (length m)) 0"
      "sizedesc (push_bit 3 (nbytes h))"]
  have "hash_inv compress init (wr (wr h (0x80 # replicate (pad_zeros (unat (nbytes h))) 0))
          (sizedesc (push_bit 3 (nbytes h)))) (md_pad sizedesc m)"
    by (simp add: md_pad_def z n)
  then show ?thesis by (simp add: fin_def hash_inv_def)
qed

text \<open>The digest is a function of the message alone.\<close>

lemma digest_of_pieces:
  "fin (foldl wr start ds) = out (foldl compress init (blocks64 (md_pad sizedesc (concat ds))))"
  using fin_padded [OF writes_inv [OF start_inv]] by simp

lemma digest_of_message:
  "fin (wr start m) = out (foldl compress init (blocks64 (md_pad sizedesc m)))"
  using digest_of_pieces [of "[m]"] by simp

lemma digest_pieces_eq: "concat ds = concat es \<Longrightarrow> fin (foldl wr start ds) = fin (foldl wr start es)"
  by (simp add: digest_of_pieces)

end

section \<open>The two shapes of the write loop\<close>

text \<open>
  The buffering code is the same in the three classes; the only difference is that \<^verbatim>\<open>CSHA256\<close>
  hands all full blocks to one call of \<^verbatim>\<open>Transform\<close> while the other two loop. \<open>write_core\<close> is
  the state after the full blocks have been absorbed, and the lemma below turns it into the
  contract of the locale.
\<close>

lemma write_contract:
  assumes inv: "hash_inv compress init h m"
    and fill: "fill = length m mod 64"
    and long: "\<lbrakk>fill \<noteq> 0; 64 \<le> fill + length d\<rbrakk> \<Longrightarrow>
      length b = 64 \<and> h' = \<lparr>s = foldl compress (s h) (blocks64 (rest64 m @ d)),
        buf = memcpy_at b 0 (rest64 (m @ d)),
        nbytes = nbytes h + word_of_nat (length d)\<rparr>"
    and short: "\<lbrakk>fill \<noteq> 0; fill + length d < 64\<rbrakk> \<Longrightarrow>
      h' = h\<lparr>buf := memcpy_at (buf h) fill d, nbytes := nbytes h + word_of_nat (length d)\<rparr>"
    and aligned: "fill = 0 \<Longrightarrow>
      h' = \<lparr>s = foldl compress (s h) (blocks64 d), buf = memcpy_at (buf h) 0 (rest64 d),
        nbytes = nbytes h + word_of_nat (length d)\<rparr>"
  shows "hash_inv compress init h' (m @ d)"
proof -
  have h: "s h = foldl compress init (blocks64 m)" "length (buf h) = 64"
    "take fill (buf h) = rest64 m" "nbytes h = word_of_nat (length m)"
    using inv by (simp_all add: hash_inv_def fill)
  have fill_lt: "fill < 64" by (simp add: fill)
  have r: "length (rest64 x) \<le> 64" for x by (simp add: less_imp_le)
  have tk: "take (length x mod 64) (memcpy_at b 0 (rest64 x)) = rest64 x" for b x
    using take_memcpy_at [of 0 b "rest64 x"] by simp
  have len: "length (memcpy_at b 0 (rest64 x)) = length b" if "length b = 64" for b x
    using that r [of x] by simp
  consider (aligned) "fill = 0" | (long) "fill \<noteq> 0" "64 \<le> fill + length d"
    | (short) "fill \<noteq> 0" "fill + length d < 64" by linarith
  then show ?thesis
  proof cases
    case aligned
    then have "rest64 m = []" using length_rest64 [of m] fill by (metis length_0_conv)
    then have "blocks64 (m @ d) = blocks64 m @ blocks64 d" "rest64 (m @ d) = rest64 d"
      by (simp_all add: blocks64_snoc [of m d] rest64_snoc [of m d])
    moreover have "length (m @ d) mod 64 = length d mod 64"
      using aligned fill by (metis length_append mod_add_left_eq add_0)
    ultimately show ?thesis
      using aligned assms(5) h tk [of d "buf h"] len [of "buf h" d]
      by (simp add: hash_inv_def)
  next
    case long
    with assms(3) have b: "length b = 64" and h': "h' = \<lparr>s = foldl compress (s h) (blocks64 (rest64 m @ d)),
        buf = memcpy_at b 0 (rest64 (m @ d)), nbytes = nbytes h + word_of_nat (length d)\<rparr>"
      by auto
    show ?thesis
      using h tk [of "m @ d" b] len [OF b, of "m @ d"] b
      by (simp add: hash_inv_def h' blocks64_snoc [of m d])
  next
    case short
    have "length (rest64 m @ d) < 64" using short fill by simp
    then have "blocks64 (m @ d) = blocks64 m" "rest64 (m @ d) = rest64 m @ d"
      by (simp_all add: blocks64_snoc [of m d] rest64_snoc [of m d])
    moreover have "length (m @ d) mod 64 = fill + length d"
      using short(2) fill by (metis length_append mod_add_left_eq mod_less)
    moreover have "take (fill + length d) (memcpy_at (buf h) fill d) = rest64 m @ d"
      using take_memcpy_at [of fill "buf h" d] h fill_lt by simp
    moreover have "length (memcpy_at (buf h) fill d) = 64"
      using h(2) short(2) by simp
    ultimately show ?thesis
      using short assms(4) h by (simp add: hash_inv_def)
  qed
qed

text \<open>Completing a partly filled buffer cuts the stream at a block boundary.\<close>

lemma flush_split:
  assumes inv: "hash_inv compress init h m"
    and long: "length m mod 64 \<noteq> 0" "64 \<le> length m mod 64 + length d"
  defines "f \<equiv> length m mod 64"
  defines "b \<equiv> memcpy_at (buf h) f (take (64 - f) d)"
  shows "length b = 64"
    and "blocks64 (rest64 m @ d) = blocks64 b @ blocks64 (drop (64 - f) d)"
    and "rest64 (m @ d) = rest64 (drop (64 - f) d)"
    and "word_of_nat (64 - f) + word_of_nat (length d - (64 - f)) = (word_of_nat (length d) :: u64)"
proof -
  have buf: "length (buf h) = 64" and rest: "take f (buf h) = rest64 m"
    using inv by (simp_all add: hash_inv_def f_def)
  have f: "f < 64" "64 \<le> f + length d" using long by (simp_all add: f_def)
  have b: "b = rest64 m @ take (64 - f) d"
    using f buf by (simp add: b_def memcpy_at_def rest min_def)
  show lb: "length b = 64" using f by (simp add: b f_def)
  have split: "rest64 m @ d = b @ drop (64 - f) d" by (simp add: b)
  show "blocks64 (rest64 m @ d) = blocks64 b @ blocks64 (drop (64 - f) d)"
    unfolding split using lb by (intro blocks64_append) simp
  show "rest64 (m @ d) = rest64 (drop (64 - f) d)"
    unfolding rest64_snoc [of m d] split using lb by (intro rest64_append) simp
  have "64 - f + (length d - (64 - f)) = length d" using f by simp
  then show "word_of_nat (64 - f) + word_of_nat (length d - (64 - f)) = (word_of_nat (length d) :: u64)"
    by (metis of_nat_add)
qed

section \<open>The while loop of CSHA1 and CRIPEMD160\<close>

text \<open>
  \<^verbatim>\<open>CSHA1::Write\<close> and \<^verbatim>\<open>CRIPEMD160::Write\<close> are the same text with their own \<^verbatim>\<open>Transform\<close>, so the
  model has it once: \<open>absorb_loop\<close> is the loop \<^verbatim>\<open>while (end >= data + 64)\<close> and returns the object
  and the unread data.
\<close>

function absorb_loop :: "(u32 list \<Rightarrow> bytes \<Rightarrow> u32 list) \<Rightarrow> hasher \<Rightarrow> bytes \<Rightarrow> hasher \<times> bytes" where
  "absorb_loop tr h data =
     (if 64 \<le> length data
      then absorb_loop tr (h\<lparr>s := tr (s h) data, nbytes := nbytes h + 64\<rparr>) (drop 64 data)
      else (h, data))"
  by pat_completeness auto
termination
  by (relation "measure (\<lambda>(tr, h, data). length data)") auto

declare absorb_loop.simps [simp del]

definition absorb_tail :: "(u32 list \<Rightarrow> bytes \<Rightarrow> u32 list) \<Rightarrow> hasher \<Rightarrow> nat \<Rightarrow> bytes \<Rightarrow> hasher" where
  "absorb_tail tr h bufsize data =
     (case absorb_loop tr h data of (h', data') \<Rightarrow>
        if data' \<noteq> []
        then h'\<lparr>buf := memcpy_at (buf h') bufsize data', nbytes := nbytes h' + word_of_nat (length data')\<rparr>
        else h')"

definition md_write :: "(u32 list \<Rightarrow> bytes \<Rightarrow> u32 list) \<Rightarrow> hasher \<Rightarrow> bytes \<Rightarrow> hasher" where
  "md_write tr h data =
     (let bufsize = unat (nbytes h) mod 64
      in if bufsize \<noteq> 0 \<and> 64 \<le> bufsize + length data
         then let b = memcpy_at (buf h) bufsize (take (64 - bufsize) data)
              in absorb_tail tr (h\<lparr>buf := b, nbytes := nbytes h + word_of_nat (64 - bufsize),
                                  s := tr (s h) b\<rparr>) 0 (drop (64 - bufsize) data)
         else absorb_tail tr h bufsize data)"

text \<open>\<open>local_block tr\<close>: the transformation reads no more than the 64 bytes of its chunk.\<close>

definition local_block :: "(u32 list \<Rightarrow> bytes \<Rightarrow> u32 list) \<Rightarrow> bool" where
  "local_block tr \<longleftrightarrow> (\<forall>st c. tr st (take 64 c) = tr st c)"

lemma absorb_loop_blocks:
  assumes "local_block tr"
  shows "absorb_loop tr h d = (h\<lparr>s := foldl tr (s h) (blocks64 d),
     nbytes := nbytes h + word_of_nat (64 * (length d div 64))\<rparr>, rest64 d)"
proof (induction d arbitrary: h rule: blocks64.induct)
  case (1 d)
  show ?case
  proof (cases "64 \<le> length d")
    case True
    have "length d div 64 = Suc ((length d - 64) div 64)" using True by (simp add: le_div_geq)
    moreover have "tr (s h) (take 64 d) = tr (s h) d" using assms by (simp add: local_block_def)
    ultimately show ?thesis
      using True "1.IH" [OF True]
      by (simp add: absorb_loop.simps [of tr h d] blocks64_long [of d] rest64_drop add.assoc)
  next
    case False
    then show ?thesis by (simp add: absorb_loop.simps)
  qed
qed

lemma absorb_tail_short:
  "length d < 64 \<Longrightarrow> absorb_tail tr h f d =
     h\<lparr>buf := memcpy_at (buf h) f d, nbytes := nbytes h + word_of_nat (length d)\<rparr>"
  by (simp add: absorb_tail_def absorb_loop.simps memcpy_at_def)

lemma full_plus_rest:
  "word_of_nat (64 * (length d div 64)) + word_of_nat (length (rest64 d)) = (word_of_nat (length d) :: u64)"
proof -
  have "64 * (length d div 64) + length (rest64 d) = length d" by simp
  then show ?thesis by (metis of_nat_add)
qed

lemma absorb_tail_empty:
  assumes "local_block tr"
  shows "absorb_tail tr h 0 d = h\<lparr>s := foldl tr (s h) (blocks64 d),
     buf := memcpy_at (buf h) 0 (rest64 d), nbytes := nbytes h + word_of_nat (length d)\<rparr>"
proof (cases "rest64 d = []")
  case True
  with full_plus_rest [of d]
  have "word_of_nat (64 * (length d div 64)) = (word_of_nat (length d) :: u64)" by simp
  with True show ?thesis
    by (simp only: absorb_tail_def absorb_loop_blocks [OF assms]) (simp add: memcpy_at_def)
next
  case False
  with full_plus_rest [of d] show ?thesis
    by (simp only: absorb_tail_def absorb_loop_blocks [OF assms]) (simp add: add.assoc)
qed

lemma md_write_inv:
  assumes tr: "local_block tr" and inv: "hash_inv tr init h m"
  shows "hash_inv tr init (md_write tr h d) (m @ d)"
proof (rule write_contract [OF inv refl, where b = "memcpy_at (buf h) (length m mod 64)
                              (take (64 - length m mod 64) d)"])
  let ?f = "length m mod 64"
  let ?b = "memcpy_at (buf h) ?f (take (64 - ?f) d)"
  have fill: "unat (nbytes h) mod 64 = ?f" using inv by (simp add: hash_inv_def)
  note flush = flush_split [OF inv]
  show "length ?b = 64 \<and> md_write tr h d =
        \<lparr>s = foldl tr (s h) (blocks64 (rest64 m @ d)),
         buf = memcpy_at ?b 0 (rest64 (m @ d)), nbytes = nbytes h + word_of_nat (length d)\<rparr>"
    if long: "?f \<noteq> 0" "64 \<le> ?f + length d"
    using flush [OF long] long
    by (simp add: md_write_def fill Let_def absorb_tail_empty [OF tr] blocks64_one add.assoc)
  show "md_write tr h d = h\<lparr>buf := memcpy_at (buf h) ?f d, nbytes := nbytes h + word_of_nat (length d)\<rparr>"
    if "?f \<noteq> 0" "?f + length d < 64"
    using that by (simp add: md_write_def fill absorb_tail_short)
  show "md_write tr h d = \<lparr>s = foldl tr (s h) (blocks64 d),
      buf = memcpy_at (buf h) 0 (rest64 d), nbytes = nbytes h + word_of_nat (length d)\<rparr>"
    if "?f = 0"
    using that by (simp add: md_write_def fill absorb_tail_empty [OF tr])
qed

lemma length_concat_const: "(\<And>x. length (f x) = k) \<Longrightarrow> length (concat (map f xs)) = k * length xs"
  by (induction xs) simp_all

text \<open>The sixteen words of a chunk, read big-endian.\<close>

definition words_be :: "bytes \<Rightarrow> u32 list" where
  "words_be chunk = map (\<lambda>i. ReadBE32 (drop (4 * i) chunk)) [0..<16]"

lemma words_be_take: "words_be (take 64 c) = words_be c"
proof -
  have "ReadBE32 (drop (4 * i) (take 64 c)) = ReadBE32 (drop (4 * i) c)" if "i < 16" for i
    using that by (simp add: ReadBE32_def drop_take min_def)
  then show ?thesis by (simp add: words_be_def)
qed

lemma length_words_be [simp]: "length (words_be M) = 16"
  by (simp add: words_be_def)

section \<open>Message schedules in sixteen words\<close>

text \<open>
  The standards expand the sixteen words of a block into a long schedule, each new word computed
  from the sixteen before it; the code keeps only sixteen variables and overwrites them in turn.
  \<open>upd f\<close> is the new word, where \<open>f j\<close> reads the word \<open>16 - j\<close> places back.
\<close>

type_synonym word_upd = "(nat \<Rightarrow> u32) \<Rightarrow> u32"

definition circ_step :: "word_upd \<Rightarrow> nat \<Rightarrow> u32 list \<Rightarrow> u32 list" where
  "circ_step upd i w =
     (if i < 16 then w else w[i mod 16 := upd (\<lambda>j. w ! ((i + j) mod 16))])"

primrec schedule :: "word_upd \<Rightarrow> u32 list \<Rightarrow> nat \<Rightarrow> u32 list" where
  "schedule upd M 0 = M"
| "schedule upd M (Suc t) = (let W = schedule upd M t in W @ [upd (\<lambda>j. W ! (t + j))])"

fun circ_rounds :: "word_upd \<Rightarrow> ('r \<Rightarrow> 'k \<times> u32 \<Rightarrow> 'r) \<Rightarrow> nat \<Rightarrow> 'k list \<Rightarrow> u32 list \<Rightarrow> 'r \<Rightarrow> 'r" where
  "circ_rounds upd step i [] w r = r"
| "circ_rounds upd step i (k # ks) w r =
     (let w' = circ_step upd i w
      in circ_rounds upd step (Suc i) ks w' (step r (k, w' ! (i mod 16))))"

text \<open>The circular buffer holds the last sixteen words of the schedule.\<close>

definition window :: "nat \<Rightarrow> u32 list \<Rightarrow> u32 list \<Rightarrow> bool" where
  "window i W w \<longleftrightarrow> length w = 16 \<and> (\<forall>k. i \<le> k + 16 \<longrightarrow> k < max i 16 \<longrightarrow> w ! (k mod 16) = W ! k)"

lemma length_schedule [simp]: "length (schedule upd M t) = length M + t"
  by (induction t) (simp_all add: Let_def)

lemma schedule_prefix: "k < length M + t \<Longrightarrow> schedule upd M (t + n) ! k = schedule upd M t ! k"
  by (induction n) (simp_all add: Let_def nth_append)

locale circular_schedule =
  fixes upd :: word_upd
  assumes upd_cong: "(\<And>j. j < 16 \<Longrightarrow> f j = g j) \<Longrightarrow> upd f = upd g"
begin

lemma schedule_nth:
  assumes "length M = 16" and "16 \<le> i" and "i < 16 + n"
  shows "schedule upd M n ! i = upd (\<lambda>j. schedule upd M n ! (i - 16 + j))"
proof -
  let ?t = "i - 16" and ?W = "schedule upd M n"
  have old: "schedule upd M ?t ! (?t + j) = ?W ! (?t + j)" if "j < 16" for j
    using schedule_prefix [of "?t + j" M ?t upd "n - ?t"] that assms by simp
  have "?W ! i = schedule upd M (Suc ?t) ! i"
    using schedule_prefix [of i M "Suc ?t" upd "n - Suc ?t"] assms by simp
  also have "\<dots> = upd (\<lambda>j. schedule upd M ?t ! (?t + j))"
    using assms(1,2) by (simp add: Let_def nth_append)
  also have "\<dots> = upd (\<lambda>j. ?W ! (?t + j))"
    by (rule upd_cong) (rule old)
  finally show ?thesis .
qed

lemma circ_step_current:
  assumes win: "window i W w" and "length M = 16" and "i < 16 + n" and W: "W = schedule upd M n"
  shows "circ_step upd i w ! (i mod 16) = W ! i"
proof (cases "i < 16")
  case True
  with win show ?thesis by (simp add: circ_step_def window_def)
next
  case False
  have w: "length w = 16" "\<And>k. i \<le> k + 16 \<Longrightarrow> k < max i 16 \<Longrightarrow> w ! (k mod 16) = W ! k"
    using win by (auto simp: window_def)
  have old: "w ! ((i + j) mod 16) = W ! (i - 16 + j)" if "j < 16" for j
  proof -
    have "(i + j) mod 16 = (i - 16 + j) mod 16"
      using False le_mod_geq [of 16 "i + j"] by simp
    moreover have "w ! ((i - 16 + j) mod 16) = W ! (i - 16 + j)"
      using False that by (intro w(2)) linarith+
    ultimately show ?thesis by (simp only:)
  qed
  have "upd (\<lambda>j. w ! ((i + j) mod 16)) = upd (\<lambda>j. W ! (i - 16 + j))"
    by (rule upd_cong) (rule old)
  also have "\<dots> = W ! i"
    using schedule_nth [OF assms(2), of i n] assms(3) False by (simp add: W)
  finally show ?thesis using False w(1) by (simp add: circ_step_def)
qed

lemma window_step:
  assumes win: "window i W w" and "length M = 16" and "i < 16 + n" and W: "W = schedule upd M n"
  shows "window (Suc i) W (circ_step upd i w)"
  unfolding window_def
proof (intro conjI allI impI)
  have w: "length w = 16" "\<And>k. i \<le> k + 16 \<Longrightarrow> k < max i 16 \<Longrightarrow> w ! (k mod 16) = W ! k"
    using win by (auto simp: window_def)
  show "length (circ_step upd i w) = 16" by (simp add: circ_step_def w(1))
  fix k assume k: "Suc i \<le> k + 16" "k < max (Suc i) 16"
  consider (same) "k = i" | (first) "i < 16" "k \<noteq> i" | (older) "16 \<le> i" "k < i"
    using k(2) by linarith
  then show "circ_step upd i w ! (k mod 16) = W ! k"
  proof cases
    case same
    then show ?thesis using circ_step_current [OF assms] by simp
  next
    case first
    with w(2) [of k] k show ?thesis by (simp add: circ_step_def)
  next
    case older
    have "\<not> 16 dvd i - k" using older k(1) by (intro nat_dvd_not_less) simp_all
    then have "k mod 16 \<noteq> i mod 16"
      using older mod_eq_dvd_iff_nat [of k i 16] by simp
    then show ?thesis
      using older w(2) [of k] k by (simp add: circ_step_def)
  qed
qed

lemma rounds_schedule:
  assumes "window i W w" and "length M = 16" and "W = schedule upd M n" and "i + length ks \<le> 16 + n"
  shows "circ_rounds upd step i ks w r = foldl step r (zip ks (drop i W))"
  using assms
proof (induction ks arbitrary: i w r)
  case Nil
  then show ?case by simp
next
  case (Cons k ks)
  have i: "i < 16 + n" using Cons.prems(4) by simp
  note current = circ_step_current [OF Cons.prems(1,2) i Cons.prems(3)]
    and slide = window_step [OF Cons.prems(1,2) i Cons.prems(3)]
  have "drop i W = W ! i # drop (Suc i) W"
    using Cons.prems(2,3) i by (simp add: Cons_nth_drop_Suc)
  moreover have "circ_rounds upd step (Suc i) ks (circ_step upd i w) r' =
      foldl step r' (zip ks (drop (Suc i) W))" for r'
    using Cons.IH [OF slide Cons.prems(2,3)] Cons.prems(4) by simp
  ultimately show ?case by (simp add: Let_def current)
qed

text \<open>All rounds of a block, from its sixteen words.\<close>

lemma rounds_block:
  assumes "length M = 16" and "length ks \<le> 16 + n"
  shows "circ_rounds upd step 0 ks M r = foldl step r (zip ks (schedule upd M n))"
proof -
  have "window 0 (schedule upd M n) M"
    using schedule_prefix [of _ M 0 upd n] assms(1) by (auto simp: window_def)
  from rounds_schedule [OF this assms(1) refl, of ks step r] assms(2) show ?thesis by simp
qed

end

end
