(* ===== verification/Sha256.thy ===== *)
theory Sha256
  imports BlockHash
begin

text \<open>
  \<^verbatim>\<open>src/src/crypto/sha256.cpp\<close>: the portable \<^verbatim>\<open>Transform\<close> and the class \<^verbatim>\<open>CSHA256\<close>. The 64
  unrolled calls of \<^verbatim>\<open>Round\<close> pass the same eight variables rotated by one place each time and the
  words \<^verbatim>\<open>w0..w15\<close> in turn, so the model is a loop over the table of the 64 constants in which
  the tuple rotates and the sixteen words are a circular buffer. \<open>fips_compress\<close> is the
  compression function of FIPS 180-4, with its 64-word schedule, and the theory proves that the
  code computes it.
\<close>

section \<open>The compression function\<close>

definition Ch :: "u32 \<Rightarrow> u32 \<Rightarrow> u32 \<Rightarrow> u32" where
  "Ch x y z = z XOR (x AND (y XOR z))"

definition Maj :: "u32 \<Rightarrow> u32 \<Rightarrow> u32 \<Rightarrow> u32" where
  "Maj x y z = (x AND y) OR (z AND (x OR y))"

definition Sigma0 :: "u32 \<Rightarrow> u32" where
  "Sigma0 x = (drop_bit 2 x OR push_bit 30 x) XOR (drop_bit 13 x OR push_bit 19 x)
     XOR (drop_bit 22 x OR push_bit 10 x)"

definition Sigma1 :: "u32 \<Rightarrow> u32" where
  "Sigma1 x = (drop_bit 6 x OR push_bit 26 x) XOR (drop_bit 11 x OR push_bit 21 x)
     XOR (drop_bit 25 x OR push_bit 7 x)"

definition sigma0 :: "u32 \<Rightarrow> u32" where
  "sigma0 x = (drop_bit 7 x OR push_bit 25 x) XOR (drop_bit 18 x OR push_bit 14 x) XOR drop_bit 3 x"

definition sigma1 :: "u32 \<Rightarrow> u32" where
  "sigma1 x = (drop_bit 17 x OR push_bit 15 x) XOR (drop_bit 19 x OR push_bit 13 x) XOR drop_bit 10 x"

type_synonym regs8 = "u32 \<times> u32 \<times> u32 \<times> u32 \<times> u32 \<times> u32 \<times> u32 \<times> u32"

text \<open>One \<^verbatim>\<open>Round\<close>, which changes \<open>d\<close> and \<open>h\<close>.\<close>

fun sha256_Round :: "regs8 \<Rightarrow> u32 \<Rightarrow> u32 \<Rightarrow> regs8" where
  "sha256_Round (a, b, c, d, e, f, g, h) k w =
     (let t1 = h + Sigma1 e + Ch e f g + k + w;
          t2 = Sigma0 a + Maj a b c
      in (a, b, c, d + t1, e, f, g, t1 + t2))"

text \<open>The next call sees the eight variables one place further on.\<close>

fun rotate_regs :: "regs8 \<Rightarrow> regs8" where
  "rotate_regs (a, b, c, d, e, f, g, h) = (h, a, b, c, d, e, f, g)"

text \<open>The constants of the calls, eight to a row: after eight rounds the variables are back in place.\<close>

definition sha256_k :: "u32 list" where
  "sha256_k = concat [
     [0x428a2f98, 0x71374491, 0xb5c0fbcf, 0xe9b5dba5,
      0x3956c25b, 0x59f111f1, 0x923f82a4, 0xab1c5ed5],
     [0xd807aa98, 0x12835b01, 0x243185be, 0x550c7dc3,
      0x72be5d74, 0x80deb1fe, 0x9bdc06a7, 0xc19bf174],
     [0xe49b69c1, 0xefbe4786, 0x0fc19dc6, 0x240ca1cc,
      0x2de92c6f, 0x4a7484aa, 0x5cb0a9dc, 0x76f988da],
     [0x983e5152, 0xa831c66d, 0xb00327c8, 0xbf597fc7,
      0xc6e00bf3, 0xd5a79147, 0x06ca6351, 0x14292967],
     [0x27b70a85, 0x2e1b2138, 0x4d2c6dfc, 0x53380d13,
      0x650a7354, 0x766a0abb, 0x81c2c92e, 0x92722c85],
     [0xa2bfe8a1, 0xa81a664b, 0xc24b8b70, 0xc76c51a3,
      0xd192e819, 0xd6990624, 0xf40e3585, 0x106aa070],
     [0x19a4c116, 0x1e376c08, 0x2748774c, 0x34b0bcb5,
      0x391c0cb3, 0x4ed8aa4a, 0x5b9cca4f, 0x682e6ff3],
     [0x748f82ee, 0x78a5636f, 0x84c87814, 0x8cc70208,
      0x90befffa, 0xa4506ceb, 0xbef9a3f7, 0xc67178f2]]"

definition sha256_Initialize :: "u32 list" where
  "sha256_Initialize = [0x6a09e667, 0xbb67ae85, 0x3c6ef372, 0xa54ff53a,
                        0x510e527f, 0x9b05688c, 0x1f83d9ab, 0x5be0cd19]"

text \<open>The word of round \<open>i\<close>: read from the chunk at first, then \<^verbatim>\<open>w_i += sigma1(..) + .. + sigma0(..)\<close>.\<close>

definition sha256_w :: "nat \<Rightarrow> u32 list \<Rightarrow> u32 list" where
  "sha256_w i w =
     (if i < 16 then w
      else w[i mod 16 := w ! (i mod 16) +
        (sigma1 (w ! ((i + 14) mod 16)) + w ! ((i + 9) mod 16) + sigma0 (w ! ((i + 1) mod 16)))])"

fun sha256_rounds :: "nat \<Rightarrow> u32 list \<Rightarrow> u32 list \<Rightarrow> regs8 \<Rightarrow> regs8" where
  "sha256_rounds i [] w r = r"
| "sha256_rounds i (k # ks) w r =
     (let w' = sha256_w i w
      in sha256_rounds (Suc i) ks w' (rotate_regs (sha256_Round r k (w' ! (i mod 16)))))"

fun regs_of :: "u32 list \<Rightarrow> regs8" where
  "regs_of [a, b, c, d, e, f, g, h] = (a, b, c, d, e, f, g, h)"
| "regs_of _ = (0, 0, 0, 0, 0, 0, 0, 0)"

fun add_regs :: "u32 list \<Rightarrow> regs8 \<Rightarrow> u32 list" where
  "add_regs st (a, b, c, d, e, f, g, h) = map2 (+) st [a, b, c, d, e, f, g, h]"

definition sha256_compress :: "u32 list \<Rightarrow> bytes \<Rightarrow> u32 list" where
  "sha256_compress st chunk = add_regs st (sha256_rounds 0 sha256_k (words_be chunk) (regs_of st))"

primrec sha256_Transform :: "u32 list \<Rightarrow> bytes \<Rightarrow> nat \<Rightarrow> u32 list" where
  "sha256_Transform st chunk 0 = st"
| "sha256_Transform st chunk (Suc blocks) =
     sha256_Transform (sha256_compress st chunk) (drop 64 chunk) blocks"

section \<open>The class CSHA256\<close>

text \<open>The constructor leaves \<^verbatim>\<open>buf\<close> unset; the model writes zeros, which no result depends on.\<close>

definition CSHA256_init :: hasher where
  "CSHA256_init = \<lparr>s = sha256_Initialize, buf = replicate 64 0, nbytes = 0\<rparr>"

definition CSHA256_Reset :: "hasher \<Rightarrow> hasher" where
  "CSHA256_Reset h = h\<lparr>nbytes := 0, s := sha256_Initialize\<rparr>"

text \<open>
  \<^verbatim>\<open>Write\<close> first completes a partly filled buffer; what follows (the full blocks straight from the
  source, then the remainder into the buffer) is \<open>CSHA256_absorb\<close>.
\<close>

definition CSHA256_absorb :: "hasher \<Rightarrow> nat \<Rightarrow> bytes \<Rightarrow> hasher" where
  "CSHA256_absorb h bufsize data =
     (let (h', data') =
            (if 64 \<le> length data
             then let blocks = length data div 64
                  in (h\<lparr>s := sha256_Transform (s h) data blocks,
                        nbytes := nbytes h + word_of_nat (64 * blocks)\<rparr>, drop (64 * blocks) data)
             else (h, data))
      in if data' \<noteq> []
         then h'\<lparr>buf := memcpy_at (buf h') bufsize data',
                 nbytes := nbytes h' + word_of_nat (length data')\<rparr>
         else h')"

definition CSHA256_Write :: "hasher \<Rightarrow> bytes \<Rightarrow> hasher" where
  "CSHA256_Write h data =
     (let bufsize = unat (nbytes h) mod 64
      in if bufsize \<noteq> 0 \<and> 64 \<le> bufsize + length data
         then let b = memcpy_at (buf h) bufsize (take (64 - bufsize) data)
              in CSHA256_absorb (h\<lparr>buf := b, nbytes := nbytes h + word_of_nat (64 - bufsize),
                                  s := sha256_Transform (s h) b 1\<rparr>) 0 (drop (64 - bufsize) data)
         else CSHA256_absorb h bufsize data)"

definition sha256_out :: "u32 list \<Rightarrow> bytes" where
  "sha256_out st = concat (map WriteBE32 st)"

text \<open>\<^verbatim>\<open>FinalizeNoPadding\<close> throws \<^verbatim>\<open>length_error\<close> when asked to compress something other than one block.\<close>

definition CSHA256_FinalizeNoPadding :: "hasher \<Rightarrow> bool \<Rightarrow> bytes option" where
  "CSHA256_FinalizeNoPadding h enforce_compression =
     (if enforce_compression \<and> nbytes h \<noteq> 64 then None else Some (sha256_out (s h)))"

text \<open>\<open>CSHA256_padded\<close> is the object that the two writes of \<^verbatim>\<open>Finalize\<close> leave behind.\<close>

definition CSHA256_padded :: "hasher \<Rightarrow> hasher" where
  "CSHA256_padded h =
     (let sizedesc = WriteBE64 (push_bit 3 (nbytes h));
          pad = 0x80 # replicate 63 0;
          h1 = CSHA256_Write h (take (1 + (119 - unat (nbytes h) mod 64) mod 64) pad)
      in CSHA256_Write h1 sizedesc)"

definition CSHA256_Finalize :: "hasher \<Rightarrow> bytes option" where
  "CSHA256_Finalize h = CSHA256_FinalizeNoPadding (CSHA256_padded h) False"

text \<open>\<^verbatim>\<open>SelfTest\<close>: the check that \<^verbatim>\<open>SHA256AutoDetect\<close> asserts at start-up.\<close>

definition SelfTest :: "(u32 list \<Rightarrow> bytes \<Rightarrow> nat \<Rightarrow> u32 list) \<Rightarrow> bool" where
  "SelfTest tr =
     (let in1 = 0x80 # replicate 63 0;
          in2 = replicate 64 32 @ 0x80 # replicate 61 0 @ [2, 0];
          ini = [0x6a09e667, 0xbb67ae85, 0x3c6ef372, 0xa54ff53a,
                 0x510e527f, 0x9b05688c, 0x1f83d9ab, 0x5be0cd19];
          out1 = [0xe3b0c442, 0x98fc1c14, 0x9afbf4c8, 0x996fb924,
                  0x27ae41e4, 0x649b934c, 0xa495991b, 0x7852b855];
          out2 = [0xce4153b0, 0x147c2a86, 0x3ed4298e, 0xe0676bc8,
                  0x79fc77a1, 0x2abe1f49, 0xb2b055df, 0x1069523e]
      in tr ini [] 0 = ini \<and> tr ini in1 1 = out1 \<and> tr ini in2 2 = out2)"

section \<open>Feeding a message in pieces\<close>

lemma sha256_compress_take [simp]: "sha256_compress st (take 64 c) = sha256_compress st c"
  by (simp add: sha256_compress_def words_be_take)

lemma sha256_Transform_blocks:
  "64 * n \<le> length c \<Longrightarrow>
   sha256_Transform st c n = foldl sha256_compress st (blocks64 (take (64 * n) c))"
proof (induction n arbitrary: st c)
  case 0
  then show ?case by simp
next
  case (Suc n)
  then have "blocks64 (take (64 * Suc n) c) = take 64 c # blocks64 (take (64 * n) (drop 64 c))"
    by (subst blocks64_long) (simp_all add: drop_take min_def)
  with Suc show ?case by simp
qed

lemma sha256_Transform_all:
  "sha256_Transform st c (length c div 64) = foldl sha256_compress st (blocks64 c)"
  by (simp add: sha256_Transform_blocks blocks64_full_prefix)

lemma CSHA256_absorb_empty:
  "CSHA256_absorb h 0 d = h\<lparr>s := foldl sha256_compress (s h) (blocks64 d),
     buf := memcpy_at (buf h) 0 (rest64 d), nbytes := nbytes h + word_of_nat (length d)\<rparr>"
proof -
  let ?h = "h\<lparr>s := foldl sha256_compress (s h) (blocks64 d),
              nbytes := nbytes h + word_of_nat (64 * (length d div 64))\<rparr>"
  have split: "CSHA256_absorb h 0 d = (if rest64 d \<noteq> []
      then ?h\<lparr>buf := memcpy_at (buf h) 0 (rest64 d), nbytes := nbytes ?h + word_of_nat (length (rest64 d))\<rparr>
      else ?h)"
    by (cases "64 \<le> length d")
      (simp_all add: CSHA256_absorb_def sha256_Transform_all Let_def rest64_def)
  have "64 * (length d div 64) + length (rest64 d) = length d" by simp
  then have len: "word_of_nat (64 * (length d div 64)) + word_of_nat (length (rest64 d))
      = (word_of_nat (length d) :: u64)"
    by (metis of_nat_add)
  show ?thesis
  proof (cases "rest64 d = []")
    case True
    with len have "word_of_nat (64 * (length d div 64)) = (word_of_nat (length d) :: u64)" by simp
    with True show ?thesis by (simp only: split) (simp add: memcpy_at_def)
  next
    case False
    with len show ?thesis by (simp only: split) (simp add: add.assoc)
  qed
qed

lemma CSHA256_absorb_short:
  "length d < 64 \<Longrightarrow> CSHA256_absorb h f d =
     h\<lparr>buf := memcpy_at (buf h) f d, nbytes := nbytes h + word_of_nat (length d)\<rparr>"
  by (simp add: CSHA256_absorb_def memcpy_at_def)


lemma CSHA256_Write_inv:
  assumes inv: "hash_inv sha256_compress init h m"
  shows "hash_inv sha256_compress init (CSHA256_Write h d) (m @ d)"
proof (rule write_contract [OF inv refl, where b = "memcpy_at (buf h) (length m mod 64)
                              (take (64 - length m mod 64) d)"])
  let ?f = "length m mod 64"
  let ?b = "memcpy_at (buf h) ?f (take (64 - ?f) d)"
  let ?d1 = "drop (64 - ?f) d"
  have fill: "unat (nbytes h) mod 64 = ?f" and buf: "length (buf h) = 64"
    and rest: "take ?f (buf h) = rest64 m"
    using inv by (simp_all add: hash_inv_def)
  note flush = flush_split [OF inv]
  show "length ?b = 64 \<and> CSHA256_Write h d =
        \<lparr>s = foldl sha256_compress (s h) (blocks64 (rest64 m @ d)),
         buf = memcpy_at ?b 0 (rest64 (m @ d)), nbytes = nbytes h + word_of_nat (length d)\<rparr>"
    if long: "?f \<noteq> 0" "64 \<le> ?f + length d"
    using flush [OF long] long
    by (simp add: CSHA256_Write_def fill Let_def CSHA256_absorb_empty blocks64_one add.assoc)
  show "CSHA256_Write h d = h\<lparr>buf := memcpy_at (buf h) ?f d, nbytes := nbytes h + word_of_nat (length d)\<rparr>"
    if "?f \<noteq> 0" "?f + length d < 64"
    using that by (simp add: CSHA256_Write_def fill CSHA256_absorb_short)
  show "CSHA256_Write h d = \<lparr>s = foldl sha256_compress (s h) (blocks64 d), 
      buf = memcpy_at (buf h) 0 (rest64 d), nbytes = nbytes h + word_of_nat (length d)\<rparr>"
    if "?f = 0"
    using that by (simp add: CSHA256_Write_def fill CSHA256_absorb_empty)
qed

interpretation csha256: md_hasher sha256_compress sha256_Initialize CSHA256_init CSHA256_Write
  CSHA256_Finalize WriteBE64 "\<lambda>st. Some (sha256_out st)"
proof
  show "hash_inv sha256_compress sha256_Initialize CSHA256_init []"
    by (simp add: hash_inv_def CSHA256_init_def)
next
  show "CSHA256_Finalize h = Some (sha256_out (s (CSHA256_Write
      (CSHA256_Write h (0x80 # replicate (pad_zeros (unat (nbytes h))) 0))
      (WriteBE64 (push_bit 3 (nbytes h))))))" for h
    by (simp only: CSHA256_Finalize_def CSHA256_padded_def Let_def take_pad CSHA256_FinalizeNoPadding_def) simp
qed (simp_all add: CSHA256_Write_inv)

section \<open>The standard's compression function\<close>

text \<open>FIPS 180-4, sections 4.1.2 and 6.2.2.\<close>

definition fips_Ch :: "u32 \<Rightarrow> u32 \<Rightarrow> u32 \<Rightarrow> u32" where
  "fips_Ch x y z = (x AND y) XOR (NOT x AND z)"

definition fips_Maj :: "u32 \<Rightarrow> u32 \<Rightarrow> u32 \<Rightarrow> u32" where
  "fips_Maj x y z = (x AND y) XOR (x AND z) XOR (y AND z)"

definition fips_S0 :: "u32 \<Rightarrow> u32" where
  "fips_S0 x = word_rotr 2 x XOR word_rotr 13 x XOR word_rotr 22 x"

definition fips_S1 :: "u32 \<Rightarrow> u32" where
  "fips_S1 x = word_rotr 6 x XOR word_rotr 11 x XOR word_rotr 25 x"

definition fips_s0 :: "u32 \<Rightarrow> u32" where
  "fips_s0 x = word_rotr 7 x XOR word_rotr 18 x XOR drop_bit 3 x"

definition fips_s1 :: "u32 \<Rightarrow> u32" where
  "fips_s1 x = word_rotr 17 x XOR word_rotr 19 x XOR drop_bit 10 x"

definition fips_next :: word_upd where
  "fips_next f = fips_s1 (f 14) + f 9 + fips_s0 (f 1) + f 0"

definition fips_schedule :: "u32 list \<Rightarrow> u32 list" where
  "fips_schedule M = schedule fips_next M 48"

fun fips_step :: "regs8 \<Rightarrow> u32 \<times> u32 \<Rightarrow> regs8" where
  "fips_step (a, b, c, d, e, f, g, h) (k, w) =
     (let T1 = h + fips_S1 e + fips_Ch e f g + k + w; T2 = fips_S0 a + fips_Maj a b c
      in (T1 + T2, a, b, c, d + T1, e, f, g))"

definition fips_compress :: "u32 list \<Rightarrow> bytes \<Rightarrow> u32 list" where
  "fips_compress H M =
     add_regs H (foldl fips_step (regs_of H) (zip sha256_k (fips_schedule (words_be M))))"

lemma rotr32: "0 < n \<Longrightarrow> n < 32 \<Longrightarrow> m = 32 - n \<Longrightarrow> drop_bit n x OR push_bit m x = word_rotr n (x :: u32)"
  by (rule bit_eqI) (auto simp: bit_simps mod_if add.commute [of n] dest: bit_imp_le_length)

lemma Ch_fips: "Ch x y z = fips_Ch x y z"
  by (rule bit_eqI) (auto simp: Ch_def fips_Ch_def bit_simps)

lemma Maj_fips: "Maj x y z = fips_Maj x y z"
  by (rule bit_eqI) (auto simp: Maj_def fips_Maj_def bit_simps)

lemma Sigma_fips:
  "Sigma0 x = fips_S0 x" "Sigma1 x = fips_S1 x" "sigma0 x = fips_s0 x" "sigma1 x = fips_s1 x"
  by (simp_all add: Sigma0_def Sigma1_def sigma0_def sigma1_def fips_S0_def fips_S1_def
      fips_s0_def fips_s1_def rotr32)

lemma round_fips: "rotate_regs (sha256_Round r k w) = fips_step r (k, w)"
  by (cases "(r, k, w)" rule: sha256_Round.cases) (simp add: Let_def Sigma_fips Ch_fips Maj_fips)

interpretation sha256_sched: circular_schedule fips_next
  by unfold_locales (simp add: fips_next_def)

lemma sha256_w_circ: "sha256_w i w = circ_step fips_next i w"
  by (simp add: sha256_w_def circ_step_def fips_next_def Sigma_fips add.commute)

lemma sha256_rounds_circ:
  "sha256_rounds i ks w r = circ_rounds fips_next fips_step i ks w r"
  by (induction ks arbitrary: i w r) (simp_all add: Let_def sha256_w_circ round_fips)

lemma length_sha256_k [simp]: "length sha256_k = 64"
  by (simp add: sha256_k_def)

lemma compress_is_fips: "sha256_compress H M = fips_compress H M"
  by (simp add: sha256_compress_def fips_compress_def fips_schedule_def sha256_rounds_circ
      sha256_sched.rounds_block [where n = 48])

definition fips_sha256 :: "bytes \<Rightarrow> bytes" where
  "fips_sha256 m = sha256_out (foldl fips_compress sha256_Initialize (blocks64 (md_pad WriteBE64 m)))"

lemma length_add_regs: "length st = 8 \<Longrightarrow> length (add_regs st r) = 8"
  by (cases "(st, r)" rule: add_regs.cases) simp

lemma length_fips_step: "length st = 8 \<Longrightarrow> length (fips_compress st c) = 8"
  by (simp add: fips_compress_def length_add_regs)

lemma length_sha256_out: "length (sha256_out st) = 4 * length st"
  by (simp add: sha256_out_def length_concat_const)

lemma length_fold_fips: "length st = 8 \<Longrightarrow> length (foldl fips_compress st bs) = 8"
  by (induction bs arbitrary: st) (simp_all add: length_fips_step)

lemma length_fips_sha256 [simp]: "length (fips_sha256 m) = 32"
  by (simp add: fips_sha256_def length_sha256_out length_fold_fips sha256_Initialize_def)

lemma sha256_digest:
  "CSHA256_Finalize (foldl CSHA256_Write CSHA256_init ds) = Some (fips_sha256 (concat ds))"
  using csha256.digest_of_pieces [of ds] by (simp add: fips_sha256_def compress_is_fips [abs_def])

text \<open>A hasher that has been \<^verbatim>\<open>Reset\<close> has been fed the empty message.\<close>

lemma CSHA256_Reset_inv:
  "length (buf h) = 64 \<Longrightarrow> hash_inv sha256_compress sha256_Initialize (CSHA256_Reset h) []"
  by (simp add: hash_inv_def CSHA256_Reset_def)

lemma sha256_digest_inv:
  "hash_inv sha256_compress sha256_Initialize h m \<Longrightarrow> CSHA256_Finalize h = Some (fips_sha256 m)"
  using csha256.fin_padded [of h m] by (simp add: fips_sha256_def compress_is_fips [abs_def])

lemma CSHA256_padded_buf:
  "hash_inv sha256_compress sha256_Initialize h m \<Longrightarrow> length (buf (CSHA256_padded h)) = 64"
  using CSHA256_Write_inv [OF CSHA256_Write_inv]
  unfolding CSHA256_padded_def Let_def hash_inv_def by blast

section \<open>Properties\<close>

text \<open>
  C1: for every way of cutting a message into calls of \<^verbatim>\<open>CSHA256::Write\<close>, \<^verbatim>\<open>Finalize\<close> does not throw and
  writes the SHA-256 digest of the whole message as FIPS 180-4 defines it: padding, 64-word message
  schedule, 64 steps on each block.
\<close>

theorem sha256_streaming_correct:
  "CSHA256_Finalize (foldl CSHA256_Write CSHA256_init ds) = Some (fips_sha256 (concat ds))"
  by (rule sha256_digest)

text \<open>
  After \<^verbatim>\<open>Reset\<close> the object is as good as a new one, whatever it was fed before, also the stale
  bytes of its buffer and a \<^verbatim>\<open>Write\<close> in the middle of a block.
\<close>

lemma sha256_reset_reuse:
  "CSHA256_Finalize (foldl CSHA256_Write (CSHA256_Reset (foldl CSHA256_Write CSHA256_init old)) ds) =
   Some (fips_sha256 (concat ds))"
proof -
  let ?h = "foldl CSHA256_Write CSHA256_init old"
  have "length (buf ?h) = 64"
    using csha256.writes_inv [OF csha256.start_inv, of old] by (simp add: hash_inv_def)
  from csha256.writes_inv [OF CSHA256_Reset_inv [OF this], of ds]
  show ?thesis by (simp add: sha256_digest_inv)
qed

text \<open>
  The unrolled \<^verbatim>\<open>Transform\<close> on \<open>n\<close> blocks, which keeps sixteen schedule words and rotates the eight
  variables instead of moving them, is the standard's compression folded over the blocks.
\<close>

lemma sha256_Transform_fips:
  "64 * n \<le> length c \<Longrightarrow>
   sha256_Transform st c n = foldl fips_compress st (blocks64 (take (64 * n) c))"
  by (simp add: sha256_Transform_blocks compress_is_fips [abs_def])

end
