(* ===== verification/Sha1.thy ===== *)
theory Sha1
  imports BlockHash
begin

text \<open>
  \<^verbatim>\<open>src/src/crypto/sha1.cpp\<close>: \<^verbatim>\<open>Transform\<close> and the class \<^verbatim>\<open>CSHA1\<close>, laid out as in \<open>Sha256\<close>: the 80
  unrolled rounds are a loop in which the five variables rotate and \<^verbatim>\<open>w0..w15\<close> are a circular
  buffer. The reference is the SHA-1 of FIPS 180-4 with its 80-word schedule.
\<close>

section \<open>The transformation\<close>

type_synonym regs5 = "u32 \<times> u32 \<times> u32 \<times> u32 \<times> u32"

text \<open>One \<^verbatim>\<open>Round\<close>, which changes \<open>b\<close> and \<open>e\<close>.\<close>

fun sha1_Round :: "regs5 \<Rightarrow> u32 \<Rightarrow> u32 \<Rightarrow> u32 \<Rightarrow> regs5" where
  "sha1_Round (a, b, c, d, e) f k w =
     (a, push_bit 30 b OR drop_bit 2 b, c, d, e + ((push_bit 5 a OR drop_bit 27 a) + f + k + w))"

definition sha1_f1 :: "u32 \<Rightarrow> u32 \<Rightarrow> u32 \<Rightarrow> u32" where
  "sha1_f1 b c d = d XOR (b AND (c XOR d))"

definition sha1_f2 :: "u32 \<Rightarrow> u32 \<Rightarrow> u32 \<Rightarrow> u32" where
  "sha1_f2 b c d = b XOR c XOR d"

definition sha1_f3 :: "u32 \<Rightarrow> u32 \<Rightarrow> u32 \<Rightarrow> u32" where
  "sha1_f3 b c d = (b AND c) OR (d AND (b OR c))"

definition sha1_left :: "u32 \<Rightarrow> u32" where
  "sha1_left x = push_bit 1 x OR drop_bit 31 x"

definition sha1_Initialize :: "u32 list" where
  "sha1_Initialize = [0x67452301, 0xEFCDAB89, 0x98BADCFE, 0x10325476, 0xC3D2E1F0]"

definition sha1_k1 :: u32 where "sha1_k1 = 0x5A827999"
definition sha1_k2 :: u32 where "sha1_k2 = 0x6ED9EBA1"
definition sha1_k3 :: u32 where "sha1_k3 = 0x8F1BBCDC"
definition sha1_k4 :: u32 where "sha1_k4 = 0xCA62C1D6"

text \<open>Which function and constant each of the 80 calls passes, twenty calls each.\<close>

definition sha1_calls :: "((u32 \<Rightarrow> u32 \<Rightarrow> u32 \<Rightarrow> u32) \<times> u32) list" where
  "sha1_calls = replicate 20 (sha1_f1, sha1_k1) @ replicate 20 (sha1_f2, sha1_k2) @
                replicate 20 (sha1_f3, sha1_k3) @ replicate 20 (sha1_f2, sha1_k4)"

text \<open>The word of round \<open>i\<close>: \<^verbatim>\<open>w_i = left(w_i ^ w_{i+13} ^ w_{i+8} ^ w_{i+2})\<close> from round 16 on.\<close>

definition sha1_w :: "nat \<Rightarrow> u32 list \<Rightarrow> u32 list" where
  "sha1_w i w =
     (if i < 16 then w
      else w[i mod 16 := sha1_left (w ! (i mod 16) XOR w ! ((i + 13) mod 16) XOR
                                    w ! ((i + 8) mod 16) XOR w ! ((i + 2) mod 16))])"

text \<open>One call: the round, and the variables one place further on for the next.\<close>

fun sha1_call :: "regs5 \<Rightarrow> (u32 \<Rightarrow> u32 \<Rightarrow> u32 \<Rightarrow> u32) \<times> u32 \<Rightarrow> u32 \<Rightarrow> regs5" where
  "sha1_call (a, b, c, d, e) (f, k) w =
     (case sha1_Round (a, b, c, d, e) (f b c d) k w of (a', b', c', d', e') \<Rightarrow> (e', a', b', c', d'))"

fun sha1_rounds :: "nat \<Rightarrow> ((u32 \<Rightarrow> u32 \<Rightarrow> u32 \<Rightarrow> u32) \<times> u32) list \<Rightarrow> u32 list \<Rightarrow> regs5 \<Rightarrow> regs5" where
  "sha1_rounds i [] w r = r"
| "sha1_rounds i (fk # fks) w r =
     (let w' = sha1_w i w in sha1_rounds (Suc i) fks w' (sha1_call r fk (w' ! (i mod 16))))"

fun regs5_of :: "u32 list \<Rightarrow> regs5" where
  "regs5_of [a, b, c, d, e] = (a, b, c, d, e)"
| "regs5_of _ = (0, 0, 0, 0, 0)"

fun add_regs5 :: "u32 list \<Rightarrow> regs5 \<Rightarrow> u32 list" where
  "add_regs5 st (a, b, c, d, e) = map2 (+) st [a, b, c, d, e]"

definition sha1_Transform :: "u32 list \<Rightarrow> bytes \<Rightarrow> u32 list" where
  "sha1_Transform st chunk = add_regs5 st (sha1_rounds 0 sha1_calls (words_be chunk) (regs5_of st))"

section \<open>The class CSHA1\<close>

definition CSHA1_init :: hasher where
  "CSHA1_init = \<lparr>s = sha1_Initialize, buf = replicate 64 0, nbytes = 0\<rparr>"

definition CSHA1_Reset :: "hasher \<Rightarrow> hasher" where
  "CSHA1_Reset h = h\<lparr>nbytes := 0, s := sha1_Initialize\<rparr>"

definition CSHA1_Write :: "hasher \<Rightarrow> bytes \<Rightarrow> hasher" where
  "CSHA1_Write = md_write sha1_Transform"

definition CSHA1_Finalize :: "hasher \<Rightarrow> bytes" where
  "CSHA1_Finalize h =
     (let pad = 0x80 # replicate 63 0;
          sizedesc = WriteBE64 (push_bit 3 (nbytes h));
          h1 = CSHA1_Write h (take (1 + (119 - unat (nbytes h) mod 64) mod 64) pad);
          h2 = CSHA1_Write h1 sizedesc
      in concat (map WriteBE32 (s h2)))"

lemma sha1_local: "local_block sha1_Transform"
  by (simp add: local_block_def sha1_Transform_def words_be_take)

interpretation csha1: md_hasher sha1_Transform sha1_Initialize CSHA1_init CSHA1_Write
  CSHA1_Finalize WriteBE64 "\<lambda>st. concat (map WriteBE32 st)"
proof
  show "hash_inv sha1_Transform sha1_Initialize CSHA1_init []"
    by (simp add: hash_inv_def CSHA1_init_def)
next
  show "CSHA1_Finalize h = concat (map WriteBE32 (s (CSHA1_Write
      (CSHA1_Write h (0x80 # replicate (pad_zeros (unat (nbytes h))) 0))
      (WriteBE64 (push_bit 3 (nbytes h))))))" for h
    by (simp only: CSHA1_Finalize_def Let_def take_pad)
qed (simp_all add: CSHA1_Write_def md_write_inv [OF sha1_local])

section \<open>The standard's SHA-1\<close>

text \<open>FIPS 180-4, sections 4.1.1, 4.2.1 and 6.1.2.\<close>

definition fips_f :: "nat \<Rightarrow> u32 \<Rightarrow> u32 \<Rightarrow> u32 \<Rightarrow> u32" where
  "fips_f t x y z =
     (if t < 20 then (x AND y) XOR (NOT x AND z)
      else if t < 40 then x XOR y XOR z
      else if t < 60 then (x AND y) XOR (x AND z) XOR (y AND z)
      else x XOR y XOR z)"

definition fips_K :: "nat \<Rightarrow> u32" where
  "fips_K t = (if t < 20 then 0x5a827999 else if t < 40 then 0x6ed9eba1
               else if t < 60 then 0x8f1bbcdc else 0xca62c1d6)"

definition sha1_next :: word_upd where
  "sha1_next f = word_rotl 1 (f 13 XOR f 8 XOR f 2 XOR f 0)"

fun sha1_step :: "regs5 \<Rightarrow> nat \<times> u32 \<Rightarrow> regs5" where
  "sha1_step (a, b, c, d, e) (t, w) =
     (word_rotl 5 a + fips_f t b c d + e + fips_K t + w, a, word_rotl 30 b, c, d)"

definition fips_sha1_block :: "u32 list \<Rightarrow> bytes \<Rightarrow> u32 list" where
  "fips_sha1_block H M =
     add_regs5 H (foldl sha1_step (regs5_of H) (zip [0..<80] (schedule sha1_next (words_be M) 64)))"

definition fips_sha1 :: "bytes \<Rightarrow> bytes" where
  "fips_sha1 m =
     concat (map WriteBE32 (foldl fips_sha1_block sha1_Initialize (blocks64 (md_pad WriteBE64 m))))"

lemma rotl32: "0 < n \<Longrightarrow> n < 32 \<Longrightarrow> m = 32 - n \<Longrightarrow> push_bit n x OR drop_bit m x = word_rotl n (x :: u32)"
  by (rule bit_eqI) (auto simp: bit_simps mod_if add.commute [of 32] dest: bit_imp_le_length)

lemma sha1_functions:
  "sha1_f1 x y z = (x AND y) XOR (NOT x AND z)"
  "sha1_f3 x y z = (x AND y) XOR (x AND z) XOR (y AND z)"
  by (rule bit_eqI, auto simp: sha1_f1_def sha1_f3_def bit_simps)+

lemma sha1_calls_fips: "sha1_calls = map (\<lambda>t. (fips_f t, fips_K t)) [0..<80]"
proof (rule nth_equalityI)
  fix t assume "t < length sha1_calls"
  then have "t < 80" by (simp add: sha1_calls_def)
  then show "sha1_calls ! t = map (\<lambda>t. (fips_f t, fips_K t)) [0..<80] ! t"
    by (auto simp: sha1_calls_def nth_append fips_f_def [abs_def] fips_K_def sha1_functions [abs_def]
        sha1_f2_def [abs_def] sha1_k1_def sha1_k2_def sha1_k3_def sha1_k4_def)
qed (simp add: sha1_calls_def)

lemma sha1_call_step: "sha1_call r (fips_f t, fips_K t) w = sha1_step r (t, w)"
  by (cases r) (simp add: rotl32 algebra_simps)

interpretation sha1_sched: circular_schedule sha1_next
  by unfold_locales (simp add: sha1_next_def)

lemma sha1_left_rotl: "sha1_left x = word_rotl 1 x"
  unfolding sha1_left_def by (rule rotl32) simp_all

lemma sha1_w_circ: "sha1_w i w = circ_step sha1_next i w"
  by (simp add: sha1_w_def circ_step_def sha1_next_def sha1_left_rotl ac_simps)

lemma sha1_rounds_circ:
  "sha1_rounds i (map (\<lambda>t. (fips_f t, fips_K t)) ts) w r = circ_rounds sha1_next sha1_step i ts w r"
  by (induction ts arbitrary: i w r) (simp_all add: Let_def sha1_w_circ sha1_call_step)

lemma sha1_Transform_fips: "sha1_Transform H M = fips_sha1_block H M"
  by (simp add: sha1_Transform_def fips_sha1_block_def sha1_calls_fips sha1_rounds_circ
      sha1_sched.rounds_block [where n = 64] del: upt_rec_numeral)

lemma CSHA1_Reset_inv:
  "length (buf h) = 64 \<Longrightarrow> hash_inv sha1_Transform sha1_Initialize (CSHA1_Reset h) []"
  by (simp add: hash_inv_def CSHA1_Reset_def)

lemma sha1_digest: "hash_inv sha1_Transform sha1_Initialize h m \<Longrightarrow> CSHA1_Finalize h = fips_sha1 m"
  using csha1.fin_padded [of h m] by (simp add: fips_sha1_def sha1_Transform_fips [abs_def])

lemma sha1_one: "CSHA1_Finalize (CSHA1_Write CSHA1_init b) = fips_sha1 b"
  using csha1.wr_inv [OF csha1.start_inv, of b] by (simp add: sha1_digest)

lemma length_add_regs5: "length st = 5 \<Longrightarrow> length (add_regs5 st r) = 5"
  by (cases r) simp

lemma length_fips_sha1 [simp]: "length (fips_sha1 m) = 20"
proof -
  have "length (foldl fips_sha1_block st bs) = 5" if "length st = 5" for st bs
    using that by (induction bs arbitrary: st) (simp_all add: fips_sha1_block_def length_add_regs5)
  then show ?thesis by (simp add: fips_sha1_def length_concat_const sha1_Initialize_def)
qed

section \<open>Properties\<close>

text \<open>
  C2: for every way of cutting a message into calls of \<^verbatim>\<open>CSHA1::Write\<close>, on a new object or on one that
  has been used and \<^verbatim>\<open>Reset\<close>, \<^verbatim>\<open>Finalize\<close> writes the SHA-1 digest of the message as FIPS 180-4
  defines it.
\<close>

theorem sha1_streaming_correct:
  "CSHA1_Finalize (foldl CSHA1_Write CSHA1_init ds) = fips_sha1 (concat ds) \<and>
   CSHA1_Finalize (foldl CSHA1_Write (CSHA1_Reset (foldl CSHA1_Write CSHA1_init old)) ds) = fips_sha1 (concat ds)"
proof
  show "CSHA1_Finalize (foldl CSHA1_Write CSHA1_init ds) = fips_sha1 (concat ds)"
    using csha1.writes_inv [OF csha1.start_inv, of ds] by (simp add: sha1_digest)
  have "length (buf (foldl CSHA1_Write CSHA1_init old)) = 64"
    using csha1.writes_inv [OF csha1.start_inv, of old] by (simp add: hash_inv_def)
  from csha1.writes_inv [OF CSHA1_Reset_inv [OF this], of ds]
  show "CSHA1_Finalize (foldl CSHA1_Write (CSHA1_Reset (foldl CSHA1_Write CSHA1_init old)) ds) =
      fips_sha1 (concat ds)"
    by (simp add: sha1_digest)
qed

end
