(* ===== verification/Ripemd160.thy ===== *)
theory Ripemd160
  imports Sha1
begin

text \<open>
  \<^verbatim>\<open>src/src/crypto/ripemd160.cpp\<close>: \<^verbatim>\<open>Transform\<close> and the class \<^verbatim>\<open>CRIPEMD160\<close>. The source interleaves the
  calls of the left line (variables \<^verbatim>\<open>a1..e1\<close>) and of the right line (\<^verbatim>\<open>a2..e2\<close>); the two share no
  variable, so the model runs one after the other, each as the list of its 80 calls with the word
  index and the rotation of the call. The reference gives the order of the words by the
  permutations of the RIPEMD-160 paper and the rotations by its table.
\<close>

section \<open>The transformation\<close>

definition rmd_f1 :: "u32 \<Rightarrow> u32 \<Rightarrow> u32 \<Rightarrow> u32" where "rmd_f1 x y z = x XOR y XOR z"
definition rmd_f2 :: "u32 \<Rightarrow> u32 \<Rightarrow> u32 \<Rightarrow> u32" where "rmd_f2 x y z = (x AND y) OR (NOT x AND z)"
definition rmd_f3 :: "u32 \<Rightarrow> u32 \<Rightarrow> u32 \<Rightarrow> u32" where "rmd_f3 x y z = (x OR NOT y) XOR z"
definition rmd_f4 :: "u32 \<Rightarrow> u32 \<Rightarrow> u32 \<Rightarrow> u32" where "rmd_f4 x y z = (x AND z) OR (y AND NOT z)"
definition rmd_f5 :: "u32 \<Rightarrow> u32 \<Rightarrow> u32 \<Rightarrow> u32" where "rmd_f5 x y z = x XOR (y OR NOT z)"

definition rmd_Initialize :: "u32 list" where
  "rmd_Initialize = [0x67452301, 0xEFCDAB89, 0x98BADCFE, 0x10325476, 0xC3D2E1F0]"

definition rol :: "u32 \<Rightarrow> nat \<Rightarrow> u32" where
  "rol x i = push_bit i x OR drop_bit (32 - i) x"

text \<open>One \<^verbatim>\<open>Round\<close>, which changes \<open>a\<close> and \<open>c\<close>.\<close>

fun rmd_Round :: "regs5 \<Rightarrow> u32 \<Rightarrow> u32 \<Rightarrow> u32 \<Rightarrow> nat \<Rightarrow> regs5" where
  "rmd_Round (a, b, c, d, e) f x k r = (rol (a + f + x + k) r + e, b, rol c 10, d, e)"

fun R11 :: "regs5 \<Rightarrow> u32 \<Rightarrow> nat \<Rightarrow> regs5" where
  "R11 (a, b, c, d, e) x r = rmd_Round (a, b, c, d, e) (rmd_f1 b c d) x 0 r"

fun R21 :: "regs5 \<Rightarrow> u32 \<Rightarrow> nat \<Rightarrow> regs5" where
  "R21 (a, b, c, d, e) x r = rmd_Round (a, b, c, d, e) (rmd_f2 b c d) x 0x5A827999 r"

fun R31 :: "regs5 \<Rightarrow> u32 \<Rightarrow> nat \<Rightarrow> regs5" where
  "R31 (a, b, c, d, e) x r = rmd_Round (a, b, c, d, e) (rmd_f3 b c d) x 0x6ED9EBA1 r"

fun R41 :: "regs5 \<Rightarrow> u32 \<Rightarrow> nat \<Rightarrow> regs5" where
  "R41 (a, b, c, d, e) x r = rmd_Round (a, b, c, d, e) (rmd_f4 b c d) x 0x8F1BBCDC r"

fun R51 :: "regs5 \<Rightarrow> u32 \<Rightarrow> nat \<Rightarrow> regs5" where
  "R51 (a, b, c, d, e) x r = rmd_Round (a, b, c, d, e) (rmd_f5 b c d) x 0xA953FD4E r"

fun R12 :: "regs5 \<Rightarrow> u32 \<Rightarrow> nat \<Rightarrow> regs5" where
  "R12 (a, b, c, d, e) x r = rmd_Round (a, b, c, d, e) (rmd_f5 b c d) x 0x50A28BE6 r"

fun R22 :: "regs5 \<Rightarrow> u32 \<Rightarrow> nat \<Rightarrow> regs5" where
  "R22 (a, b, c, d, e) x r = rmd_Round (a, b, c, d, e) (rmd_f4 b c d) x 0x5C4DD124 r"

fun R32 :: "regs5 \<Rightarrow> u32 \<Rightarrow> nat \<Rightarrow> regs5" where
  "R32 (a, b, c, d, e) x r = rmd_Round (a, b, c, d, e) (rmd_f3 b c d) x 0x6D703EF3 r"

fun R42 :: "regs5 \<Rightarrow> u32 \<Rightarrow> nat \<Rightarrow> regs5" where
  "R42 (a, b, c, d, e) x r = rmd_Round (a, b, c, d, e) (rmd_f2 b c d) x 0x7A6D76E9 r"

fun R52 :: "regs5 \<Rightarrow> u32 \<Rightarrow> nat \<Rightarrow> regs5" where
  "R52 (a, b, c, d, e) x r = rmd_Round (a, b, c, d, e) (rmd_f1 b c d) x 0 r"

text \<open>The next call of a line names the five variables one place further on.\<close>

fun rotate_regs5 :: "regs5 \<Rightarrow> regs5" where
  "rotate_regs5 (a, b, c, d, e) = (e, a, b, c, d)"

type_synonym rmd_call = "(regs5 \<Rightarrow> u32 \<Rightarrow> nat \<Rightarrow> regs5) \<times> nat \<times> nat"

definition calls :: "(regs5 \<Rightarrow> u32 \<Rightarrow> nat \<Rightarrow> regs5) \<Rightarrow> (nat \<times> nat) list \<Rightarrow> rmd_call list" where
  "calls R = map (\<lambda>(j, r). (R, j, r))"

definition rmd_left_words :: "(nat \<times> nat) list list" where
  "rmd_left_words = [
     [(0, 11), (1, 14), (2, 15), (3, 12), (4, 5), (5, 8), (6, 7), (7, 9),
      (8, 11), (9, 13), (10, 14), (11, 15), (12, 6), (13, 7), (14, 9), (15, 8)],
     [(7, 7), (4, 6), (13, 8), (1, 13), (10, 11), (6, 9), (15, 7), (3, 15),
      (12, 7), (0, 12), (9, 15), (5, 9), (2, 11), (14, 7), (11, 13), (8, 12)],
     [(3, 11), (10, 13), (14, 6), (4, 7), (9, 14), (15, 9), (8, 13), (1, 15),
      (2, 14), (7, 8), (0, 13), (6, 6), (13, 5), (11, 12), (5, 7), (12, 5)],
     [(1, 11), (9, 12), (11, 14), (10, 15), (0, 14), (8, 15), (12, 9), (4, 8),
      (13, 9), (3, 14), (7, 5), (15, 6), (14, 8), (5, 6), (6, 5), (2, 12)],
     [(4, 9), (0, 15), (5, 5), (9, 11), (7, 6), (12, 8), (2, 13), (10, 12),
      (14, 5), (1, 12), (3, 13), (8, 14), (11, 11), (6, 8), (15, 5), (13, 6)]]"

definition rmd_left :: "rmd_call list" where
  "rmd_left = concat (map2 calls [R11, R21, R31, R41, R51] rmd_left_words)"

definition rmd_right_words :: "(nat \<times> nat) list list" where
  "rmd_right_words = [
     [(5, 8), (14, 9), (7, 9), (0, 11), (9, 13), (2, 15), (11, 15), (4, 5),
      (13, 7), (6, 7), (15, 8), (8, 11), (1, 14), (10, 14), (3, 12), (12, 6)],
     [(6, 9), (11, 13), (3, 15), (7, 7), (0, 12), (13, 8), (5, 9), (10, 11),
      (14, 7), (15, 7), (8, 12), (12, 7), (4, 6), (9, 15), (1, 13), (2, 11)],
     [(15, 9), (5, 7), (1, 15), (3, 11), (7, 8), (14, 6), (6, 6), (9, 14),
      (11, 12), (8, 13), (12, 5), (2, 14), (10, 13), (0, 13), (4, 7), (13, 5)],
     [(8, 15), (6, 5), (4, 8), (1, 11), (3, 14), (11, 14), (15, 6), (0, 14),
      (5, 6), (12, 9), (2, 12), (13, 9), (9, 12), (7, 5), (10, 15), (14, 8)],
     [(12, 8), (15, 5), (10, 12), (4, 9), (1, 12), (5, 5), (8, 14), (7, 6),
      (6, 8), (2, 13), (13, 6), (14, 5), (0, 15), (3, 13), (9, 11), (11, 11)]]"

definition rmd_right :: "rmd_call list" where
  "rmd_right = concat (map2 calls [R12, R22, R32, R42, R52] rmd_right_words)"

definition rmd_line :: "rmd_call list \<Rightarrow> u32 list \<Rightarrow> regs5 \<Rightarrow> regs5" where
  "rmd_line cs w r = foldl (\<lambda>r (R, j, sh). rotate_regs5 (R r (w ! j) sh)) r cs"

definition words_le :: "bytes \<Rightarrow> u32 list" where
  "words_le chunk = map (\<lambda>i. ReadLE32 (drop (4 * i) chunk)) [0..<16]"

text \<open>The last lines of \<^verbatim>\<open>Transform\<close>, which mix the two lines into the state.\<close>

fun rmd_combine :: "u32 list \<Rightarrow> regs5 \<Rightarrow> regs5 \<Rightarrow> u32 list" where
  "rmd_combine st (a1, b1, c1, d1, e1) (a2, b2, c2, d2, e2) =
     [st ! 1 + c1 + d2, st ! 2 + d1 + e2, st ! 3 + e1 + a2, st ! 4 + a1 + b2, st ! 0 + b1 + c2]"

definition rmd_Transform :: "u32 list \<Rightarrow> bytes \<Rightarrow> u32 list" where
  "rmd_Transform st chunk =
     (let w = words_le chunk; r = regs5_of st
      in rmd_combine st (rmd_line rmd_left w r) (rmd_line rmd_right w r))"

section \<open>The class CRIPEMD160\<close>

definition CRIPEMD160_init :: hasher where
  "CRIPEMD160_init = \<lparr>s = rmd_Initialize, buf = replicate 64 0, nbytes = 0\<rparr>"

definition CRIPEMD160_Reset :: "hasher \<Rightarrow> hasher" where
  "CRIPEMD160_Reset h = h\<lparr>nbytes := 0, s := rmd_Initialize\<rparr>"

definition CRIPEMD160_Write :: "hasher \<Rightarrow> bytes \<Rightarrow> hasher" where
  "CRIPEMD160_Write = md_write rmd_Transform"

definition CRIPEMD160_Finalize :: "hasher \<Rightarrow> bytes" where
  "CRIPEMD160_Finalize h =
     (let pad = 0x80 # replicate 63 0;
          sizedesc = WriteLE64 (push_bit 3 (nbytes h));
          h1 = CRIPEMD160_Write h (take (1 + (119 - unat (nbytes h) mod 64) mod 64) pad);
          h2 = CRIPEMD160_Write h1 sizedesc
      in concat (map WriteLE32 (s h2)))"

lemma words_le_take: "words_le (take 64 c) = words_le c"
proof -
  have "ReadLE32 (drop (4 * i) (take 64 c)) = ReadLE32 (drop (4 * i) c)" if "i < 16" for i
    using that by (simp add: ReadLE32_def drop_take min_def)
  then show ?thesis by (simp add: words_le_def)
qed

lemma rmd_local: "local_block rmd_Transform"
  by (simp add: local_block_def rmd_Transform_def words_le_take)

interpretation crmd: md_hasher rmd_Transform rmd_Initialize CRIPEMD160_init CRIPEMD160_Write
  CRIPEMD160_Finalize WriteLE64 "\<lambda>st. concat (map WriteLE32 st)"
proof
  show "hash_inv rmd_Transform rmd_Initialize CRIPEMD160_init []"
    by (simp add: hash_inv_def CRIPEMD160_init_def)
next
  show "CRIPEMD160_Finalize h = concat (map WriteLE32 (s (CRIPEMD160_Write
      (CRIPEMD160_Write h (0x80 # replicate (pad_zeros (unat (nbytes h))) 0))
      (WriteLE64 (push_bit 3 (nbytes h))))))" for h
    by (simp only: CRIPEMD160_Finalize_def Let_def take_pad)
qed (simp_all add: CRIPEMD160_Write_def md_write_inv [OF rmd_local])

section \<open>The algorithm of the paper\<close>

text \<open>
  The order of the message words: round \<open>n\<close> (from 0) of the left line takes word
  \<open>rho ^^ n\<close> of the step, the right line starts from \<open>pi\<close>. The rotation depends on the round and on
  the word, not on the line.
\<close>

definition rmd_rho :: "nat \<Rightarrow> nat" where
  "rmd_rho i = [7, 4, 13, 1, 10, 6, 15, 3, 12, 0, 9, 5, 2, 14, 11, 8] ! i"

definition rmd_pi :: "nat \<Rightarrow> nat" where
  "rmd_pi i = (9 * i + 5) mod 16"

definition rmd_shift :: "nat \<Rightarrow> nat \<Rightarrow> nat" where
  "rmd_shift n j = [
     [11, 14, 15, 12, 5, 8, 7, 9, 11, 13, 14, 15, 6, 7, 9, 8],
     [12, 13, 11, 15, 6, 9, 9, 7, 12, 15, 11, 13, 7, 8, 7, 7],
     [13, 15, 14, 11, 7, 7, 6, 8, 13, 14, 13, 12, 5, 5, 6, 9],
     [14, 11, 12, 14, 8, 6, 5, 5, 15, 12, 15, 14, 9, 9, 8, 6],
     [15, 12, 13, 13, 9, 5, 8, 6, 14, 11, 12, 11, 8, 6, 5, 5]] ! n ! j"

definition paper_K :: "nat \<Rightarrow> u32" where
  "paper_K n = [0, 0x5A827999, 0x6ED9EBA1, 0x8F1BBCDC, 0xA953FD4E] ! n"

definition paper_K' :: "nat \<Rightarrow> u32" where
  "paper_K' n = [0x50A28BE6, 0x5C4DD124, 0x6D703EF3, 0x7A6D76E9, 0] ! n"

definition paper_f :: "nat \<Rightarrow> u32 \<Rightarrow> u32 \<Rightarrow> u32 \<Rightarrow> u32" where
  "paper_f n = [rmd_f1, rmd_f2, rmd_f3, rmd_f4, rmd_f5] ! n"

text \<open>One step: \<open>T := rol (A + f(B, C, D) + X + K) + E; A := E; E := D; D := rol 10 C; C := B; B := T\<close>.\<close>

fun paper_step :: "(u32 \<Rightarrow> u32 \<Rightarrow> u32 \<Rightarrow> u32) \<Rightarrow> u32 \<Rightarrow> regs5 \<Rightarrow> u32 \<times> nat \<Rightarrow> regs5" where
  "paper_step f K (a, b, c, d, e) (x, sh) =
     (e, word_rotl sh (a + f b c d + x + K) + e, b, word_rotl 10 c, d)"

definition paper_round :: "(u32 \<Rightarrow> u32 \<Rightarrow> u32 \<Rightarrow> u32) \<Rightarrow> u32 \<Rightarrow> (nat \<Rightarrow> nat) \<Rightarrow> nat \<Rightarrow> u32 list \<Rightarrow> regs5 \<Rightarrow> regs5" where
  "paper_round f K order n w r =
     foldl (paper_step f K) r (map (\<lambda>i. (w ! order i, rmd_shift n (order i))) [0..<16])"

definition paper_left :: "u32 list \<Rightarrow> regs5 \<Rightarrow> regs5" where
  "paper_left w r = foldl (\<lambda>r n. paper_round (paper_f n) (paper_K n) (rmd_rho ^^ n) n w r) r [0..<5]"

definition paper_right :: "u32 list \<Rightarrow> regs5 \<Rightarrow> regs5" where
  "paper_right w r =
     foldl (\<lambda>r n. paper_round (paper_f (4 - n)) (paper_K' n) ((rmd_rho ^^ n) \<circ> rmd_pi) n w r) r [0..<5]"

definition paper_block :: "u32 list \<Rightarrow> bytes \<Rightarrow> u32 list" where
  "paper_block st M = (let w = words_le M; r = regs5_of st in rmd_combine st (paper_left w r) (paper_right w r))"

definition paper_ripemd160 :: "bytes \<Rightarrow> bytes" where
  "paper_ripemd160 m =
     concat (map WriteLE32 (foldl paper_block rmd_Initialize (blocks64 (md_pad WriteLE64 m))))"

lemma rol_rotl: "0 < n \<Longrightarrow> n < 32 \<Longrightarrow> rol x n = word_rotl n x"
  unfolding rol_def by (rule rotl32) simp_all

lemma rol_10 [simp]: "rol x 10 = word_rotl 10 x"
  by (rule rol_rotl) simp_all

definition order_table :: "(nat \<Rightarrow> nat) \<Rightarrow> nat \<Rightarrow> (nat \<times> nat) list" where
  "order_table order n = map (\<lambda>i. (order i, rmd_shift n (order i))) [0..<16]"

definition step_of :: "(regs5 \<Rightarrow> u32 \<Rightarrow> nat \<Rightarrow> regs5) \<Rightarrow> (u32 \<Rightarrow> u32 \<Rightarrow> u32 \<Rightarrow> u32) \<Rightarrow> u32 \<Rightarrow> bool" where
  "step_of R f K \<longleftrightarrow> (\<forall>r x sh. 0 < sh \<longrightarrow> sh < 32 \<longrightarrow> rotate_regs5 (R r x sh) = paper_step f K r (x, sh))"

lemma line_round:
  assumes R: "step_of R f K" and sh: "list_all (\<lambda>(j, sh). 0 < sh \<and> sh < 32) (order_table order n)"
  shows "rmd_line (calls R (order_table order n)) w r = paper_round f K order n w r"
proof -
  have "rmd_line (calls R tbl) w r = foldl (paper_step f K) r (map (\<lambda>(j, sh). (w ! j, sh)) tbl)"
    if "list_all (\<lambda>(j, sh). 0 < sh \<and> sh < 32) tbl" for tbl
    using that
  proof (induction tbl arbitrary: r)
    case Nil
    then show ?case by (simp add: rmd_line_def calls_def)
  next
    case (Cons p tbl)
    obtain j sh where p: "p = (j, sh)" by (cases p)
    have "rotate_regs5 (R r (w ! j) sh) = paper_step f K r (w ! j, sh)"
      using R Cons.prems unfolding step_of_def p by (simp del: paper_step.simps split_paired_All)
    with Cons show ?case by (simp add: rmd_line_def calls_def p)
  qed
  from this [OF sh] show ?thesis by (simp add: paper_round_def order_table_def comp_def)
qed

lemma rmd_line_append: "rmd_line (xs @ ys) w r = rmd_line ys w (rmd_line xs w r)"
  by (simp add: rmd_line_def)

lemma rmd_line_Nil: "rmd_line [] w r = r"
  by (simp add: rmd_line_def)

lemma steps_of:
  "step_of R11 (paper_f 0) (paper_K 0)" "step_of R21 (paper_f 1) (paper_K 1)"
  "step_of R31 (paper_f 2) (paper_K 2)" "step_of R41 (paper_f 3) (paper_K 3)"
  "step_of R51 (paper_f 4) (paper_K 4)" "step_of R12 (paper_f 4) (paper_K' 0)"
  "step_of R22 (paper_f 3) (paper_K' 1)" "step_of R32 (paper_f 2) (paper_K' 2)"
  "step_of R42 (paper_f (Suc 0)) (paper_K' 3)" "step_of R52 (paper_f 0) (paper_K' 4)"
  by (auto simp: step_of_def paper_f_def paper_K_def paper_K'_def rol_rotl)

text \<open>The two tables of the source are the paper's permutations, and the rotations its table.\<close>

lemma rmd_words_paper:
  "rmd_left_words = [order_table (rmd_rho ^^ 0) 0, order_table (rmd_rho ^^ 1) 1,
     order_table (rmd_rho ^^ 2) 2, order_table (rmd_rho ^^ 3) 3, order_table (rmd_rho ^^ 4) 4]"
  "rmd_right_words = [order_table ((rmd_rho ^^ 0) \<circ> rmd_pi) 0, order_table ((rmd_rho ^^ 1) \<circ> rmd_pi) 1,
     order_table ((rmd_rho ^^ 2) \<circ> rmd_pi) 2, order_table ((rmd_rho ^^ 3) \<circ> rmd_pi) 3,
     order_table ((rmd_rho ^^ 4) \<circ> rmd_pi) 4]"
  by code_simp+

lemma rotations_in_range:
  "list_all (list_all (\<lambda>(j, sh). 0 < sh \<and> sh < 32)) (rmd_left_words @ rmd_right_words)"
  by code_simp

lemma fold_five: "foldl f r [0..<5] = f (f (f (f (f r 0) 1) 2) 3) (4 :: nat)"
  by (simp add: upt_rec eval_nat_numeral)

lemmas line_simps = rmd_line_append rmd_line_Nil steps_of [THEN line_round] fold_five

lemma rmd_left_paper: "rmd_line rmd_left w r = paper_left w r"
  using rotations_in_range
  by (simp add: rmd_left_def paper_left_def rmd_words_paper line_simps del: One_nat_def)

lemma rmd_right_paper: "rmd_line rmd_right w r = paper_right w r"
  using rotations_in_range
  by (simp add: rmd_right_def paper_right_def rmd_words_paper line_simps del: One_nat_def)

lemma rmd_Transform_paper: "rmd_Transform st M = paper_block st M"
  by (simp add: rmd_Transform_def paper_block_def rmd_left_paper rmd_right_paper)

lemma CRIPEMD160_Reset_inv:
  "length (buf h) = 64 \<Longrightarrow> hash_inv rmd_Transform rmd_Initialize (CRIPEMD160_Reset h) []"
  by (simp add: hash_inv_def CRIPEMD160_Reset_def)

lemma ripemd160_digest:
  "hash_inv rmd_Transform rmd_Initialize h m \<Longrightarrow> CRIPEMD160_Finalize h = paper_ripemd160 m"
  using crmd.fin_padded [of h m] by (simp add: paper_ripemd160_def rmd_Transform_paper [abs_def])

lemma length_rmd_combine [simp]: "length (rmd_combine st l r) = 5"
  by (cases "(st, l, r)" rule: rmd_combine.cases) simp

lemma length_paper_block [simp]: "length (paper_block st M) = 5"
  by (simp add: paper_block_def Let_def)

lemma length_paper_ripemd160 [simp]: "length (paper_ripemd160 m) = 20"
proof -
  have "length (foldl paper_block st bs) = 5" if "length st = 5" for st bs
    using that by (induction bs arbitrary: st) simp_all
  then show ?thesis by (simp add: paper_ripemd160_def length_concat_const rmd_Initialize_def)
qed

section \<open>Properties\<close>

text \<open>
  C3: for every way of cutting a message into calls of \<^verbatim>\<open>CRIPEMD160::Write\<close>, on a new object or on one
  that has been used and \<^verbatim>\<open>Reset\<close>, \<^verbatim>\<open>Finalize\<close> writes the RIPEMD-160 digest of the message, with the
  word order and rotations of the RIPEMD-160 paper.
\<close>

theorem ripemd160_streaming_correct:
  "CRIPEMD160_Finalize (foldl CRIPEMD160_Write CRIPEMD160_init ds) = paper_ripemd160 (concat ds) \<and>
   CRIPEMD160_Finalize (foldl CRIPEMD160_Write
     (CRIPEMD160_Reset (foldl CRIPEMD160_Write CRIPEMD160_init old)) ds) = paper_ripemd160 (concat ds)"
proof
  show "CRIPEMD160_Finalize (foldl CRIPEMD160_Write CRIPEMD160_init ds) = paper_ripemd160 (concat ds)"
    using crmd.writes_inv [OF crmd.start_inv, of ds] by (simp add: ripemd160_digest)
  have "length (buf (foldl CRIPEMD160_Write CRIPEMD160_init old)) = 64"
    using crmd.writes_inv [OF crmd.start_inv, of old] by (simp add: hash_inv_def)
  from crmd.writes_inv [OF CRIPEMD160_Reset_inv [OF this], of ds]
  show "CRIPEMD160_Finalize (foldl CRIPEMD160_Write
     (CRIPEMD160_Reset (foldl CRIPEMD160_Write CRIPEMD160_init old)) ds) = paper_ripemd160 (concat ds)"
    by (simp add: ripemd160_digest)
qed

end
