(* ===== verification/Hash.thy ===== *)
theory Hash
  imports Sha256 Ripemd160
begin

text \<open>
  The hashers built from the primitives: \<^verbatim>\<open>CHash256\<close>, \<^verbatim>\<open>CHash160\<close> and the functions \<^verbatim>\<open>Hash\<close> and
  \<^verbatim>\<open>Hash160\<close> of \<^verbatim>\<open>src/src/hash.h\<close>, and \<^verbatim>\<open>CHMAC_SHA256\<close> of \<^verbatim>\<open>src/src/crypto/hmac_sha256.cpp\<close>. A hash
  is the list of its bytes, as \<^verbatim>\<open>Finalize\<close> writes them into a \<^verbatim>\<open>uint256\<close> or \<^verbatim>\<open>uint160\<close>.
\<close>

section \<open>CHash256 and CHash160\<close>

text \<open>Both classes have one field, the \<^verbatim>\<open>CSHA256\<close> object.\<close>

definition CHash256_Write :: "hasher \<Rightarrow> bytes \<Rightarrow> hasher" where
  "CHash256_Write sha data = CSHA256_Write sha data"

definition CHash256_Reset :: "hasher \<Rightarrow> hasher" where
  "CHash256_Reset sha = CSHA256_Reset sha"

definition CHash256_Finalize :: "hasher \<Rightarrow> bytes option" where
  "CHash256_Finalize sha =
     (case CSHA256_Finalize sha of None \<Rightarrow> None
      | Some b \<Rightarrow> CSHA256_Finalize (CSHA256_Write (CSHA256_Reset (CSHA256_padded sha)) b))"

definition CHash160_Write :: "hasher \<Rightarrow> bytes \<Rightarrow> hasher" where
  "CHash160_Write sha data = CSHA256_Write sha data"

definition CHash160_Reset :: "hasher \<Rightarrow> hasher" where
  "CHash160_Reset sha = CSHA256_Reset sha"

definition CHash160_Finalize :: "hasher \<Rightarrow> bytes option" where
  "CHash160_Finalize sha =
     (case CSHA256_Finalize sha of None \<Rightarrow> None
      | Some b \<Rightarrow> Some (CRIPEMD160_Finalize (CRIPEMD160_Write CRIPEMD160_init b)))"

text \<open>\<^verbatim>\<open>Hash\<close> of one, two and three byte ranges, and \<^verbatim>\<open>Hash160\<close>.\<close>

definition Hash1 :: "bytes \<Rightarrow> bytes option" where
  "Hash1 p = CHash256_Finalize (CHash256_Write CSHA256_init p)"

definition Hash2 :: "bytes \<Rightarrow> bytes \<Rightarrow> bytes option" where
  "Hash2 p1 p2 = CHash256_Finalize (CHash256_Write (CHash256_Write CSHA256_init p1) p2)"

definition Hash3 :: "bytes \<Rightarrow> bytes \<Rightarrow> bytes \<Rightarrow> bytes option" where
  "Hash3 p1 p2 p3 =
     CHash256_Finalize (CHash256_Write (CHash256_Write (CHash256_Write CSHA256_init p1) p2) p3)"

definition Hash160 :: "bytes \<Rightarrow> bytes option" where
  "Hash160 p = CHash160_Finalize (CHash160_Write CSHA256_init p)"

section \<open>CHMAC\_SHA256\<close>

record hmac_sha256 =
  outer :: hasher
  inner :: hasher

text \<open>The key of the object: padded with zeros, or hashed when it is longer than a block.\<close>

definition hmac_rkey :: "bytes \<Rightarrow> bytes option" where
  "hmac_rkey key =
     (if length key \<le> 64 then Some (key @ replicate (64 - length key) 0)
      else case CSHA256_Finalize (CSHA256_Write CSHA256_init key) of None \<Rightarrow> None
           | Some k \<Rightarrow> Some (k @ replicate 32 0))"

definition CHMAC_SHA256_init :: "bytes \<Rightarrow> hmac_sha256 option" where
  "CHMAC_SHA256_init key =
     (case hmac_rkey key of None \<Rightarrow> None
      | Some rkey \<Rightarrow>
          let rkey1 = map (\<lambda>b. b XOR 0x5c) rkey; rkey2 = map (\<lambda>b. b XOR (0x5c XOR 0x36)) rkey1
          in Some \<lparr>outer = CSHA256_Write CSHA256_init rkey1, inner = CSHA256_Write CSHA256_init rkey2\<rparr>)"

definition CHMAC_SHA256_Write :: "hmac_sha256 \<Rightarrow> bytes \<Rightarrow> hmac_sha256" where
  "CHMAC_SHA256_Write h data = h\<lparr>inner := CSHA256_Write (inner h) data\<rparr>"

definition CHMAC_SHA256_Finalize :: "hmac_sha256 \<Rightarrow> bytes option" where
  "CHMAC_SHA256_Finalize h =
     (case CSHA256_Finalize (inner h) of None \<Rightarrow> None
      | Some temp \<Rightarrow> CSHA256_Finalize (CSHA256_Write (outer h) temp))"

section \<open>What they compute\<close>

definition double_sha256 :: "bytes \<Rightarrow> bytes" where
  "double_sha256 m = fips_sha256 (fips_sha256 m)"

definition hash160_spec :: "bytes \<Rightarrow> bytes" where
  "hash160_spec m = paper_ripemd160 (fips_sha256 m)"

text \<open>RFC 2104 with a 64-byte block.\<close>

definition hmac_spec :: "bytes \<Rightarrow> bytes \<Rightarrow> bytes" where
  "hmac_spec key m =
     (let k = if length key \<le> 64 then key else fips_sha256 key;
          k0 = k @ replicate (64 - length k) 0
      in fips_sha256 (map (\<lambda>b. b XOR 0x5c) k0 @ fips_sha256 (map (\<lambda>b. b XOR 0x36) k0 @ m)))"

abbreviation fed :: "hasher \<Rightarrow> bytes \<Rightarrow> bool" where
  "fed \<equiv> hash_inv sha256_compress sha256_Initialize"

lemma fed_init: "fed CSHA256_init []"
  by (rule csha256.start_inv)

lemma fed_write: "fed h m \<Longrightarrow> fed (CSHA256_Write h d) (m @ d)"
  by (rule CSHA256_Write_inv)

lemma fed_first: "fed (CSHA256_Write CSHA256_init d) d"
  using fed_write [OF fed_init, of d] by simp

lemma fed_writes: "fed h m \<Longrightarrow> fed (foldl CSHA256_Write h ds) (m @ concat ds)"
  by (rule csha256.writes_inv)

lemma CHash256_Finalize_fed:
  assumes "fed h m"
  shows "CHash256_Finalize h = Some (double_sha256 m)"
proof -
  have "fed (CSHA256_Reset (CSHA256_padded h)) []"
    by (rule CSHA256_Reset_inv) (rule CSHA256_padded_buf [OF assms])
  from fed_write [OF this, of "fips_sha256 m"] show ?thesis
    by (simp add: CHash256_Finalize_def sha256_digest_inv [OF assms] sha256_digest_inv double_sha256_def)
qed

lemma ripemd160_one: "CRIPEMD160_Finalize (CRIPEMD160_Write CRIPEMD160_init b) = paper_ripemd160 b"
  using crmd.wr_inv [OF crmd.start_inv, of b] by (simp add: ripemd160_digest)

lemma CHash160_Finalize_fed: "fed h m \<Longrightarrow> CHash160_Finalize h = Some (hash160_spec m)"
  by (simp add: CHash160_Finalize_def sha256_digest_inv hash160_spec_def ripemd160_one)

lemma Hash_spec:
  "Hash1 a = Some (double_sha256 a)" "Hash2 a b = Some (double_sha256 (a @ b))"
  "Hash3 a b c = Some (double_sha256 (a @ b @ c))" "Hash160 a = Some (hash160_spec a)"
  using fed_first [of a] fed_write [OF fed_first, of a b] fed_write [OF fed_write [OF fed_first], of a b c]
  by (simp_all add: Hash1_def Hash2_def Hash3_def Hash160_def CHash256_Write_def CHash160_Write_def
      CHash256_Finalize_fed CHash160_Finalize_fed)

lemma xor_cancel: "(b XOR x) XOR (x XOR y) = b XOR (y :: byte)"
  by (rule bit_eqI) (auto simp: bit_simps)

lemma length_double_sha256 [simp]: "length (double_sha256 m) = 32"
  by (simp add: double_sha256_def)

lemma length_hash160_spec [simp]: "length (hash160_spec m) = 20"
  by (simp add: hash160_spec_def)

section \<open>Properties\<close>

text \<open>
  C4: \<^verbatim>\<open>Hash\<close> over one, two or three ranges is double SHA-256 of their concatenation, 32 bytes long;
  \<^verbatim>\<open>Hash160\<close> is RIPEMD-160 of SHA-256, 20 bytes long; none of them throws.
\<close>

theorem Hash_correct:
  "Hash1 a = Some (double_sha256 a) \<and> Hash2 a b = Some (double_sha256 (a @ b)) \<and>
   Hash3 a b c = Some (double_sha256 (a @ b @ c)) \<and> Hash160 a = Some (hash160_spec a) \<and>
   length (double_sha256 a) = 32 \<and> length (hash160_spec a) = 20"
  by (simp add: Hash_spec)

text \<open>
  C5: \<^verbatim>\<open>CHMAC_SHA256\<close> computes the HMAC of RFC 2104, for keys of every length, the text written in
  any pieces.
\<close>

theorem hmac_sha256_correct:
  "\<exists>h. CHMAC_SHA256_init key = Some h \<and>
       CHMAC_SHA256_Finalize (foldl CHMAC_SHA256_Write h ds) = Some (hmac_spec key (concat ds))"
proof -
  define k where "k = (if length key \<le> 64 then key else fips_sha256 key)"
  define k0 where "k0 = k @ replicate (64 - length k) 0"
  have rkey: "hmac_rkey key = Some k0"
    by (simp add: hmac_rkey_def k0_def k_def sha256_digest_inv [OF fed_first])
  have xor: "(b XOR 0x5c) XOR (0x5c XOR 0x36) = b XOR (0x36 :: byte)" for b
    by (rule xor_cancel)
  define h where "h = \<lparr>outer = CSHA256_Write CSHA256_init (map (\<lambda>b. b XOR 0x5c) k0),
                       inner = CSHA256_Write CSHA256_init (map (\<lambda>b. b XOR 0x36) k0)\<rparr>"
  have start: "CHMAC_SHA256_init key = Some h"
    by (simp only: CHMAC_SHA256_init_def rkey h_def comp_def xor option.case Let_def map_map)
  have writes: "foldl CHMAC_SHA256_Write g ds = g\<lparr>inner := foldl CSHA256_Write (inner g) ds\<rparr>" for g
    by (induction ds arbitrary: g) (simp_all add: CHMAC_SHA256_Write_def)
  have "fed (foldl CSHA256_Write (inner h) ds) (map (\<lambda>b. b XOR 0x36) k0 @ concat ds)"
    by (rule fed_writes) (simp add: h_def fed_first)
  then have inner: "CSHA256_Finalize (foldl CSHA256_Write (inner h) ds) =
      Some (fips_sha256 (map (\<lambda>b. b XOR 0x36) k0 @ concat ds))"
    by (rule sha256_digest_inv)
  have "fed (CSHA256_Write (outer h) t) (map (\<lambda>b. b XOR 0x5c) k0 @ t)" for t
    by (rule fed_write) (simp add: h_def fed_first)
  then have outer: "CSHA256_Finalize (CSHA256_Write (outer h) t) =
      Some (fips_sha256 (map (\<lambda>b. b XOR 0x5c) k0 @ t))" for t
    by (rule sha256_digest_inv)
  have spec: "hmac_spec key m = fips_sha256 (map (\<lambda>b. b XOR 0x5c) k0 @
      fips_sha256 (map (\<lambda>b. b XOR 0x36) k0 @ m))" for m
    by (simp only: hmac_spec_def Let_def k_def k0_def)
  have "CHMAC_SHA256_Finalize (foldl CHMAC_SHA256_Write h ds) = Some (hmac_spec key (concat ds))"
    by (simp add: CHMAC_SHA256_Finalize_def writes inner outer spec)
  with start show ?thesis by blast
qed

end
