(* ===== verification/Script.thy ===== *)
theory Script
  imports Hash Sha1
begin

text \<open>
  \<^verbatim>\<open>src/src/script/script.h\<close>, \<^verbatim>\<open>script.cpp\<close> and \<^verbatim>\<open>script_error.h\<close>: the opcodes, script numbers, building and reading of scripts,
  and the predicates on scripts that do not run them. A \<^verbatim>\<open>CScript\<close> is the list of its bytes. A position
  \<^verbatim>\<open>pc\<close> in a script is the list of the bytes from there to the end, so \<^verbatim>\<open>pc < end()\<close> is that the list is not
  empty.
\<close>

section \<open>Opcodes and errors\<close>

type_synonym script = bytes
type_synonym opcodetype = nat

abbreviation (input) OP_0 :: opcodetype where "OP_0 \<equiv> 0x00"
abbreviation (input) OP_FALSE :: opcodetype where "OP_FALSE \<equiv> OP_0"
abbreviation (input) OP_PUSHDATA1 :: opcodetype where "OP_PUSHDATA1 \<equiv> 0x4c"
abbreviation (input) OP_PUSHDATA2 :: opcodetype where "OP_PUSHDATA2 \<equiv> 0x4d"
abbreviation (input) OP_PUSHDATA4 :: opcodetype where "OP_PUSHDATA4 \<equiv> 0x4e"
abbreviation (input) OP_1NEGATE :: opcodetype where "OP_1NEGATE \<equiv> 0x4f"
abbreviation (input) OP_RESERVED :: opcodetype where "OP_RESERVED \<equiv> 0x50"
abbreviation (input) OP_1 :: opcodetype where "OP_1 \<equiv> 0x51"
abbreviation (input) OP_TRUE :: opcodetype where "OP_TRUE \<equiv> OP_1"
abbreviation (input) OP_2 :: opcodetype where "OP_2 \<equiv> 0x52"
abbreviation (input) OP_3 :: opcodetype where "OP_3 \<equiv> 0x53"
abbreviation (input) OP_4 :: opcodetype where "OP_4 \<equiv> 0x54"
abbreviation (input) OP_5 :: opcodetype where "OP_5 \<equiv> 0x55"
abbreviation (input) OP_6 :: opcodetype where "OP_6 \<equiv> 0x56"
abbreviation (input) OP_7 :: opcodetype where "OP_7 \<equiv> 0x57"
abbreviation (input) OP_8 :: opcodetype where "OP_8 \<equiv> 0x58"
abbreviation (input) OP_9 :: opcodetype where "OP_9 \<equiv> 0x59"
abbreviation (input) OP_10 :: opcodetype where "OP_10 \<equiv> 0x5a"
abbreviation (input) OP_11 :: opcodetype where "OP_11 \<equiv> 0x5b"
abbreviation (input) OP_12 :: opcodetype where "OP_12 \<equiv> 0x5c"
abbreviation (input) OP_13 :: opcodetype where "OP_13 \<equiv> 0x5d"
abbreviation (input) OP_14 :: opcodetype where "OP_14 \<equiv> 0x5e"
abbreviation (input) OP_15 :: opcodetype where "OP_15 \<equiv> 0x5f"
abbreviation (input) OP_16 :: opcodetype where "OP_16 \<equiv> 0x60"
abbreviation (input) OP_NOP :: opcodetype where "OP_NOP \<equiv> 0x61"
abbreviation (input) OP_VER :: opcodetype where "OP_VER \<equiv> 0x62"
abbreviation (input) OP_IF :: opcodetype where "OP_IF \<equiv> 0x63"
abbreviation (input) OP_NOTIF :: opcodetype where "OP_NOTIF \<equiv> 0x64"
abbreviation (input) OP_VERIF :: opcodetype where "OP_VERIF \<equiv> 0x65"
abbreviation (input) OP_VERNOTIF :: opcodetype where "OP_VERNOTIF \<equiv> 0x66"
abbreviation (input) OP_ELSE :: opcodetype where "OP_ELSE \<equiv> 0x67"
abbreviation (input) OP_ENDIF :: opcodetype where "OP_ENDIF \<equiv> 0x68"
abbreviation (input) OP_VERIFY :: opcodetype where "OP_VERIFY \<equiv> 0x69"
abbreviation (input) OP_RETURN :: opcodetype where "OP_RETURN \<equiv> 0x6a"
abbreviation (input) OP_TOALTSTACK :: opcodetype where "OP_TOALTSTACK \<equiv> 0x6b"
abbreviation (input) OP_FROMALTSTACK :: opcodetype where "OP_FROMALTSTACK \<equiv> 0x6c"
abbreviation (input) OP_2DROP :: opcodetype where "OP_2DROP \<equiv> 0x6d"
abbreviation (input) OP_2DUP :: opcodetype where "OP_2DUP \<equiv> 0x6e"
abbreviation (input) OP_3DUP :: opcodetype where "OP_3DUP \<equiv> 0x6f"
abbreviation (input) OP_2OVER :: opcodetype where "OP_2OVER \<equiv> 0x70"
abbreviation (input) OP_2ROT :: opcodetype where "OP_2ROT \<equiv> 0x71"
abbreviation (input) OP_2SWAP :: opcodetype where "OP_2SWAP \<equiv> 0x72"
abbreviation (input) OP_IFDUP :: opcodetype where "OP_IFDUP \<equiv> 0x73"
abbreviation (input) OP_DEPTH :: opcodetype where "OP_DEPTH \<equiv> 0x74"
abbreviation (input) OP_DROP :: opcodetype where "OP_DROP \<equiv> 0x75"
abbreviation (input) OP_DUP :: opcodetype where "OP_DUP \<equiv> 0x76"
abbreviation (input) OP_NIP :: opcodetype where "OP_NIP \<equiv> 0x77"
abbreviation (input) OP_OVER :: opcodetype where "OP_OVER \<equiv> 0x78"
abbreviation (input) OP_PICK :: opcodetype where "OP_PICK \<equiv> 0x79"
abbreviation (input) OP_ROLL :: opcodetype where "OP_ROLL \<equiv> 0x7a"
abbreviation (input) OP_ROT :: opcodetype where "OP_ROT \<equiv> 0x7b"
abbreviation (input) OP_SWAP :: opcodetype where "OP_SWAP \<equiv> 0x7c"
abbreviation (input) OP_TUCK :: opcodetype where "OP_TUCK \<equiv> 0x7d"
abbreviation (input) OP_CAT :: opcodetype where "OP_CAT \<equiv> 0x7e"
abbreviation (input) OP_SUBSTR :: opcodetype where "OP_SUBSTR \<equiv> 0x7f"
abbreviation (input) OP_LEFT :: opcodetype where "OP_LEFT \<equiv> 0x80"
abbreviation (input) OP_RIGHT :: opcodetype where "OP_RIGHT \<equiv> 0x81"
abbreviation (input) OP_SIZE :: opcodetype where "OP_SIZE \<equiv> 0x82"
abbreviation (input) OP_INVERT :: opcodetype where "OP_INVERT \<equiv> 0x83"
abbreviation (input) OP_AND :: opcodetype where "OP_AND \<equiv> 0x84"
abbreviation (input) OP_OR :: opcodetype where "OP_OR \<equiv> 0x85"
abbreviation (input) OP_XOR :: opcodetype where "OP_XOR \<equiv> 0x86"
abbreviation (input) OP_EQUAL :: opcodetype where "OP_EQUAL \<equiv> 0x87"
abbreviation (input) OP_EQUALVERIFY :: opcodetype where "OP_EQUALVERIFY \<equiv> 0x88"
abbreviation (input) OP_RESERVED1 :: opcodetype where "OP_RESERVED1 \<equiv> 0x89"
abbreviation (input) OP_RESERVED2 :: opcodetype where "OP_RESERVED2 \<equiv> 0x8a"
abbreviation (input) OP_1ADD :: opcodetype where "OP_1ADD \<equiv> 0x8b"
abbreviation (input) OP_1SUB :: opcodetype where "OP_1SUB \<equiv> 0x8c"
abbreviation (input) OP_2MUL :: opcodetype where "OP_2MUL \<equiv> 0x8d"
abbreviation (input) OP_2DIV :: opcodetype where "OP_2DIV \<equiv> 0x8e"
abbreviation (input) OP_NEGATE :: opcodetype where "OP_NEGATE \<equiv> 0x8f"
abbreviation (input) OP_ABS :: opcodetype where "OP_ABS \<equiv> 0x90"
abbreviation (input) OP_NOT :: opcodetype where "OP_NOT \<equiv> 0x91"
abbreviation (input) OP_0NOTEQUAL :: opcodetype where "OP_0NOTEQUAL \<equiv> 0x92"
abbreviation (input) OP_ADD :: opcodetype where "OP_ADD \<equiv> 0x93"
abbreviation (input) OP_SUB :: opcodetype where "OP_SUB \<equiv> 0x94"
abbreviation (input) OP_MUL :: opcodetype where "OP_MUL \<equiv> 0x95"
abbreviation (input) OP_DIV :: opcodetype where "OP_DIV \<equiv> 0x96"
abbreviation (input) OP_MOD :: opcodetype where "OP_MOD \<equiv> 0x97"
abbreviation (input) OP_LSHIFT :: opcodetype where "OP_LSHIFT \<equiv> 0x98"
abbreviation (input) OP_RSHIFT :: opcodetype where "OP_RSHIFT \<equiv> 0x99"
abbreviation (input) OP_BOOLAND :: opcodetype where "OP_BOOLAND \<equiv> 0x9a"
abbreviation (input) OP_BOOLOR :: opcodetype where "OP_BOOLOR \<equiv> 0x9b"
abbreviation (input) OP_NUMEQUAL :: opcodetype where "OP_NUMEQUAL \<equiv> 0x9c"
abbreviation (input) OP_NUMEQUALVERIFY :: opcodetype where "OP_NUMEQUALVERIFY \<equiv> 0x9d"
abbreviation (input) OP_NUMNOTEQUAL :: opcodetype where "OP_NUMNOTEQUAL \<equiv> 0x9e"
abbreviation (input) OP_LESSTHAN :: opcodetype where "OP_LESSTHAN \<equiv> 0x9f"
abbreviation (input) OP_GREATERTHAN :: opcodetype where "OP_GREATERTHAN \<equiv> 0xa0"
abbreviation (input) OP_LESSTHANOREQUAL :: opcodetype where "OP_LESSTHANOREQUAL \<equiv> 0xa1"
abbreviation (input) OP_GREATERTHANOREQUAL :: opcodetype where "OP_GREATERTHANOREQUAL \<equiv> 0xa2"
abbreviation (input) OP_MIN :: opcodetype where "OP_MIN \<equiv> 0xa3"
abbreviation (input) OP_MAX :: opcodetype where "OP_MAX \<equiv> 0xa4"
abbreviation (input) OP_WITHIN :: opcodetype where "OP_WITHIN \<equiv> 0xa5"
abbreviation (input) OP_RIPEMD160 :: opcodetype where "OP_RIPEMD160 \<equiv> 0xa6"
abbreviation (input) OP_SHA1 :: opcodetype where "OP_SHA1 \<equiv> 0xa7"
abbreviation (input) OP_SHA256 :: opcodetype where "OP_SHA256 \<equiv> 0xa8"
abbreviation (input) OP_HASH160 :: opcodetype where "OP_HASH160 \<equiv> 0xa9"
abbreviation (input) OP_HASH256 :: opcodetype where "OP_HASH256 \<equiv> 0xaa"
abbreviation (input) OP_CODESEPARATOR :: opcodetype where "OP_CODESEPARATOR \<equiv> 0xab"
abbreviation (input) OP_CHECKSIG :: opcodetype where "OP_CHECKSIG \<equiv> 0xac"
abbreviation (input) OP_CHECKSIGVERIFY :: opcodetype where "OP_CHECKSIGVERIFY \<equiv> 0xad"
abbreviation (input) OP_CHECKMULTISIG :: opcodetype where "OP_CHECKMULTISIG \<equiv> 0xae"
abbreviation (input) OP_CHECKMULTISIGVERIFY :: opcodetype where "OP_CHECKMULTISIGVERIFY \<equiv> 0xaf"
abbreviation (input) OP_CHECKCRYPTOCONDITION :: opcodetype where "OP_CHECKCRYPTOCONDITION \<equiv> 0xcc"
abbreviation (input) OP_CHECKCRYPTOCONDITIONVERIFY :: opcodetype where "OP_CHECKCRYPTOCONDITIONVERIFY \<equiv> 0xcd"
abbreviation (input) OP_NOP1 :: opcodetype where "OP_NOP1 \<equiv> 0xb0"
abbreviation (input) OP_NOP2 :: opcodetype where "OP_NOP2 \<equiv> 0xb1"
abbreviation (input) OP_CHECKLOCKTIMEVERIFY :: opcodetype where "OP_CHECKLOCKTIMEVERIFY \<equiv> OP_NOP2"
abbreviation (input) OP_NOP3 :: opcodetype where "OP_NOP3 \<equiv> 0xb2"
abbreviation (input) OP_NOP4 :: opcodetype where "OP_NOP4 \<equiv> 0xb3"
abbreviation (input) OP_NOP5 :: opcodetype where "OP_NOP5 \<equiv> 0xb4"
abbreviation (input) OP_NOP6 :: opcodetype where "OP_NOP6 \<equiv> 0xb5"
abbreviation (input) OP_NOP7 :: opcodetype where "OP_NOP7 \<equiv> 0xb6"
abbreviation (input) OP_NOP8 :: opcodetype where "OP_NOP8 \<equiv> 0xb7"
abbreviation (input) OP_NOP9 :: opcodetype where "OP_NOP9 \<equiv> 0xb8"
abbreviation (input) OP_NOP10 :: opcodetype where "OP_NOP10 \<equiv> 0xb9"
abbreviation (input) OP_SMALLDATA :: opcodetype where "OP_SMALLDATA \<equiv> 0xf9"
abbreviation (input) OP_CRYPTOCONDITION :: opcodetype where "OP_CRYPTOCONDITION \<equiv> 0xfc"
abbreviation (input) OP_INVALIDOPCODE :: opcodetype where "OP_INVALIDOPCODE \<equiv> 0xff"

text \<open>\<^verbatim>\<open>GetOpName\<close>.\<close>

definition op_names :: "(opcodetype \<times> string) list" where
  "op_names = concat [
    [(OP_0, ''0''), (OP_PUSHDATA1, ''OP_PUSHDATA1''), (OP_PUSHDATA2, ''OP_PUSHDATA2''),
     (OP_PUSHDATA4, ''OP_PUSHDATA4''), (OP_1NEGATE, ''-1''), (OP_RESERVED, ''OP_RESERVED''),
     (OP_1, ''1''), (OP_2, ''2''), (OP_3, ''3''), (OP_4, ''4''), (OP_5, ''5'')],
    [(OP_6, ''6''), (OP_7, ''7''), (OP_8, ''8''), (OP_9, ''9''), (OP_10, ''10''), (OP_11, ''11''),
     (OP_12, ''12''), (OP_13, ''13''), (OP_14, ''14''), (OP_15, ''15''), (OP_16, ''16'')],
    [(OP_NOP, ''OP_NOP''), (OP_VER, ''OP_VER''), (OP_IF, ''OP_IF''), (OP_NOTIF, ''OP_NOTIF''),
     (OP_VERIF, ''OP_VERIF''), (OP_VERNOTIF, ''OP_VERNOTIF''), (OP_ELSE, ''OP_ELSE''),
     (OP_ENDIF, ''OP_ENDIF''), (OP_VERIFY, ''OP_VERIFY''), (OP_RETURN, ''OP_RETURN''),
     (OP_TOALTSTACK, ''OP_TOALTSTACK'')],
    [(OP_FROMALTSTACK, ''OP_FROMALTSTACK''), (OP_2DROP, ''OP_2DROP''), (OP_2DUP, ''OP_2DUP''),
     (OP_3DUP, ''OP_3DUP''), (OP_2OVER, ''OP_2OVER''), (OP_2ROT, ''OP_2ROT''),
     (OP_2SWAP, ''OP_2SWAP''), (OP_IFDUP, ''OP_IFDUP''), (OP_DEPTH, ''OP_DEPTH''),
     (OP_DROP, ''OP_DROP''), (OP_DUP, ''OP_DUP'')],
    [(OP_NIP, ''OP_NIP''), (OP_OVER, ''OP_OVER''), (OP_PICK, ''OP_PICK''), (OP_ROLL, ''OP_ROLL''),
     (OP_ROT, ''OP_ROT''), (OP_SWAP, ''OP_SWAP''), (OP_TUCK, ''OP_TUCK''), (OP_CAT, ''OP_CAT''),
     (OP_SUBSTR, ''OP_SUBSTR''), (OP_LEFT, ''OP_LEFT''), (OP_RIGHT, ''OP_RIGHT'')],
    [(OP_SIZE, ''OP_SIZE''), (OP_INVERT, ''OP_INVERT''), (OP_AND, ''OP_AND''), (OP_OR, ''OP_OR''),
     (OP_XOR, ''OP_XOR''), (OP_EQUAL, ''OP_EQUAL''), (OP_EQUALVERIFY, ''OP_EQUALVERIFY''),
     (OP_RESERVED1, ''OP_RESERVED1''), (OP_RESERVED2, ''OP_RESERVED2''), (OP_1ADD, ''OP_1ADD''),
     (OP_1SUB, ''OP_1SUB'')],
    [(OP_2MUL, ''OP_2MUL''), (OP_2DIV, ''OP_2DIV''), (OP_NEGATE, ''OP_NEGATE''), (OP_ABS, ''OP_ABS''),
     (OP_NOT, ''OP_NOT''), (OP_0NOTEQUAL, ''OP_0NOTEQUAL''), (OP_ADD, ''OP_ADD''),
     (OP_SUB, ''OP_SUB''), (OP_MUL, ''OP_MUL''), (OP_DIV, ''OP_DIV''), (OP_MOD, ''OP_MOD'')],
    [(OP_LSHIFT, ''OP_LSHIFT''), (OP_RSHIFT, ''OP_RSHIFT''), (OP_BOOLAND, ''OP_BOOLAND''),
     (OP_BOOLOR, ''OP_BOOLOR''), (OP_NUMEQUAL, ''OP_NUMEQUAL''),
     (OP_NUMEQUALVERIFY, ''OP_NUMEQUALVERIFY''), (OP_NUMNOTEQUAL, ''OP_NUMNOTEQUAL''),
     (OP_LESSTHAN, ''OP_LESSTHAN''), (OP_GREATERTHAN, ''OP_GREATERTHAN''),
     (OP_LESSTHANOREQUAL, ''OP_LESSTHANOREQUAL''), (OP_GREATERTHANOREQUAL, ''OP_GREATERTHANOREQUAL'')],
    [(OP_MIN, ''OP_MIN''), (OP_MAX, ''OP_MAX''), (OP_WITHIN, ''OP_WITHIN''),
     (OP_RIPEMD160, ''OP_RIPEMD160''), (OP_SHA1, ''OP_SHA1''), (OP_SHA256, ''OP_SHA256''),
     (OP_HASH160, ''OP_HASH160''), (OP_HASH256, ''OP_HASH256''),
     (OP_CODESEPARATOR, ''OP_CODESEPARATOR''), (OP_CHECKSIG, ''OP_CHECKSIG''),
     (OP_CHECKSIGVERIFY, ''OP_CHECKSIGVERIFY'')],
    [(OP_CHECKMULTISIG, ''OP_CHECKMULTISIG''), (OP_CHECKMULTISIGVERIFY, ''OP_CHECKMULTISIGVERIFY''),
     (OP_CHECKCRYPTOCONDITION, ''OP_CHECKCRYPTOCONDITION''),
     (OP_CHECKCRYPTOCONDITIONVERIFY, ''OP_CHECKCRYPTOCONDITIONVERIFY''), (OP_NOP1, ''OP_NOP1''),
     (OP_NOP2, ''OP_NOP2''), (OP_NOP3, ''OP_NOP3''), (OP_NOP4, ''OP_NOP4''), (OP_NOP5, ''OP_NOP5''),
     (OP_NOP6, ''OP_NOP6''), (OP_NOP7, ''OP_NOP7'')],
    [(OP_NOP8, ''OP_NOP8''), (OP_NOP9, ''OP_NOP9''), (OP_NOP10, ''OP_NOP10''),
     (OP_INVALIDOPCODE, ''OP_INVALIDOPCODE'')]]"

definition GetOpName :: "opcodetype \<Rightarrow> string" where
  "GetOpName opcode = (case map_of op_names opcode of Some name \<Rightarrow> name | None \<Rightarrow> ''OP_UNKNOWN'')"

datatype ScriptError =
    SCRIPT_ERR_OK | SCRIPT_ERR_UNKNOWN_ERROR | SCRIPT_ERR_EVAL_FALSE | SCRIPT_ERR_OP_RETURN
  | SCRIPT_ERR_SCRIPT_SIZE | SCRIPT_ERR_PUSH_SIZE | SCRIPT_ERR_OP_COUNT | SCRIPT_ERR_STACK_SIZE
  | SCRIPT_ERR_SIG_COUNT | SCRIPT_ERR_PUBKEY_COUNT
  | SCRIPT_ERR_VERIFY | SCRIPT_ERR_EQUALVERIFY | SCRIPT_ERR_CHECKMULTISIGVERIFY | SCRIPT_ERR_CHECKSIGVERIFY
  | SCRIPT_ERR_NUMEQUALVERIFY
  | SCRIPT_ERR_BAD_OPCODE | SCRIPT_ERR_DISABLED_OPCODE | SCRIPT_ERR_INVALID_STACK_OPERATION
  | SCRIPT_ERR_INVALID_ALTSTACK_OPERATION | SCRIPT_ERR_UNBALANCED_CONDITIONAL
  | SCRIPT_ERR_NEGATIVE_LOCKTIME | SCRIPT_ERR_UNSATISFIED_LOCKTIME
  | SCRIPT_ERR_SIG_HASHTYPE | SCRIPT_ERR_SIG_DER | SCRIPT_ERR_MINIMALDATA | SCRIPT_ERR_SIG_PUSHONLY
  | SCRIPT_ERR_SIG_HIGH_S | SCRIPT_ERR_SIG_NULLDUMMY | SCRIPT_ERR_PUBKEYTYPE | SCRIPT_ERR_CLEANSTACK
  | SCRIPT_ERR_DISCOURAGE_UPGRADABLE_NOPS | SCRIPT_ERR_ERROR_COUNT
  | SCRIPT_ERR_CRYPTOCONDITION_VERIFY | SCRIPT_ERR_CRYPTOCONDITION_INVALID_FULFILLMENT

text \<open>How a step of the code may end early: a script error, a C++ exception, or a failed \<^verbatim>\<open>assert\<close>.\<close>

datatype fault = ScriptErr ScriptError | Thrown | Aborted

section \<open>Limits\<close>

definition MAX_SCRIPT_ELEMENT_SIZE :: nat where "MAX_SCRIPT_ELEMENT_SIZE = 520"
definition MAX_SCRIPT_CRYPTOCONDITION_FULFILLMENT_SIZE :: nat where
  "MAX_SCRIPT_CRYPTOCONDITION_FULFILLMENT_SIZE = 2048"
definition MAX_SCRIPT_SIZE :: nat where "MAX_SCRIPT_SIZE = 10000"
definition LOCKTIME_THRESHOLD :: int where "LOCKTIME_THRESHOLD = 500000000"

section \<open>Script numbers\<close>

text \<open>
  \<^verbatim>\<open>CScriptNum\<close> is its member \<^verbatim>\<open>m_value\<close>. The constructor from bytes throws on an operand that is too long or,
  if asked to, not minimally encoded. The operators that assert the absence of overflow abort.
\<close>

definition int64_max :: int where "int64_max = 2 ^ 63 - 1"
definition int64_min :: int where "int64_min = - (2 ^ 63)"

primrec or_bytes :: "bytes \<Rightarrow> nat \<Rightarrow> u64 \<Rightarrow> u64" where
  "or_bytes [] i result = result"
| "or_bytes (b # bs) i result = or_bytes bs (Suc i) (result OR push_bit (8 * i) (ucast b))"

definition set_vch :: "bytes \<Rightarrow> int" where
  "set_vch vch =
     (if vch = [] then 0
      else let result = or_bytes vch 0 0
           in if last vch AND 0x80 \<noteq> 0
              then - sint (result AND NOT (push_bit (8 * (length vch - 1)) 0x80))
              else sint result)"

definition nDefaultMaxNumSize :: nat where "nDefaultMaxNumSize = 4"

definition CScriptNum :: "bytes \<Rightarrow> bool \<Rightarrow> nat \<Rightarrow> fault + int" where
  "CScriptNum vch fRequireMinimal nMaxNumSize =
     (if nMaxNumSize < length vch then Inl Thrown
      else if fRequireMinimal \<and> 0 < length vch \<and> last vch AND 0x7f = 0 \<and>
              (length vch \<le> 1 \<or> vch ! (length vch - 2) AND 0x80 = 0)
      then Inl Thrown
      else Inr (set_vch vch))"

definition num_add :: "int \<Rightarrow> int \<Rightarrow> int" where
  "num_add a b = to_int64 (a + b)"

definition num_sub :: "int \<Rightarrow> int \<Rightarrow> int" where
  "num_sub a b = to_int64 (a - b)"

definition num_neg :: "int \<Rightarrow> fault + int" where
  "num_neg a = (if a \<noteq> int64_min then Inr (- a) else Inl Aborted)"

definition num_add_assign :: "int \<Rightarrow> int \<Rightarrow> fault + int" where
  "num_add_assign a rhs =
     (if rhs = 0 \<or> (0 < rhs \<and> a \<le> int64_max - rhs) \<or> (rhs < 0 \<and> int64_min - rhs \<le> a)
      then Inr (a + rhs) else Inl Aborted)"

definition num_sub_assign :: "int \<Rightarrow> int \<Rightarrow> fault + int" where
  "num_sub_assign a rhs =
     (if rhs = 0 \<or> (0 < rhs \<and> int64_min + rhs \<le> a) \<or> (rhs < 0 \<and> a \<le> int64_max + rhs)
      then Inr (a - rhs) else Inl Aborted)"

definition getint :: "int \<Rightarrow> int" where
  "getint a = (if 2 ^ 31 - 1 < a then 2 ^ 31 - 1 else if a < - (2 ^ 31) then - (2 ^ 31) else a)"

text \<open>\<^verbatim>\<open>serialize\<close>: the bytes of the absolute value, then the sign in the top bit of the last byte.\<close>

fun abs_bytes :: "nat \<Rightarrow> bytes" where
  "abs_bytes n = (if n = 0 then [] else word_of_nat (n mod 256) # abs_bytes (n div 256))"

declare abs_bytes.simps [simp del]

definition serialize :: "int \<Rightarrow> bytes" where
  "serialize v =
     (if v = 0 then []
      else let neg = v < 0; result = abs_bytes (nat \<bar>v\<bar>)
           in if last result AND 0x80 \<noteq> 0 then result @ [if neg then 0x80 else 0]
              else if neg then butlast result @ [last result OR 0x80]
              else result)"

section \<open>Building scripts\<close>

text \<open>\<^verbatim>\<open>operator<<\<close> for an opcode, for data, for a number and for an integer.\<close>

definition push_op :: "script \<Rightarrow> opcodetype \<Rightarrow> script" where
  "push_op scr opcode = scr @ [word_of_nat opcode]"

definition push_data :: "script \<Rightarrow> bytes \<Rightarrow> script" where
  "push_data scr b =
     (if length b < OP_PUSHDATA1 then scr @ [word_of_nat (length b)] @ b
      else if length b \<le> 0xff then scr @ [word_of_nat OP_PUSHDATA1, word_of_nat (length b)] @ b
      else if length b \<le> 0xffff then scr @ [word_of_nat OP_PUSHDATA2] @ WriteLE16 (word_of_nat (length b)) @ b
      else scr @ [word_of_nat OP_PUSHDATA4] @ WriteLE32 (word_of_nat (length b)) @ b)"

definition push_num :: "script \<Rightarrow> int \<Rightarrow> script" where
  "push_num scr n = push_data scr (serialize n)"

definition push_int64 :: "script \<Rightarrow> int \<Rightarrow> script" where
  "push_int64 scr n =
     (if n = - 1 \<or> (1 \<le> n \<and> n \<le> 16) then scr @ [word_of_int (n + (int OP_1 - 1))]
      else if n = 0 then scr @ [word_of_nat OP_0]
      else push_num scr n)"

section \<open>Reading scripts\<close>

text \<open>
  \<^verbatim>\<open>GetOp2\<close>: whether an instruction was read, the position after it, the opcode and the data. When it fails
  the position has moved past what was read already, as in the source.
\<close>

definition GetOp2 :: "script \<Rightarrow> bool \<times> script \<times> opcodetype \<times> bytes" where
  "GetOp2 pc =
     (case pc of
        [] \<Rightarrow> (False, [], OP_INVALIDOPCODE, [])
      | b # pc1 \<Rightarrow>
          let opcode = unat b;
              operand = (\<lambda>nSize pc'. if length pc' < nSize then (False, pc', OP_INVALIDOPCODE, [])
                                     else (True, drop nSize pc', opcode, take nSize pc'))
          in if opcode \<le> OP_PUSHDATA4
             then if opcode < OP_PUSHDATA1 then operand opcode pc1
                  else if opcode = OP_PUSHDATA1
                  then if length pc1 < 1 then (False, pc1, OP_INVALIDOPCODE, [])
                       else operand (unat (hd pc1)) (drop 1 pc1)
                  else if opcode = OP_PUSHDATA2
                  then if length pc1 < 2 then (False, pc1, OP_INVALIDOPCODE, [])
                       else operand (unat (ReadLE16 pc1)) (drop 2 pc1)
                  else if length pc1 < 4 then (False, pc1, OP_INVALIDOPCODE, [])
                       else operand (unat (ReadLE32 pc1)) (drop 4 pc1)
             else (True, pc1, opcode, []))"

lemma GetOp2_shrinks: "GetOp2 pc = (ok, pc', opcode, d) \<Longrightarrow> pc \<noteq> [] \<Longrightarrow> length pc' < length pc"
  by (cases pc) (auto simp: GetOp2_def Let_def split: if_splits)

definition DecodeOP_N :: "opcodetype \<Rightarrow> nat option" where
  "DecodeOP_N opcode =
     (if opcode = OP_0 then Some 0
      else if OP_1 \<le> opcode \<and> opcode \<le> OP_16 then Some (opcode - (OP_1 - 1)) else None)"

definition EncodeOP_N :: "int \<Rightarrow> opcodetype option" where
  "EncodeOP_N n = (if 0 \<le> n \<and> n \<le> 16 then Some (if n = 0 then OP_0 else OP_1 + nat n - 1) else None)"

section \<open>Counting signature operations\<close>

function sigop_loop :: "bool \<Rightarrow> script \<Rightarrow> opcodetype \<Rightarrow> nat \<Rightarrow> nat" where
  "sigop_loop fAccurate pc lastOpcode n =
     (if pc = [] then n
      else case GetOp2 pc of
             (ok, pc', opcode, _) \<Rightarrow>
               if \<not> ok then n
               else sigop_loop fAccurate pc' opcode
                      (if opcode = OP_CHECKSIG \<or> opcode = OP_CHECKSIGVERIFY then n + 1
                       else if opcode = OP_CHECKMULTISIG \<or> opcode = OP_CHECKMULTISIGVERIFY
                       then if fAccurate \<and> OP_1 \<le> lastOpcode \<and> lastOpcode \<le> OP_16
                            then n + (lastOpcode - (OP_1 - 1)) else n + 20
                       else n))"
  by pat_completeness auto
termination
  by (relation "measure (\<lambda>(_, pc, _, _). length pc)") (auto dest: GetOp2_shrinks [OF sym])

declare sigop_loop.simps [simp del]

definition GetSigOpCount :: "script \<Rightarrow> bool \<Rightarrow> nat" where
  "GetSigOpCount scr fAccurate = sigop_loop fAccurate scr OP_INVALIDOPCODE 0"

section \<open>Script forms\<close>

definition IsPayToPublicKeyHash :: "script \<Rightarrow> bool" where
  "IsPayToPublicKeyHash scr \<longleftrightarrow> length scr = 25 \<and> unat (scr ! 0) = OP_DUP \<and> unat (scr ! 1) = OP_HASH160 \<and>
     scr ! 2 = 0x14 \<and> unat (scr ! 23) = OP_EQUALVERIFY \<and> unat (scr ! 24) = OP_CHECKSIG"

definition IsPayToPublicKey :: "script \<Rightarrow> bool" where
  "IsPayToPublicKey scr \<longleftrightarrow> length scr = 35 \<and> scr ! 0 = 33 \<and> unat (scr ! 34) = OP_CHECKSIG"

definition IsPayToScriptHash :: "script \<Rightarrow> bool" where
  "IsPayToScriptHash scr \<longleftrightarrow> length scr = 23 \<and> unat (scr ! 0) = OP_HASH160 \<and> scr ! 1 = 0x14 \<and> unat (scr ! 22) = OP_EQUAL"

text \<open>The last push of a script signature that only pushes; \<^const>\<open>None\<close> where the source returns 0.\<close>

function last_push :: "script \<Rightarrow> bytes \<Rightarrow> bytes option" where
  "last_push pc data =
     (if pc = [] then Some data
      else case GetOp2 pc of
             (ok, pc', opcode, data') \<Rightarrow> if \<not> ok \<or> OP_16 < opcode then None else last_push pc' data')"
  by pat_completeness auto
termination
  by (relation "measure (\<lambda>(pc, _). length pc)") (auto dest: GetOp2_shrinks [OF sym])

declare last_push.simps [simp del]

definition GetSigOpCount_sig :: "script \<Rightarrow> script \<Rightarrow> nat" where
  "GetSigOpCount_sig scr scriptSig =
     (if \<not> IsPayToScriptHash scr then GetSigOpCount scr True
      else case last_push scriptSig [] of None \<Rightarrow> 0 | Some data \<Rightarrow> GetSigOpCount data True)"

function IsPushOnly :: "script \<Rightarrow> bool" where
  "IsPushOnly pc =
     (if pc = [] then True
      else case GetOp2 pc of (ok, pc', opcode, _) \<Rightarrow> if \<not> ok \<or> OP_16 < opcode then False else IsPushOnly pc')"
  by pat_completeness auto
termination
  by (relation "measure length") (auto dest: GetOp2_shrinks [OF sym])

declare IsPushOnly.simps [simp del]

text \<open>
  \<^verbatim>\<open>GetBalancedData\<close> with \<^verbatim>\<open>netPushes\<close> and the solutions so far; \<^const>\<open>None\<close> is the result \<^verbatim>\<open>false\<close>, otherwise the
  solutions.
\<close>

function balanced_loop :: "script \<Rightarrow> int \<Rightarrow> bytes list \<Rightarrow> bytes list option" where
  "balanced_loop pc netPushes vSolutions =
     (if pc = [] then if netPushes = 0 then Some vSolutions else None
      else case GetOp2 pc of
             (ok, pc', opcode, data) \<Rightarrow>
               if \<not> ok then None
               else if opcode = OP_DROP
               then if netPushes - 1 < 0 then None else balanced_loop pc' (netPushes - 1) vSolutions
               else if opcode = OP_0 then balanced_loop pc' (netPushes + 1) (vSolutions @ [[0]])
               else if OP_1 \<le> opcode \<and> opcode \<le> OP_16
               then balanced_loop pc' (netPushes + 1) (vSolutions @ [[word_of_nat (opcode - OP_1 + 1)]])
               else if 0 < opcode \<and> opcode \<le> OP_PUSHDATA4 \<and> 0 < length data
               then balanced_loop pc' (netPushes + 1) (vSolutions @ [data])
               else None)"
  by pat_completeness auto
termination
  by (relation "measure (\<lambda>(pc, _, _). length pc)") (auto dest: GetOp2_shrinks [OF sym])

declare balanced_loop.simps [simp del]

definition GetBalancedData :: "script \<Rightarrow> bytes list option" where
  "GetBalancedData pc = balanced_loop pc 0 []"

text \<open>
  \<^verbatim>\<open>GetPushedData\<close>: the result and the data, which the caller sees in both cases. A failed \<^verbatim>\<open>GetOp\<close> does not end the
  loop: it goes on at the position that \<^verbatim>\<open>GetOp\<close> left.
\<close>

function pushed_loop :: "script \<Rightarrow> bytes list \<Rightarrow> bool \<times> bytes list" where
  "pushed_loop pc vData =
     (if pc = [] then (length vData \<noteq> 0, vData)
      else case GetOp2 pc of
             (ok, pc', opcode, data) \<Rightarrow>
               if ok
               then if opcode = OP_0 then pushed_loop pc' (vData @ [[0]])
                    else if OP_1 \<le> opcode \<and> opcode \<le> OP_16
                    then pushed_loop pc' (vData @ [[word_of_nat (opcode - OP_1 + 1)]])
                    else if 0 < opcode \<and> opcode \<le> OP_PUSHDATA4 \<and> 0 < length data
                    then pushed_loop pc' (vData @ [data])
                    else (False, vData)
               else pushed_loop pc' vData)"
  by pat_completeness auto
termination
  by (relation "measure (\<lambda>(pc, _). length pc)") (auto dest: GetOp2_shrinks [OF sym])

declare pushed_loop.simps [simp del]

definition GetPushedData :: "script \<Rightarrow> bool \<times> bytes list" where
  "GetPushedData pc = pushed_loop pc []"

definition IsOpReturn :: "script \<Rightarrow> bool" where
  "IsOpReturn scr \<longleftrightarrow> 0 < length scr \<and> unat (scr ! 0) = OP_RETURN"

definition GetOpretData :: "script \<Rightarrow> bool \<times> bytes list" where
  "GetOpretData scr =
     (case GetOp2 scr of (ok, pc, opcode, _) \<Rightarrow> if ok \<and> opcode = OP_RETURN then GetPushedData pc else (False, []))"

text \<open>\<^verbatim>\<open>IsPayToCryptoCondition\<close>: the part of the script up to the condition opcode and the parameters after it.\<close>

definition IsPayToCryptoCondition :: "script \<Rightarrow> (script \<times> bytes list) option" where
  "IsPayToCryptoCondition scr =
     (case GetOp2 scr of
        (ok1, pc1, op1, _) \<Rightarrow>
          if ok1 \<and> OP_0 < op1 \<and> op1 < OP_PUSHDATA1
          then case GetOp2 pc1 of
                 (ok2, pc2, op2, _) \<Rightarrow>
                   if ok2 \<and> op2 = OP_CHECKCRYPTOCONDITION
                   then map_option (\<lambda>v. (take (length scr - length pc2) scr, v)) (GetBalancedData pc2)
                   else None
          else None)"

text \<open>
  \<^verbatim>\<open>MayAcceptCryptoCondition\<close>: parsing the condition and the test of its type mask belong to the
  crypto-condition library and are the argument \<open>supported\<close>.
\<close>

definition MayAcceptCryptoCondition :: "(bytes \<Rightarrow> bool) \<Rightarrow> script \<Rightarrow> bool" where
  "MayAcceptCryptoCondition supported scr =
     (case GetOp2 scr of
        (ok, _, opcode, data) \<Rightarrow> ok \<and> OP_0 < opcode \<and> opcode < OP_PUSHDATA1 \<and> supported data)"

definition EVAL_IMPORTCOIN :: byte where "EVAL_IMPORTCOIN = 0xe2"

text \<open>\<^verbatim>\<open>IsCoinImport\<close> reads the first byte of the data without a test that there is one: then there is no result.\<close>

definition IsCoinImport :: "script \<Rightarrow> bool option" where
  "IsCoinImport scr =
     (case GetOp2 scr of
        (ok, _, opcode, data) \<Rightarrow>
          if ok \<and> OP_0 < opcode \<and> opcode \<le> OP_PUSHDATA4
          then if data = [] then None else Some (hd data = EVAL_IMPORTCOIN)
          else Some False)"

definition IsWitnessProgram :: "script \<Rightarrow> (nat \<times> bytes) option" where
  "IsWitnessProgram scr =
     (if length scr < 4 \<or> 42 < length scr then None
      else if unat (scr ! 0) \<noteq> OP_0 \<and> (unat (scr ! 0) < OP_1 \<or> OP_16 < unat (scr ! 0)) then None
      else if unat (scr ! 1) + 2 = length scr
      then map_option (\<lambda>version. (version, drop 2 scr)) (DecodeOP_N (unat (scr ! 0)))
      else None)"

text \<open>
  \<^verbatim>\<open>IsCheckLockTimeVerify\<close>: \<^const>\<open>None\<close> when the byte after the presumed push lies past the end of the script, otherwise
  whether the test succeeds and the unlock time it reads.
\<close>

definition IsCheckLockTimeVerify :: "script \<Rightarrow> int option option" where
  "IsCheckLockTimeVerify scr =
     (case GetOp2 scr of
        (ok, _, _, param) \<Rightarrow>
          if ok \<and> length param < 6
          then if length scr \<le> length param + 1 then None
               else Some (if unat (scr ! (length param + 1)) = OP_CHECKLOCKTIMEVERIFY
                          then Some (int (le_val param)) else None)
          else Some None)"

definition IsUnspendable :: "script \<Rightarrow> bool" where
  "IsUnspendable scr \<longleftrightarrow> (0 < length scr \<and> unat (hd scr) = OP_RETURN) \<or> MAX_SCRIPT_SIZE < length scr"

text \<open>
  \<^verbatim>\<open>IsRedeemScriptReveal\<close>: the three forms of an output that reveals a redeem script, as the length and the
  opcodes at fixed positions, and the hash of the revealed script compared with this one.
\<close>

definition at_opcodes :: "script \<Rightarrow> (nat \<times> opcodetype) list \<Rightarrow> bool" where
  "at_opcodes scr ps \<longleftrightarrow> list_all (\<lambda>(i, opcode). unat (scr ! i) = opcode) ps"

definition htlc_head :: "(nat \<times> opcodetype) list" where
  "htlc_head = [(0, OP_RETURN), (3, OP_IF), (9, OP_NOP2), (10, OP_DROP), (45, OP_CHECKSIG), (46, OP_ELSE),
     (47, OP_SIZE), (48, 0x01), (49, 0x20), (50, OP_EQUALVERIFY)]"

definition reveal_form :: "script \<Rightarrow> bool" where
  "reveal_form scr \<longleftrightarrow>
     (length scr = 110 \<and> at_opcodes scr (htlc_head @
        [(51, OP_HASH160), (73, OP_EQUALVERIFY), (108, OP_CHECKSIG), (109, OP_ENDIF)])) \<or>
     (length scr = 122 \<and> at_opcodes scr htlc_head \<and> (unat (scr ! 51) = OP_SHA256 \<or> unat (scr ! 51) = OP_HASH256) \<and>
        at_opcodes scr [(85, OP_EQUALVERIFY), (120, OP_CHECKSIG), (121, OP_ENDIF)]) \<or>
     (length scr = 101 \<and> at_opcodes scr
        [(0, OP_RETURN), (1, 0x4c), (2, 0x62), (20, OP_DROP), (21, OP_IF), (22, 0x04), (27, OP_NOP2), (28, OP_DROP),
         (63, OP_CHECKSIG), (64, OP_ELSE), (99, OP_CHECKSIG), (100, OP_ENDIF)])"

definition IsRedeemScriptReveal :: "script \<Rightarrow> script \<Rightarrow> bool option" where
  "IsRedeemScriptReveal this scriptpubkey =
     (if reveal_form scriptpubkey
      then map_option (\<lambda>id. push_op (push_data (push_op [] OP_HASH160) id) OP_EQUAL = this)
             (Hash160 (drop 3 scriptpubkey))
      else Some False)"

end
