(* ===== verification/Transaction.thy ===== *)
theory Transaction
  imports Serialize Hash Script
begin

text \<open>
  Transactions and their serialization, after \<^verbatim>\<open>src/src/primitives/transaction.h\<close> and \<^verbatim>\<open>transaction.cpp\<close>, with the proofs of
  join-splits of \<^verbatim>\<open>src/src/zcash/Proof.hpp\<close>. Hashes, keys, signatures and ciphertexts are byte lists; their fixed lengths are part
  of the well-formedness predicates below. Amounts and versions are integers.
\<close>

section \<open>Proofs of join-splits\<close>

definition G1_PREFIX_MASK :: byte where "G1_PREFIX_MASK = 0x02"
definition G2_PREFIX_MASK :: byte where "G2_PREFIX_MASK = 0x0a"

record CompressedG1 =
  y_lsb :: bool
  g1_x :: bytes

record CompressedG2 =
  y_gt :: bool
  g2_x :: bytes

definition CompressedG1_Serialize :: "CompressedG1 \<Rightarrow> bytes" where
  "CompressedG1_Serialize p = ser_writedata8 (if y_lsb p then G1_PREFIX_MASK OR 1 else G1_PREFIX_MASK) @ g1_x p"

definition CompressedG1_Unserialize :: "CompressedG1 reader" where
  "CompressedG1_Unserialize t = do {
     (leadingByte, s1) \<leftarrow> ser_readdata8 t;
     if leadingByte AND (NOT 1) \<noteq> G1_PREFIX_MASK then None
     else do {
       (x, s2) \<leftarrow> ser_read 32 s1;
       Some (\<lparr>y_lsb = (leadingByte AND 1 \<noteq> 0), g1_x = x\<rparr>, s2) }
   }"

definition CompressedG2_Serialize :: "CompressedG2 \<Rightarrow> bytes" where
  "CompressedG2_Serialize p = ser_writedata8 (if y_gt p then G2_PREFIX_MASK OR 1 else G2_PREFIX_MASK) @ g2_x p"

definition CompressedG2_Unserialize :: "CompressedG2 reader" where
  "CompressedG2_Unserialize t = do {
     (leadingByte, s1) \<leftarrow> ser_readdata8 t;
     if leadingByte AND (NOT 1) \<noteq> G2_PREFIX_MASK then None
     else do {
       (x, s2) \<leftarrow> ser_read 64 s1;
       Some (\<lparr>y_gt = (leadingByte AND 1 \<noteq> 0), g2_x = x\<rparr>, s2) }
   }"

record PHGRProof =
  g_A :: CompressedG1
  g_A_prime :: CompressedG1
  g_B :: CompressedG2
  g_B_prime :: CompressedG1
  g_C :: CompressedG1
  g_C_prime :: CompressedG1
  g_K :: CompressedG1
  g_H :: CompressedG1

definition PHGRProof_Serialize :: "PHGRProof \<Rightarrow> bytes" where
  "PHGRProof_Serialize p =
     CompressedG1_Serialize (g_A p) @ CompressedG1_Serialize (g_A_prime p) @ CompressedG2_Serialize (g_B p) @
     CompressedG1_Serialize (g_B_prime p) @ CompressedG1_Serialize (g_C p) @ CompressedG1_Serialize (g_C_prime p) @
     CompressedG1_Serialize (g_K p) @ CompressedG1_Serialize (g_H p)"

definition PHGRProof_Unserialize :: "PHGRProof reader" where
  "PHGRProof_Unserialize t = do {
     (a, t) \<leftarrow> CompressedG1_Unserialize t;
     (a', t) \<leftarrow> CompressedG1_Unserialize t;
     (b, t) \<leftarrow> CompressedG2_Unserialize t;
     (b', t) \<leftarrow> CompressedG1_Unserialize t;
     (c, t) \<leftarrow> CompressedG1_Unserialize t;
     (c', t) \<leftarrow> CompressedG1_Unserialize t;
     (k, t) \<leftarrow> CompressedG1_Unserialize t;
     (h, t) \<leftarrow> CompressedG1_Unserialize t;
     Some (\<lparr>g_A = a, g_A_prime = a', g_B = b, g_B_prime = b', g_C = c, g_C_prime = c', g_K = k, g_H = h\<rparr>, t)
   }"

definition GROTH_PROOF_SIZE :: nat where "GROTH_PROOF_SIZE = 48 + 96 + 48"

datatype SproutProof = PHGR PHGRProof | Groth bytes

text \<open>
  \<^verbatim>\<open>SerReadWriteSproutProof\<close>: \<^const>\<open>None\<close> when the kind of the proof is not the one of the transaction's format.
\<close>

definition SproutProof_Serialize :: "bool \<Rightarrow> SproutProof \<Rightarrow> bytes option" where
  "SproutProof_Serialize useGroth proof =
     (case proof of
        PHGR p \<Rightarrow> if useGroth then None else Some (PHGRProof_Serialize p)
      | Groth p \<Rightarrow> if \<not> useGroth then None else Some p)"

definition SproutProof_Unserialize :: "bool \<Rightarrow> SproutProof reader" where
  "SproutProof_Unserialize useGroth t =
     (if useGroth then map_option (\<lambda>(p, s'). (Groth p, s')) (ser_read GROTH_PROOF_SIZE t)
      else map_option (\<lambda>(p, s'). (PHGR p, s')) (PHGRProof_Unserialize t))"

section \<open>Descriptions\<close>

record JSDescription =
  vpub_old :: int
  vpub_new :: int
  js_anchor :: bytes
  nullifiers :: "bytes list"
  commitments :: "bytes list"
  js_ephemeralKey :: bytes
  ciphertexts :: "bytes list"
  randomSeed :: bytes
  macs :: "bytes list"
  js_proof :: SproutProof

definition NOTE_CIPHERTEXT_SIZE :: nat where "NOTE_CIPHERTEXT_SIZE = (1 + 8 + 32 + 32 + 512) + 16"

definition JSDescription_Serialize :: "bool \<Rightarrow> JSDescription \<Rightarrow> bytes option" where
  "JSDescription_Serialize useGroth js = do {
     p \<leftarrow> SproutProof_Serialize useGroth (js_proof js);
     Some (Serialize_int64 (vpub_old js) @ Serialize_int64 (vpub_new js) @ js_anchor js @ concat (nullifiers js) @
       concat (commitments js) @ js_ephemeralKey js @ randomSeed js @ concat (macs js) @ p @ concat (ciphertexts js))
   }"

definition JSDescription_Unserialize :: "bool \<Rightarrow> JSDescription reader" where
  "JSDescription_Unserialize useGroth t = do {
     (old, t) \<leftarrow> Unserialize_int64 t;
     (new, t) \<leftarrow> Unserialize_int64 t;
     (anc, t) \<leftarrow> ser_read 32 t;
     (nfs, t) \<leftarrow> read_n 2 (ser_read 32) t;
     (cms, t) \<leftarrow> read_n 2 (ser_read 32) t;
     (epk, t) \<leftarrow> ser_read 32 t;
     (seed, t) \<leftarrow> ser_read 32 t;
     (ms, t) \<leftarrow> read_n 2 (ser_read 32) t;
     (p, t) \<leftarrow> SproutProof_Unserialize useGroth t;
     (cts, t) \<leftarrow> read_n 2 (ser_read NOTE_CIPHERTEXT_SIZE) t;
     Some (\<lparr>vpub_old = old, vpub_new = new, js_anchor = anc, nullifiers = nfs, commitments = cms, js_ephemeralKey = epk,
            ciphertexts = cts, randomSeed = seed, macs = ms, js_proof = p\<rparr>, t)
   }"

record SpendDescription =
  sp_cv :: bytes
  sp_anchor :: bytes
  sp_nullifier :: bytes
  rk :: bytes
  sp_zkproof :: bytes
  spendAuthSig :: bytes

definition SpendDescription_Serialize :: "SpendDescription \<Rightarrow> bytes" where
  "SpendDescription_Serialize d =
     sp_cv d @ sp_anchor d @ sp_nullifier d @ rk d @ sp_zkproof d @ spendAuthSig d"

definition SpendDescription_Unserialize :: "SpendDescription reader" where
  "SpendDescription_Unserialize t = do {
     (c, t) \<leftarrow> ser_read 32 t;
     (a, t) \<leftarrow> ser_read 32 t;
     (nf, t) \<leftarrow> ser_read 32 t;
     (k, t) \<leftarrow> ser_read 32 t;
     (p, t) \<leftarrow> ser_read GROTH_PROOF_SIZE t;
     (sig, t) \<leftarrow> ser_read 64 t;
     Some (\<lparr>sp_cv = c, sp_anchor = a, sp_nullifier = nf, rk = k, sp_zkproof = p, spendAuthSig = sig\<rparr>, t)
   }"

record OutputDescription =
  out_cv :: bytes
  cmu :: bytes
  out_ephemeralKey :: bytes
  encCiphertext :: bytes
  outCiphertext :: bytes
  out_zkproof :: bytes

definition ZC_SAPLING_ENCCIPHERTEXT_SIZE :: nat where "ZC_SAPLING_ENCCIPHERTEXT_SIZE = (1 + 11 + 8 + 32 + 512) + 16"
definition ZC_SAPLING_OUTCIPHERTEXT_SIZE :: nat where "ZC_SAPLING_OUTCIPHERTEXT_SIZE = (32 + 32) + 16"

definition OutputDescription_Serialize :: "OutputDescription \<Rightarrow> bytes" where
  "OutputDescription_Serialize d =
     out_cv d @ cmu d @ out_ephemeralKey d @ encCiphertext d @ outCiphertext d @ out_zkproof d"

definition OutputDescription_Unserialize :: "OutputDescription reader" where
  "OutputDescription_Unserialize t = do {
     (c, t) \<leftarrow> ser_read 32 t;
     (m, t) \<leftarrow> ser_read 32 t;
     (epk, t) \<leftarrow> ser_read 32 t;
     (enc, t) \<leftarrow> ser_read ZC_SAPLING_ENCCIPHERTEXT_SIZE t;
     (out, t) \<leftarrow> ser_read ZC_SAPLING_OUTCIPHERTEXT_SIZE t;
     (p, t) \<leftarrow> ser_read GROTH_PROOF_SIZE t;
     Some (\<lparr>out_cv = c, cmu = m, out_ephemeralKey = epk, encCiphertext = enc, outCiphertext = out, out_zkproof = p\<rparr>, t)
   }"

section \<open>Inputs and outputs\<close>

record COutPoint =
  outp_hash :: bytes
  outp_n :: u32

definition COutPoint_Serialize :: "COutPoint \<Rightarrow> bytes" where
  "COutPoint_Serialize p = outp_hash p @ ser_writedata32 (outp_n p)"

definition COutPoint_Unserialize :: "COutPoint reader" where
  "COutPoint_Unserialize t = do {
     (h, t) \<leftarrow> ser_read 32 t;
     (i, t) \<leftarrow> ser_readdata32 t;
     Some (\<lparr>outp_hash = h, outp_n = i\<rparr>, t)
   }"

definition COutPoint_SetNull :: COutPoint where
  "COutPoint_SetNull = \<lparr>outp_hash = replicate 32 0, outp_n = - 1\<rparr>"

definition COutPoint_IsNull :: "COutPoint \<Rightarrow> bool" where
  "COutPoint_IsNull p \<longleftrightarrow> list_all (\<lambda>b. b = 0) (outp_hash p) \<and> outp_n p = - 1"

record CTxIn =
  prevout :: COutPoint
  txin_script :: script
  nSequence :: u32

definition CTxIn_Serialize :: "CTxIn \<Rightarrow> bytes" where
  "CTxIn_Serialize i = COutPoint_Serialize (prevout i) @ Serialize_bytes (txin_script i) @ ser_writedata32 (nSequence i)"

definition CTxIn_Unserialize :: "CTxIn reader" where
  "CTxIn_Unserialize t = do {
     (p, t) \<leftarrow> COutPoint_Unserialize t;
     (scr, t) \<leftarrow> Unserialize_bytes t;
     (q, t) \<leftarrow> ser_readdata32 t;
     Some (\<lparr>prevout = p, txin_script = scr, nSequence = q\<rparr>, t)
   }"

definition CTxIn_IsFinal :: "CTxIn \<Rightarrow> bool" where
  "CTxIn_IsFinal i \<longleftrightarrow> nSequence i = - 1"

record CTxOut =
  nValue :: int
  txout_script :: script

definition CTxOut_Serialize :: "CTxOut \<Rightarrow> bytes" where
  "CTxOut_Serialize out = Serialize_int64 (nValue out) @ Serialize_bytes (txout_script out)"

definition CTxOut_Unserialize :: "CTxOut reader" where
  "CTxOut_Unserialize t = do {
     (v, t) \<leftarrow> Unserialize_int64 t;
     (scr, t) \<leftarrow> Unserialize_bytes t;
     Some (\<lparr>nValue = v, txout_script = scr\<rparr>, t)
   }"

definition CTxOut_SetNull :: CTxOut where
  "CTxOut_SetNull = \<lparr>nValue = - 1, txout_script = []\<rparr>"

definition CTxOut_IsNull :: "CTxOut \<Rightarrow> bool" where
  "CTxOut_IsNull out \<longleftrightarrow> nValue out = - 1"

section \<open>Amounts\<close>

definition COIN :: int where "COIN = 100000000"

text \<open>\<^verbatim>\<open>MoneyRange\<close>; the global \<^verbatim>\<open>MAX_MONEY\<close> depends on the chain and is an argument.\<close>

definition MoneyRange :: "int \<Rightarrow> int \<Rightarrow> bool" where
  "MoneyRange max_money v \<longleftrightarrow> 0 \<le> v \<and> v \<le> max_money"

text \<open>
  \<^verbatim>\<open>CFeeRate\<close> is its member \<^verbatim>\<open>nSatoshisPerK\<close>. A \<^verbatim>\<open>size_t\<close> operand makes the division, and in \<^verbatim>\<open>GetFee\<close> also the product, unsigned.
\<close>

definition CFeeRate :: "int \<Rightarrow> nat \<Rightarrow> int" where
  "CFeeRate nFeePaid nSize =
     (if 0 < nSize then sint (word_of_int (to_int64 (nFeePaid * 1000)) div (word_of_nat nSize :: u64)) else 0)"

definition GetFee :: "int \<Rightarrow> nat \<Rightarrow> int" where
  "GetFee nSatoshisPerK nSize =
     (let nFee = sint ((word_of_int nSatoshisPerK * word_of_nat nSize) div (1000 :: u64))
      in if nFee = 0 \<and> 0 < nSatoshisPerK then nSatoshisPerK else nFee)"

definition GetFeePerK :: "int \<Rightarrow> int" where
  "GetFeePerK nSatoshisPerK = GetFee nSatoshisPerK 1000"

definition GetDustThreshold :: "int \<Rightarrow> CTxOut \<Rightarrow> int" where
  "GetDustThreshold minRelayTxFee out =
     (if IsUnspendable (txout_script out) then 0
      else to_int64 (3 * GetFee minRelayTxFee (length (CTxOut_Serialize out) + 148)))"

definition IsDust :: "int \<Rightarrow> CTxOut \<Rightarrow> bool" where
  "IsDust minRelayTxFee out \<longleftrightarrow> nValue out < GetDustThreshold minRelayTxFee out"

section \<open>Transactions\<close>

record CMutableTransaction =
  fOverwintered :: bool
  nVersion :: int
  nVersionGroupId :: u32
  vin :: "CTxIn list"
  vout :: "CTxOut list"
  nLockTime :: u32
  nExpiryHeight :: u32
  valueBalance :: int
  vShieldedSpend :: "SpendDescription list"
  vShieldedOutput :: "OutputDescription list"
  vjoinsplit :: "JSDescription list"
  joinSplitPubKey :: bytes
  joinSplitSig :: bytes
  bindingSig :: bytes

text \<open>A \<^verbatim>\<open>CTransaction\<close> has the same members and the hash that was computed when it was built.\<close>

record CTransaction = CMutableTransaction +
  txid :: bytes

definition OVERWINTER_TX_VERSION :: int where "OVERWINTER_TX_VERSION = 3"
definition SAPLING_TX_VERSION :: int where "SAPLING_TX_VERSION = 4"
definition OVERWINTER_VERSION_GROUP_ID :: u32 where "OVERWINTER_VERSION_GROUP_ID = 0x03C48270"
definition SAPLING_VERSION_GROUP_ID :: u32 where "SAPLING_VERSION_GROUP_ID = 0x892F2085"

definition CMutableTransaction_init :: CMutableTransaction where
  "CMutableTransaction_init = \<lparr>fOverwintered = False, nVersion = 1, nVersionGroupId = 0, vin = [], vout = [], nLockTime = 0,
     nExpiryHeight = 0, valueBalance = 0, vShieldedSpend = [], vShieldedOutput = [], vjoinsplit = [],
     joinSplitPubKey = replicate 32 0, joinSplitSig = replicate 64 0, bindingSig = replicate 64 0\<rparr>"

definition GetHeader :: "'a CMutableTransaction_scheme \<Rightarrow> u32" where
  "GetHeader tx = (let header = word_of_int (nVersion tx) in if fOverwintered tx then header OR 0x80000000 else header)"

definition isOverwinterV3 :: "'a CMutableTransaction_scheme \<Rightarrow> bool" where
  "isOverwinterV3 tx \<longleftrightarrow> fOverwintered tx \<and> nVersionGroupId tx = OVERWINTER_VERSION_GROUP_ID \<and> nVersion tx = OVERWINTER_TX_VERSION"

definition isSaplingV4 :: "'a CMutableTransaction_scheme \<Rightarrow> bool" where
  "isSaplingV4 tx \<longleftrightarrow> fOverwintered tx \<and> nVersionGroupId tx = SAPLING_VERSION_GROUP_ID \<and> nVersion tx = SAPLING_TX_VERSION"

text \<open>The kind of proof that a stream whose version is a transaction's header uses.\<close>

definition useGroth :: "u32 \<Rightarrow> bool" where
  "useGroth version \<longleftrightarrow> drop_bit 31 version \<noteq> 0 \<and> SAPLING_TX_VERSION \<le> uint (version AND 0x7FFFFFFF)"

definition JoinSplits_Serialize :: "u32 \<Rightarrow> JSDescription list \<Rightarrow> bytes option" where
  "JoinSplits_Serialize version v = do {
     ps \<leftarrow> those (map (JSDescription_Serialize (useGroth version)) v);
     Some (WriteCompactSize (length v) @ concat ps)
   }"

definition tx_Serialize :: "'a CMutableTransaction_scheme \<Rightarrow> bytes option" where
  "tx_Serialize tx =
     (if fOverwintered tx \<and> \<not> (isOverwinterV3 tx \<or> isSaplingV4 tx) then None
      else do {
        js \<leftarrow> (if 2 \<le> nVersion tx then JoinSplits_Serialize (GetHeader tx) (vjoinsplit tx) else Some []);
        Some (ser_writedata32 (GetHeader tx) @
          (if fOverwintered tx then ser_writedata32 (nVersionGroupId tx) else []) @
          Serialize_vec CTxIn_Serialize (vin tx) @ Serialize_vec CTxOut_Serialize (vout tx) @ ser_writedata32 (nLockTime tx) @
          (if isOverwinterV3 tx \<or> isSaplingV4 tx then ser_writedata32 (nExpiryHeight tx) else []) @
          (if isSaplingV4 tx
           then Serialize_int64 (valueBalance tx) @ Serialize_vec SpendDescription_Serialize (vShieldedSpend tx) @
             Serialize_vec OutputDescription_Serialize (vShieldedOutput tx) else []) @
          js @ (if 2 \<le> nVersion tx \<and> vjoinsplit tx \<noteq> [] then joinSplitPubKey tx @ joinSplitSig tx else []) @
          (if isSaplingV4 tx \<and> \<not> (vShieldedSpend tx = [] \<and> vShieldedOutput tx = []) then bindingSig tx else []))
      })"

text \<open>
  Reading into an existing object: a member that the format does not have keeps its value. The sizes of the elements
  are those of a 64-bit machine; what is read does not depend on them.
\<close>

definition vec_step :: "nat \<Rightarrow> nat" where "vec_step k = 5000000 div k"

definition read_format :: "'a CMutableTransaction_scheme \<Rightarrow> 'a CMutableTransaction_scheme reader" where
  "read_format tx t = do {
     (header, t) \<leftarrow> ser_readdata32 t;
     let tx = tx\<lparr>fOverwintered := (drop_bit 31 header \<noteq> 0), nVersion := uint (header AND 0x7FFFFFFF)\<rparr>;
     (tx, t) \<leftarrow>
       (if fOverwintered tx then do { (g, t) \<leftarrow> ser_readdata32 t; Some (tx\<lparr>nVersionGroupId := g\<rparr>, t) } else Some (tx, t));
     if fOverwintered tx \<and> \<not> (isOverwinterV3 tx \<or> isSaplingV4 tx) then None else Some (tx, t)
   }"

definition read_transparent :: "'a CMutableTransaction_scheme \<Rightarrow> 'a CMutableTransaction_scheme reader" where
  "read_transparent tx t = do {
     (ins, t) \<leftarrow> Unserialize_vec (vec_step 80) CTxIn_Unserialize t;
     (outs, t) \<leftarrow> Unserialize_vec (vec_step 48) CTxOut_Unserialize t;
     (lock, t) \<leftarrow> ser_readdata32 t;
     Some (tx\<lparr>vin := ins, vout := outs, nLockTime := lock\<rparr>, t)
   }"

definition read_sapling :: "'a CMutableTransaction_scheme \<Rightarrow> 'a CMutableTransaction_scheme reader" where
  "read_sapling tx t = do {
     (tx, t) \<leftarrow>
       (if isOverwinterV3 tx \<or> isSaplingV4 tx
        then do { (x, t) \<leftarrow> ser_readdata32 t; Some (tx\<lparr>nExpiryHeight := x\<rparr>, t) } else Some (tx, t));
     if isSaplingV4 tx then do {
       (b, t) \<leftarrow> Unserialize_int64 t;
       (sp, t) \<leftarrow> Unserialize_vec (vec_step 384) SpendDescription_Unserialize t;
       (out, t) \<leftarrow> Unserialize_vec (vec_step 948) OutputDescription_Unserialize t;
       Some (tx\<lparr>valueBalance := b, vShieldedSpend := sp, vShieldedOutput := out\<rparr>, t)
     } else Some (tx, t)
   }"

definition read_joinsplits :: "u32 \<Rightarrow> 'a CMutableTransaction_scheme \<Rightarrow> 'a CMutableTransaction_scheme reader" where
  "read_joinsplits header tx t =
     (if 2 \<le> nVersion tx then do {
        (js, t) \<leftarrow> Unserialize_vec (vec_step 1832) (JSDescription_Unserialize (useGroth header)) t;
        let tx = tx\<lparr>vjoinsplit := js\<rparr>;
        if js \<noteq> [] then do {
          (k, t) \<leftarrow> ser_read 32 t;
          (sig, t) \<leftarrow> ser_read 64 t;
          Some (tx\<lparr>joinSplitPubKey := k, joinSplitSig := sig\<rparr>, t)
        } else Some (tx, t)
      } else Some (tx, t))"

definition read_binding :: "'a CMutableTransaction_scheme \<Rightarrow> 'a CMutableTransaction_scheme reader" where
  "read_binding tx t =
     (if isSaplingV4 tx \<and> \<not> (vShieldedSpend tx = [] \<and> vShieldedOutput tx = [])
      then do { (sig, t) \<leftarrow> ser_read 64 t; Some (tx\<lparr>bindingSig := sig\<rparr>, t) } else Some (tx, t))"

definition tx_Unserialize :: "'a CMutableTransaction_scheme \<Rightarrow> 'a CMutableTransaction_scheme reader" where
  "tx_Unserialize tx t = do {
     (tx, t) \<leftarrow> read_format tx t;
     (tx, t) \<leftarrow> read_transparent tx t;
     (tx, t) \<leftarrow> read_sapling tx t;
     (tx, t) \<leftarrow> read_joinsplits (GetHeader tx) tx t;
     read_binding tx t
   }"

section \<open>Hashes\<close>

text \<open>\<^verbatim>\<open>SerializeHash\<close>: a \<^verbatim>\<open>CHashWriter\<close> is a \<^verbatim>\<open>CHash256\<close> that the serialization is written to.\<close>

definition SerializeHash :: "bytes \<Rightarrow> bytes option" where
  "SerializeHash d = CHash256_Finalize (CHash256_Write CSHA256_init d)"

definition CMutableTransaction_GetHash :: "'a CMutableTransaction_scheme \<Rightarrow> bytes option" where
  "CMutableTransaction_GetHash tx = tx_Serialize tx \<bind> SerializeHash"

definition UpdateHash :: "CTransaction \<Rightarrow> CTransaction option" where
  "UpdateHash tx = map_option (\<lambda>h. tx\<lparr>txid := h\<rparr>) (CMutableTransaction_GetHash tx)"

definition CTransaction_init :: CTransaction where
  "CTransaction_init = CMutableTransaction.extend CMutableTransaction_init \<lparr>txid = replicate 32 0\<rparr>"

text \<open>The constructors from a mutable transaction, by copying and by moving. The second leaves out \<^verbatim>\<open>bindingSig\<close>.\<close>

definition CTransaction_copy :: "CMutableTransaction \<Rightarrow> CTransaction option" where
  "CTransaction_copy tx = UpdateHash (CMutableTransaction.extend tx \<lparr>txid = replicate 32 0\<rparr>)"

definition CTransaction_move :: "CMutableTransaction \<Rightarrow> CTransaction option" where
  "CTransaction_move tx =
     UpdateHash (CMutableTransaction.extend (tx\<lparr>bindingSig := replicate 64 0\<rparr>) \<lparr>txid = replicate 32 0\<rparr>)"

definition CTransaction_Unserialize :: "CTransaction \<Rightarrow> CTransaction reader" where
  "CTransaction_Unserialize tx t = do {
     (tx, t) \<leftarrow> tx_Unserialize tx t;
     tx \<leftarrow> UpdateHash tx;
     Some (tx, t)
   }"

text \<open>
  \<^verbatim>\<open>CTransaction(deserialize, s)\<close> reads a mutable transaction and moves it. That object is not initialized before it is
  read into, so the members that the format does not have are an argument here.
\<close>

definition CTransaction_deserialize :: "CMutableTransaction \<Rightarrow> CTransaction reader" where
  "CTransaction_deserialize garbage t = do {
     (tx, t) \<leftarrow> tx_Unserialize garbage t;
     tx \<leftarrow> CTransaction_move tx;
     Some (tx, t)
   }"

section \<open>Members\<close>

definition tx_IsNull :: "'a CMutableTransaction_scheme \<Rightarrow> bool" where
  "tx_IsNull tx \<longleftrightarrow> vin tx = [] \<and> vout tx = []"

definition IsCoinBase :: "'a CMutableTransaction_scheme \<Rightarrow> bool" where
  "IsCoinBase tx = (case vin tx of [i] \<Rightarrow> COutPoint_IsNull (prevout i) | _ \<Rightarrow> False)"

definition tx_IsCoinImport :: "'a CMutableTransaction_scheme \<Rightarrow> bool" where
  "tx_IsCoinImport tx = (case vin tx of [i] \<Rightarrow> outp_n (prevout i) = 1000000000 | _ \<Rightarrow> False)"

definition IsMint :: "'a CMutableTransaction_scheme \<Rightarrow> bool" where
  "IsMint tx \<longleftrightarrow> tx_IsCoinImport tx \<or> IsCoinBase tx"

text \<open>Adding amounts with a check of each term and each sum; \<^const>\<open>None\<close> is the exception.\<close>

fun add_in_range :: "int \<Rightarrow> int \<Rightarrow> int list \<Rightarrow> int option" where
  "add_in_range max_money acc [] = Some acc"
| "add_in_range max_money acc (v # vs) =
     (let acc' = to_int64 (acc + v)
      in if \<not> MoneyRange max_money v \<or> \<not> MoneyRange max_money acc' then None else add_in_range max_money acc' vs)"

definition GetValueOut :: "int \<Rightarrow> 'a CMutableTransaction_scheme \<Rightarrow> int option" where
  "GetValueOut max_money tx = do {
     v \<leftarrow> add_in_range max_money 0 (map nValue (vout tx));
     v \<leftarrow> (if valueBalance tx \<le> 0 then add_in_range max_money v [to_int64 (- valueBalance tx)] else Some v);
     add_in_range max_money v (map vpub_old (vjoinsplit tx))
   }"

definition GetShieldedValueIn :: "int \<Rightarrow> 'a CMutableTransaction_scheme \<Rightarrow> int option" where
  "GetShieldedValueIn max_money tx = do {
     v \<leftarrow> (if 0 \<le> valueBalance tx then add_in_range max_money 0 [valueBalance tx] else Some 0);
     add_in_range max_money v (map vpub_new (vjoinsplit tx))
   }"

definition CalculateModifiedSize :: "u32 \<Rightarrow> 'a CMutableTransaction_scheme \<Rightarrow> u32 option" where
  "CalculateModifiedSize nTxSize0 tx = do {
     nTxSize \<leftarrow> (if nTxSize0 = 0 then map_option (word_of_nat \<circ> length) (tx_Serialize tx) else Some nTxSize0);
     Some (foldl (\<lambda>nTxSize i. let offset = 41 + word_of_nat (min 110 (length (txin_script i)))
                              in if offset < nTxSize then nTxSize - offset else nTxSize) nTxSize (vin tx))
   }"

definition GetTotalSize :: "'a CMutableTransaction_scheme \<Rightarrow> u32 option" where
  "GetTotalSize tx = map_option (word_of_nat \<circ> length) (tx_Serialize tx)"

text \<open>
  \<^verbatim>\<open>UnlockTime\<close>: the time lock of a pay-to-script-hash output whose redeem script is in the next output; \<^const>\<open>None\<close> when an
  element past the end of a vector is read.
\<close>

definition OPRETTYPE_TIMELOCK :: byte where "OPRETTYPE_TIMELOCK = 1"

definition UnlockTime :: "u32 \<Rightarrow> 'a CMutableTransaction_scheme \<Rightarrow> int option" where
  "UnlockTime voutNum tx =
     (let voutNext = unat (voutNum + 1)
      in if length (vout tx) \<le> voutNext then Some 0
         else if length (vout tx) \<le> unat voutNum then None
         else let spk = txout_script (vout tx ! unat voutNum)
              in if \<not> IsPayToScriptHash spk then Some 0
                 else case GetOp2 (drop 1 (txout_script (vout tx ! voutNext))) of
                        (ok, _, _, opretData) \<Rightarrow>
                          if ok \<and> opretData \<noteq> [] \<and> hd opretData = OPRETTYPE_TIMELOCK
                          then do {
                            h \<leftarrow> Hash160 (tl opretData);
                            if h = take 20 (drop 2 spk) then do {
                              r \<leftarrow> IsCheckLockTimeVerify (tl opretData);
                              Some (case r of Some unlocktime \<Rightarrow> unlocktime | None \<Rightarrow> 0)
                            } else Some 0
                          } else Some 0)"

end
