(* ===== verification/TransactionCodec.thy ===== *)
theory TransactionCodec
  imports Transaction
begin

text \<open>
  The serialization of transactions is a codec: every part is read back as it was written, what is read is the
  serialization of what it yields, and a stream is accepted exactly when it starts with the serialization of a
  well-formed transaction. Then the values of the outputs, and what moving a transaction loses.
\<close>

lemma bind_pairE:
  "Option.bind x (\<lambda>(a, t). f a t) = Some y \<Longrightarrow> (\<And>a t. x = Some (a, t) \<Longrightarrow> f a t = Some y \<Longrightarrow> P) \<Longrightarrow> P"
  by (cases x) auto

section \<open>Serialization of the parts\<close>

lemma prefix_byte: "((G1_PREFIX_MASK OR 1) AND - 2 :: byte) = G1_PREFIX_MASK" "(G1_PREFIX_MASK AND - 2 :: byte) = G1_PREFIX_MASK"
  "((G2_PREFIX_MASK OR 1) AND - 2 :: byte) = G2_PREFIX_MASK" "(G2_PREFIX_MASK AND - 2 :: byte) = G2_PREFIX_MASK"
  "(G1_PREFIX_MASK OR 1) AND 1 \<noteq> 0" "G1_PREFIX_MASK AND 1 = 0" "(G2_PREFIX_MASK OR 1) AND 1 \<noteq> 0" "G2_PREFIX_MASK AND 1 = 0"
  by (simp_all add: G1_PREFIX_MASK_def G2_PREFIX_MASK_def)

lemma split_low_bit:
  fixes b m :: byte
  shows "b AND - 2 = m \<Longrightarrow> b AND 1 \<noteq> 0 \<Longrightarrow> b = m OR 1" and "b AND - 2 = m \<Longrightarrow> b AND 1 = 0 \<Longrightarrow> b = m"
proof -
  have "NOT (1 :: byte) = - 2" by simp
  moreover have "b = (b AND (NOT 1)) OR (b AND 1)" by (rule bit_eqI) (auto simp: bit_simps)
  ultimately have b: "b = (b AND - 2) OR (b AND 1)" by simp
  have "b AND 1 = 0 \<or> b AND 1 = 1" by (simp add: and_one_eq mod2_eq_if)
  then show "b AND - 2 = m \<Longrightarrow> b AND 1 \<noteq> 0 \<Longrightarrow> b = m OR 1" and "b AND - 2 = m \<Longrightarrow> b AND 1 = 0 \<Longrightarrow> b = m" using b by auto
qed

interpretation g1: codec "\<lambda>p. length (g1_x p) = 32" CompressedG1_Serialize CompressedG1_Unserialize
proof
  show "CompressedG1_Unserialize (CompressedG1_Serialize x @ rest) = Some (x, rest)" if "length (g1_x x) = 32" for x rest
    using that by (simp add: CompressedG1_Unserialize_def CompressedG1_Serialize_def u8.rd_wr blob.rd_wr prefix_byte)
  show "length (g1_x x) = 32 \<and> t = CompressedG1_Serialize x @ rest" if "CompressedG1_Unserialize t = Some (x, rest)" for x t rest
    using that unfolding CompressedG1_Unserialize_def
    by (elim bind_pairE if_someE) (auto simp: CompressedG1_Serialize_def dest!: u8.wr_rd blob.wr_rd dest: split_low_bit)
qed

interpretation g2: codec "\<lambda>p. length (g2_x p) = 64" CompressedG2_Serialize CompressedG2_Unserialize
proof
  show "CompressedG2_Unserialize (CompressedG2_Serialize x @ rest) = Some (x, rest)" if "length (g2_x x) = 64" for x rest
    using that by (simp add: CompressedG2_Unserialize_def CompressedG2_Serialize_def u8.rd_wr blob.rd_wr prefix_byte)
  show "length (g2_x x) = 64 \<and> t = CompressedG2_Serialize x @ rest" if "CompressedG2_Unserialize t = Some (x, rest)" for x t rest
    using that unfolding CompressedG2_Unserialize_def
    by (elim bind_pairE if_someE) (auto simp: CompressedG2_Serialize_def dest!: u8.wr_rd blob.wr_rd dest: split_low_bit)
qed

definition wf_PHGRProof :: "PHGRProof \<Rightarrow> bool" where
  "wf_PHGRProof p \<longleftrightarrow> list_all (\<lambda>q. length (g1_x q) = 32) [g_A p, g_A_prime p, g_B_prime p, g_C p, g_C_prime p, g_K p, g_H p] \<and>
     length (g2_x (g_B p)) = 64"

interpretation phgr: codec wf_PHGRProof PHGRProof_Serialize PHGRProof_Unserialize
proof
  show "PHGRProof_Unserialize (PHGRProof_Serialize x @ rest) = Some (x, rest)" if "wf_PHGRProof x" for x rest
    using that by (simp add: PHGRProof_Unserialize_def PHGRProof_Serialize_def wf_PHGRProof_def g1.rd_wr g2.rd_wr)
  show "wf_PHGRProof x \<and> t = PHGRProof_Serialize x @ rest" if "PHGRProof_Unserialize t = Some (x, rest)" for x t rest
    using that unfolding PHGRProof_Unserialize_def
    by (elim bind_pairE) (auto simp: PHGRProof_Serialize_def wf_PHGRProof_def dest!: g1.wr_rd g2.wr_rd)
qed

text \<open>A proof of the kind that the format has.\<close>

definition wf_SproutProof :: "bool \<Rightarrow> SproutProof \<Rightarrow> bool" where
  "wf_SproutProof groth proof = (case proof of PHGR p \<Rightarrow> \<not> groth \<and> wf_PHGRProof p | Groth p \<Rightarrow> groth \<and> length p = GROTH_PROOF_SIZE)"

lemma SproutProof_total: "wf_SproutProof groth p \<Longrightarrow> \<exists>d. SproutProof_Serialize groth p = Some d"
  by (auto simp: wf_SproutProof_def SproutProof_Serialize_def split: SproutProof.splits)

interpretation sproof: codec "wf_SproutProof groth" "\<lambda>p. the (SproutProof_Serialize groth p)" "SproutProof_Unserialize groth" for groth
proof
  show "SproutProof_Unserialize groth (the (SproutProof_Serialize groth x) @ rest) = Some (x, rest)" if "wf_SproutProof groth x" for x rest
    using that by (auto simp: SproutProof_Unserialize_def SproutProof_Serialize_def wf_SproutProof_def phgr.rd_wr blob.rd_wr
        split: SproutProof.splits)
  show "wf_SproutProof groth x \<and> t = the (SproutProof_Serialize groth x) @ rest" if "SproutProof_Unserialize groth t = Some (x, rest)" for x t rest
    using that by (auto simp: SproutProof_Unserialize_def SproutProof_Serialize_def wf_SproutProof_def split: if_splits
        dest!: phgr.wr_rd blob.wr_rd)
qed

definition wf_JSDescription :: "bool \<Rightarrow> JSDescription \<Rightarrow> bool" where
  "wf_JSDescription groth js \<longleftrightarrow> is_int64 (vpub_old js) \<and> is_int64 (vpub_new js) \<and>
     list_all (\<lambda>b. length b = 32) [js_anchor js, js_ephemeralKey js, randomSeed js] \<and>
     list_all (\<lambda>bs. length bs = 2 \<and> list_all (\<lambda>b. length b = 32) bs) [nullifiers js, commitments js, macs js] \<and>
     length (ciphertexts js) = 2 \<and> list_all (\<lambda>b. length b = NOTE_CIPHERTEXT_SIZE) (ciphertexts js) \<and>
     wf_SproutProof groth (js_proof js)"

lemma JSDescription_total: "wf_JSDescription groth js \<Longrightarrow> \<exists>d. JSDescription_Serialize groth js = Some d"
  using SproutProof_total [of groth "js_proof js"] by (auto simp: wf_JSDescription_def JSDescription_Serialize_def)

interpretation pair32: codec "\<lambda>xs. length xs = 2 \<and> list_all (\<lambda>v. length v = k) xs" "\<lambda>xs. concat (map (\<lambda>v. v) xs)" "read_n 2 (ser_read k)" for k
  by (rule blob.array_codec)

interpretation jsd: codec "wf_JSDescription groth" "\<lambda>js. the (JSDescription_Serialize groth js)" "JSDescription_Unserialize groth" for groth
proof
  fix x t rest
  show "JSDescription_Unserialize groth (the (JSDescription_Serialize groth x) @ rest) = Some (x, rest)"
    if wf: "wf_JSDescription groth x"
  proof -
    obtain p where p: "SproutProof_Serialize groth (js_proof x) = Some p"
      using SproutProof_total [of groth "js_proof x"] wf by (auto simp: wf_JSDescription_def)
    then have "SproutProof_Unserialize groth (p @ r) = Some (js_proof x, r)" for r
      using sproof.rd_wr [of groth "js_proof x" r] wf by (simp add: wf_JSDescription_def)
    then show ?thesis using wf
      by (simp add: JSDescription_Unserialize_def JSDescription_Serialize_def wf_JSDescription_def p i64.rd_wr blob.rd_wr
          pair32.rd_wr [unfolded list.map_ident])
  qed
  show "wf_JSDescription groth x \<and> t = the (JSDescription_Serialize groth x) @ rest"
    if "JSDescription_Unserialize groth t = Some (x, rest)"
    using that unfolding JSDescription_Unserialize_def
  proof (elim bind_pairE, goal_cases)
    case (1 old t1 new t2 anc t3 nfs t4 cms t5 epk t6 seed t7 ms t8 p t9 cts t10)
    note rd = 1(1,2) [THEN i64.wr_rd] 1(3,6,7) [THEN blob.wr_rd] 1(4,5,8,10) [THEN pair32.wr_rd, unfolded list.map_ident]
      1(9) [THEN sproof.wr_rd]
    have x: "x = \<lparr>vpub_old = old, vpub_new = new, js_anchor = anc, nullifiers = nfs, commitments = cms, js_ephemeralKey = epk,
        ciphertexts = cts, randomSeed = seed, macs = ms, js_proof = p\<rparr>" and r: "rest = t10" using 1(11) by simp_all
    obtain d where d: "SproutProof_Serialize groth p = Some d" using SproutProof_total rd by blast
    have "t = the (JSDescription_Serialize groth x) @ rest"
      unfolding rd [THEN conjunct2] by (simp add: rd x r JSDescription_Serialize_def d)
    moreover have "wf_JSDescription groth x" using rd by (simp add: wf_JSDescription_def x)
    ultimately show ?case by simp
  qed
qed

definition wf_SpendDescription :: "SpendDescription \<Rightarrow> bool" where
  "wf_SpendDescription d \<longleftrightarrow> list_all (\<lambda>b. length b = 32) [sp_cv d, sp_anchor d, sp_nullifier d, rk d] \<and>
     length (sp_zkproof d) = GROTH_PROOF_SIZE \<and> length (spendAuthSig d) = 64"

interpretation shspend: codec wf_SpendDescription SpendDescription_Serialize SpendDescription_Unserialize
proof
  fix x t rest
  show "SpendDescription_Unserialize (SpendDescription_Serialize x @ rest) = Some (x, rest)" if "wf_SpendDescription x"
    using that by (simp add: SpendDescription_Unserialize_def SpendDescription_Serialize_def wf_SpendDescription_def blob.rd_wr)
  show "wf_SpendDescription x \<and> t = SpendDescription_Serialize x @ rest" if "SpendDescription_Unserialize t = Some (x, rest)"
    using that unfolding SpendDescription_Unserialize_def
    by (elim bind_pairE) (auto simp: SpendDescription_Serialize_def wf_SpendDescription_def dest!: blob.wr_rd)
qed

definition wf_OutputDescription :: "OutputDescription \<Rightarrow> bool" where
  "wf_OutputDescription d \<longleftrightarrow> list_all (\<lambda>b. length b = 32) [out_cv d, cmu d, out_ephemeralKey d] \<and>
     length (encCiphertext d) = ZC_SAPLING_ENCCIPHERTEXT_SIZE \<and> length (outCiphertext d) = ZC_SAPLING_OUTCIPHERTEXT_SIZE \<and>
     length (out_zkproof d) = GROTH_PROOF_SIZE"

interpretation shout: codec wf_OutputDescription OutputDescription_Serialize OutputDescription_Unserialize
proof
  fix x t rest
  show "OutputDescription_Unserialize (OutputDescription_Serialize x @ rest) = Some (x, rest)" if "wf_OutputDescription x"
    using that by (simp add: OutputDescription_Unserialize_def OutputDescription_Serialize_def wf_OutputDescription_def blob.rd_wr)
  show "wf_OutputDescription x \<and> t = OutputDescription_Serialize x @ rest" if "OutputDescription_Unserialize t = Some (x, rest)"
    using that unfolding OutputDescription_Unserialize_def
    by (elim bind_pairE) (auto simp: OutputDescription_Serialize_def wf_OutputDescription_def dest!: blob.wr_rd)
qed

abbreviation wf_COutPoint :: "COutPoint \<Rightarrow> bool" where
  "wf_COutPoint p \<equiv> length (outp_hash p) = 32"

interpretation outpoint: codec wf_COutPoint COutPoint_Serialize COutPoint_Unserialize
proof
  fix x t rest
  show "COutPoint_Unserialize (COutPoint_Serialize x @ rest) = Some (x, rest)" if "wf_COutPoint x"
    using that by (simp add: COutPoint_Unserialize_def COutPoint_Serialize_def blob.rd_wr le32.rd_wr)
  show "wf_COutPoint x \<and> t = COutPoint_Serialize x @ rest" if "COutPoint_Unserialize t = Some (x, rest)"
    using that unfolding COutPoint_Unserialize_def
    by (elim bind_pairE) (auto simp: COutPoint_Serialize_def dest!: blob.wr_rd le32.wr_rd)
qed

definition wf_CTxIn :: "CTxIn \<Rightarrow> bool" where
  "wf_CTxIn i \<longleftrightarrow> wf_COutPoint (prevout i) \<and> length (txin_script i) \<le> MAX_SIZE"

interpretation txin: codec wf_CTxIn CTxIn_Serialize CTxIn_Unserialize
proof
  fix x t rest
  show "CTxIn_Unserialize (CTxIn_Serialize x @ rest) = Some (x, rest)" if "wf_CTxIn x"
    using that by (simp add: CTxIn_Unserialize_def CTxIn_Serialize_def wf_CTxIn_def outpoint.rd_wr vbytes.rd_wr le32.rd_wr)
  show "wf_CTxIn x \<and> t = CTxIn_Serialize x @ rest" if "CTxIn_Unserialize t = Some (x, rest)"
    using that unfolding CTxIn_Unserialize_def
    by (elim bind_pairE) (auto simp: CTxIn_Serialize_def wf_CTxIn_def dest!: outpoint.wr_rd vbytes.wr_rd le32.wr_rd)
qed

definition wf_CTxOut :: "CTxOut \<Rightarrow> bool" where
  "wf_CTxOut out \<longleftrightarrow> is_int64 (nValue out) \<and> length (txout_script out) \<le> MAX_SIZE"

interpretation txout: codec wf_CTxOut CTxOut_Serialize CTxOut_Unserialize
proof
  fix x t rest
  show "CTxOut_Unserialize (CTxOut_Serialize x @ rest) = Some (x, rest)" if "wf_CTxOut x"
    using that by (simp add: CTxOut_Unserialize_def CTxOut_Serialize_def wf_CTxOut_def i64.rd_wr vbytes.rd_wr)
  show "wf_CTxOut x \<and> t = CTxOut_Serialize x @ rest" if "CTxOut_Unserialize t = Some (x, rest)"
    using that unfolding CTxOut_Unserialize_def
    by (elim bind_pairE) (auto simp: CTxOut_Serialize_def wf_CTxOut_def dest!: i64.wr_rd vbytes.wr_rd)
qed

section \<open>Serialization of transactions\<close>

text \<open>The four parts of the header word.\<close>

lemma mask31: "(0x7FFFFFFF :: u32) = mask 31"
  by (simp add: mask_numeral)

lemma top_bit32: "bit (0x80000000 :: u32) k \<longleftrightarrow> k = 31" "bit (0x80000000 :: int) k \<longleftrightarrow> k = 31"
proof -
  have "(0x80000000 :: u32) = push_bit 31 1" "(0x80000000 :: int) = push_bit 31 1" by simp_all
  then show "bit (0x80000000 :: u32) k \<longleftrightarrow> k = 31" "bit (0x80000000 :: int) k \<longleftrightarrow> k = 31"
    by (simp_all only: bit_push_bit_iff) (auto simp: bit_simps)
qed

lemma below32: "n < 32 \<Longrightarrow> n < 31 \<or> n = (31 :: nat)"
  by linarith

lemma drop31: "drop_bit 31 h \<noteq> 0 \<longleftrightarrow> bit (h :: u32) 31"
proof
  assume "bit h 31"
  then have "bit (drop_bit 31 h) 0" by (simp add: bit_drop_bit_eq)
  then show "drop_bit 31 h \<noteq> 0" by auto
next
  assume "drop_bit 31 h \<noteq> 0"
  then obtain k where "bit (drop_bit 31 h) k" by (auto simp: bit_eq_iff)
  then show "bit h 31" using bit_imp_le_length [of h "31 + k"] by (cases k) (auto simp: bit_drop_bit_eq)
qed

lemma header_read:
  assumes "fOverwintered tx \<longleftrightarrow> drop_bit 31 h \<noteq> 0" and "nVersion tx = uint (h AND 0x7FFFFFFF)"
  shows "GetHeader tx = h" and "0 \<le> nVersion tx" and "nVersion tx < 2 ^ 31"
proof -
  have "(h AND 0x7FFFFFFF) OR (if drop_bit 31 h \<noteq> 0 then 0x80000000 else 0) = h"
    unfolding mask31 drop31 by (rule bit_eqI) (auto simp: bit_simps top_bit32 dest: below32)
  then show "GetHeader tx = h" using assms by (auto simp: GetHeader_def Let_def)
  show "0 \<le> nVersion tx" using assms by simp
  have "uint (h AND 0x7FFFFFFF) = take_bit 31 (uint h)"
    unfolding mask31 by (simp add: take_bit_eq_mask [symmetric] unsigned_take_bit_eq)
  then show "nVersion tx < 2 ^ 31" using assms(2) take_bit_int_less_exp [of 31 "uint h"] by simp
qed

lemma header_write:
  assumes "0 \<le> nVersion tx" and "nVersion tx < 2 ^ 31"
  shows "drop_bit 31 (GetHeader tx) \<noteq> 0 \<longleftrightarrow> fOverwintered tx" and "uint (GetHeader tx AND 0x7FFFFFFF) = nVersion tx"
proof -
  have low: "\<not> bit (word_of_int (nVersion tx) :: u32) k" if "31 \<le> k" for k
  proof -
    have "take_bit 31 (nVersion tx) = nVersion tx" using assms by (simp add: take_bit_int_eq_self)
    then have "bit (nVersion tx) k \<longleftrightarrow> k < 31 \<and> bit (nVersion tx) k" by (metis bit_take_bit_iff)
    then show ?thesis using that by (auto simp: bit_word_of_int_iff)
  qed
  show "drop_bit 31 (GetHeader tx) \<noteq> 0 \<longleftrightarrow> fOverwintered tx"
    unfolding drop31 GetHeader_def Let_def using low [of 31] by (simp add: bit_simps top_bit32)
  have "GetHeader tx AND 0x7FFFFFFF = word_of_int (nVersion tx)"
    unfolding mask31 GetHeader_def Let_def
    by (rule bit_eqI) (use low [of 31] in \<open>auto simp: bit_simps top_bit32 dest: below32\<close>)
  then show "uint (GetHeader tx AND 0x7FFFFFFF) = nVersion tx"
    using assms by (simp add: uint_word_of_int take_bit_int_eq_self)
qed

text \<open>What the transaction's format asks of the members, and what the members have that the format does not.\<close>

definition known_format :: "'a CMutableTransaction_scheme \<Rightarrow> bool" where
  "known_format tx \<longleftrightarrow> 0 \<le> nVersion tx \<and> nVersion tx < 2 ^ 31 \<and> (fOverwintered tx \<longrightarrow> isOverwinterV3 tx \<or> isSaplingV4 tx)"

definition wf_parts :: "'a CMutableTransaction_scheme \<Rightarrow> bool" where
  "wf_parts tx \<longleftrightarrow>
     length (vin tx) \<le> MAX_SIZE \<and> list_all wf_CTxIn (vin tx) \<and> length (vout tx) \<le> MAX_SIZE \<and> list_all wf_CTxOut (vout tx) \<and>
     is_int64 (valueBalance tx) \<and>
     length (vShieldedSpend tx) \<le> MAX_SIZE \<and> list_all wf_SpendDescription (vShieldedSpend tx) \<and>
     length (vShieldedOutput tx) \<le> MAX_SIZE \<and> list_all wf_OutputDescription (vShieldedOutput tx) \<and>
     length (vjoinsplit tx) \<le> MAX_SIZE \<and> list_all (wf_JSDescription (useGroth (GetHeader tx))) (vjoinsplit tx) \<and>
     length (joinSplitPubKey tx) = 32 \<and> length (joinSplitSig tx) = 64 \<and> length (bindingSig tx) = 64"

definition no_extras :: "'a CMutableTransaction_scheme \<Rightarrow> bool" where
  "no_extras tx \<longleftrightarrow>
     (\<not> fOverwintered tx \<longrightarrow> nVersionGroupId tx = 0 \<and> nExpiryHeight tx = 0) \<and>
     (\<not> isSaplingV4 tx \<longrightarrow> valueBalance tx = 0 \<and> vShieldedSpend tx = [] \<and> vShieldedOutput tx = []) \<and>
     (nVersion tx < 2 \<longrightarrow> vjoinsplit tx = []) \<and>
     (vjoinsplit tx = [] \<longrightarrow> joinSplitPubKey tx = replicate 32 0 \<and> joinSplitSig tx = replicate 64 0) \<and>
     (vShieldedSpend tx = [] \<and> vShieldedOutput tx = [] \<longrightarrow> bindingSig tx = replicate 64 0)"

definition wf_tx :: "'a CMutableTransaction_scheme \<Rightarrow> bool" where
  "wf_tx tx \<longleftrightarrow> known_format tx \<and> wf_parts tx \<and> no_extras tx"

text \<open>The serialization as the concatenation of the parts that are read one after the other.\<close>

definition seg_format :: "'a CMutableTransaction_scheme \<Rightarrow> bytes" where
  "seg_format tx = ser_writedata32 (GetHeader tx) @ (if fOverwintered tx then ser_writedata32 (nVersionGroupId tx) else [])"

definition seg_transparent :: "'a CMutableTransaction_scheme \<Rightarrow> bytes" where
  "seg_transparent tx = Serialize_vec CTxIn_Serialize (vin tx) @ Serialize_vec CTxOut_Serialize (vout tx) @ ser_writedata32 (nLockTime tx)"

definition seg_sapling :: "'a CMutableTransaction_scheme \<Rightarrow> bytes" where
  "seg_sapling tx = (if isOverwinterV3 tx \<or> isSaplingV4 tx then ser_writedata32 (nExpiryHeight tx) else []) @
     (if isSaplingV4 tx
      then Serialize_int64 (valueBalance tx) @ Serialize_vec SpendDescription_Serialize (vShieldedSpend tx) @
        Serialize_vec OutputDescription_Serialize (vShieldedOutput tx) else [])"

definition seg_joinsplits :: "'a CMutableTransaction_scheme \<Rightarrow> bytes" where
  "seg_joinsplits tx = (if 2 \<le> nVersion tx
     then Serialize_vec (\<lambda>js. the (JSDescription_Serialize (useGroth (GetHeader tx)) js)) (vjoinsplit tx) @
       (if vjoinsplit tx \<noteq> [] then joinSplitPubKey tx @ joinSplitSig tx else []) else [])"

definition seg_binding :: "'a CMutableTransaction_scheme \<Rightarrow> bytes" where
  "seg_binding tx = (if isSaplingV4 tx \<and> \<not> (vShieldedSpend tx = [] \<and> vShieldedOutput tx = []) then bindingSig tx else [])"

lemma those_total: "list_all (\<lambda>x. \<exists>d. f x = Some d) xs \<Longrightarrow> those (map f xs) = Some (map (\<lambda>x. the (f x)) xs)"
  by (induction xs) auto

lemma tx_Serialize_parts:
  assumes "known_format tx" and "list_all (wf_JSDescription (useGroth (GetHeader tx))) (vjoinsplit tx)"
  shows "tx_Serialize tx = Some (seg_format tx @ seg_transparent tx @ seg_sapling tx @ seg_joinsplits tx @ seg_binding tx)"
proof -
  have "those (map (JSDescription_Serialize (useGroth (GetHeader tx))) (vjoinsplit tx)) =
      Some (map (\<lambda>js. the (JSDescription_Serialize (useGroth (GetHeader tx)) js)) (vjoinsplit tx))"
    by (rule those_total) (use assms(2) JSDescription_total in \<open>auto simp: list_all_iff\<close>)
  then show ?thesis using assms(1)
    by (auto simp: tx_Serialize_def JoinSplits_Serialize_def known_format_def seg_format_def seg_transparent_def
        seg_sapling_def seg_joinsplits_def seg_binding_def Serialize_vec_def)
qed

interpretation vin_codec: codec "\<lambda>xs. length xs \<le> MAX_SIZE \<and> list_all wf_CTxIn xs" "Serialize_vec CTxIn_Serialize"
    "Unserialize_vec (vec_step 80) CTxIn_Unserialize"
  by (rule txin.vec_codec) (simp add: vec_step_def)

interpretation vout_codec: codec "\<lambda>xs. length xs \<le> MAX_SIZE \<and> list_all wf_CTxOut xs" "Serialize_vec CTxOut_Serialize"
    "Unserialize_vec (vec_step 48) CTxOut_Unserialize"
  by (rule txout.vec_codec) (simp add: vec_step_def)

interpretation spends_codec: codec "\<lambda>xs. length xs \<le> MAX_SIZE \<and> list_all wf_SpendDescription xs"
    "Serialize_vec SpendDescription_Serialize" "Unserialize_vec (vec_step 384) SpendDescription_Unserialize"
  by (rule shspend.vec_codec) (simp add: vec_step_def)

interpretation outputs_codec: codec "\<lambda>xs. length xs \<le> MAX_SIZE \<and> list_all wf_OutputDescription xs"
    "Serialize_vec OutputDescription_Serialize" "Unserialize_vec (vec_step 948) OutputDescription_Unserialize"
  by (rule shout.vec_codec) (simp add: vec_step_def)

interpretation js_codec: codec "\<lambda>xs. length xs \<le> MAX_SIZE \<and> list_all (wf_JSDescription groth) xs"
    "Serialize_vec (\<lambda>js. the (JSDescription_Serialize groth js))" "Unserialize_vec (vec_step 1832) (JSDescription_Unserialize groth)"
    for groth
  by (rule jsd.vec_codec) (simp add: vec_step_def)

lemma GetHeader_cong: "fOverwintered tx = fOverwintered tx' \<Longrightarrow> nVersion tx = nVersion tx' \<Longrightarrow> GetHeader tx = GetHeader tx'"
  by (simp add: GetHeader_def)

lemma format_cong:
  assumes "fOverwintered tx = fOverwintered tx'" "nVersion tx = nVersion tx'" "nVersionGroupId tx = nVersionGroupId tx'"
  shows "isOverwinterV3 tx = isOverwinterV3 tx'" and "isSaplingV4 tx = isSaplingV4 tx'"
  using assms by (simp_all add: isOverwinterV3_def isSaplingV4_def)

text \<open>Reading each part back.\<close>

lemma read_format_seg:
  assumes "known_format tx" and "fOverwintered tx \<or> nVersionGroupId tx = nVersionGroupId tx0"
  shows "read_format tx0 (seg_format tx @ r) = Some (tx0\<lparr>fOverwintered := fOverwintered tx, nVersion := nVersion tx,
    nVersionGroupId := nVersionGroupId tx\<rparr>, r)"
  using assms header_write [of tx]
  by (auto simp: read_format_def seg_format_def known_format_def le32.rd_wr isOverwinterV3_def isSaplingV4_def Let_def)

lemma read_transparent_seg:
  assumes "wf_parts tx"
  shows "read_transparent tx0 (seg_transparent tx @ r) = Some (tx0\<lparr>vin := vin tx, vout := vout tx, nLockTime := nLockTime tx\<rparr>, r)"
  using assms by (simp add: read_transparent_def seg_transparent_def wf_parts_def vin_codec.rd_wr vout_codec.rd_wr le32.rd_wr)

lemma read_sapling_seg:
  assumes "wf_parts tx" and "isOverwinterV3 tx0 = isOverwinterV3 tx" "isSaplingV4 tx0 = isSaplingV4 tx"
    and "isOverwinterV3 tx \<or> isSaplingV4 tx \<or> nExpiryHeight tx = nExpiryHeight tx0"
    and "isSaplingV4 tx \<or> valueBalance tx = valueBalance tx0 \<and> vShieldedSpend tx = vShieldedSpend tx0 \<and> vShieldedOutput tx = vShieldedOutput tx0"
  shows "read_sapling tx0 (seg_sapling tx @ r) = Some (tx0\<lparr>nExpiryHeight := nExpiryHeight tx, valueBalance := valueBalance tx,
    vShieldedSpend := vShieldedSpend tx, vShieldedOutput := vShieldedOutput tx\<rparr>, r)"
  using assms format_cong [of "tx0\<lparr>nExpiryHeight := nExpiryHeight tx\<rparr>" tx0]
  by (auto simp: read_sapling_def seg_sapling_def wf_parts_def le32.rd_wr i64.rd_wr spends_codec.rd_wr outputs_codec.rd_wr)

lemma read_joinsplits_seg:
  assumes "wf_parts tx" and "nVersion tx0 = nVersion tx" and "h = GetHeader tx"
    and "2 \<le> nVersion tx \<or> vjoinsplit tx = vjoinsplit tx0"
    and "(2 \<le> nVersion tx \<and> vjoinsplit tx \<noteq> []) \<or> joinSplitPubKey tx = joinSplitPubKey tx0 \<and> joinSplitSig tx = joinSplitSig tx0"
  shows "read_joinsplits h tx0 (seg_joinsplits tx @ r) = Some (tx0\<lparr>vjoinsplit := vjoinsplit tx, joinSplitPubKey := joinSplitPubKey tx,
    joinSplitSig := joinSplitSig tx\<rparr>, r)"
  using assms by (auto simp: read_joinsplits_def seg_joinsplits_def wf_parts_def js_codec.rd_wr blob.rd_wr Let_def)

lemma read_binding_seg:
  assumes "wf_parts tx" and "isSaplingV4 tx0 = isSaplingV4 tx" "vShieldedSpend tx0 = vShieldedSpend tx" "vShieldedOutput tx0 = vShieldedOutput tx"
    and "isSaplingV4 tx \<and> \<not> (vShieldedSpend tx = [] \<and> vShieldedOutput tx = []) \<or> bindingSig tx = bindingSig tx0"
  shows "read_binding tx0 (seg_binding tx @ r) = Some (tx0\<lparr>bindingSig := bindingSig tx\<rparr>, r)"
  using assms by (auto simp: read_binding_def seg_binding_def wf_parts_def blob.rd_wr)

definition fresh :: "'a CMutableTransaction_scheme \<Rightarrow> bool" where
  "fresh tx \<longleftrightarrow> nVersionGroupId tx = 0 \<and> nExpiryHeight tx = 0 \<and> valueBalance tx = 0 \<and> vShieldedSpend tx = [] \<and> vShieldedOutput tx = [] \<and>
     vjoinsplit tx = [] \<and> joinSplitPubKey tx = replicate 32 0 \<and> joinSplitSig tx = replicate 64 0 \<and> bindingSig tx = replicate 64 0"

lemma tx_Unserialize_seg:
  assumes "wf_tx tx" and "fresh tx0" and "CMutableTransaction.more tx0 = CMutableTransaction.more tx" and "tx_Serialize tx = Some p"
  shows "tx_Unserialize tx0 (p @ rest) = Some (tx, rest)"
proof -
  have wf: "known_format tx" "wf_parts tx" "no_extras tx" using assms(1) by (simp_all add: wf_tx_def)
  have p: "p = seg_format tx @ seg_transparent tx @ seg_sapling tx @ seg_joinsplits tx @ seg_binding tx"
    using tx_Serialize_parts [of tx] wf assms(4) by (simp add: wf_parts_def)
  let ?tx1 = "tx0\<lparr>fOverwintered := fOverwintered tx, nVersion := nVersion tx, nVersionGroupId := nVersionGroupId tx\<rparr>"
  let ?tx2 = "?tx1\<lparr>vin := vin tx, vout := vout tx, nLockTime := nLockTime tx\<rparr>"
  let ?tx3 = "?tx2\<lparr>nExpiryHeight := nExpiryHeight tx, valueBalance := valueBalance tx,
    vShieldedSpend := vShieldedSpend tx, vShieldedOutput := vShieldedOutput tx\<rparr>"
  let ?tx4 = "?tx3\<lparr>vjoinsplit := vjoinsplit tx, joinSplitPubKey := joinSplitPubKey tx, joinSplitSig := joinSplitSig tx\<rparr>"
  have f: "isOverwinterV3 ?tx2 = isOverwinterV3 tx" "isSaplingV4 ?tx2 = isSaplingV4 tx" "isSaplingV4 ?tx4 = isSaplingV4 tx"
    by (rule format_cong; simp)+
  have h: "GetHeader ?tx3 = GetHeader tx" by (rule GetHeader_cong) simp_all
  have 1: "read_format tx0 (seg_format tx @ r) = Some (?tx1, r)" for r
    by (rule read_format_seg) (use wf assms(2) in \<open>auto simp: no_extras_def fresh_def\<close>)
  have 2: "read_transparent ?tx1 (seg_transparent tx @ r) = Some (?tx2, r)" for r by (rule read_transparent_seg [OF wf(2)])
  have 3: "read_sapling ?tx2 (seg_sapling tx @ r) = Some (?tx3, r)" for r
    by (rule read_sapling_seg [OF wf(2) f(1,2)]) (use wf(1,3) assms(2) in \<open>auto simp: no_extras_def fresh_def known_format_def\<close>)
  have 4: "read_joinsplits (GetHeader ?tx3) ?tx3 (seg_joinsplits tx @ r) = Some (?tx4, r)" for r
    unfolding h by (rule read_joinsplits_seg [OF wf(2) _ refl]) (use wf(3) assms(2) in \<open>auto simp: no_extras_def fresh_def\<close>)
  have 5: "read_binding ?tx4 (seg_binding tx @ r) = Some (?tx4\<lparr>bindingSig := bindingSig tx\<rparr>, r)" for r
    by (rule read_binding_seg [OF wf(2) f(3)]) (use wf(3) assms(2) in \<open>auto simp: no_extras_def fresh_def\<close>)
  have "?tx4\<lparr>bindingSig := bindingSig tx\<rparr> = tx" using assms(3) by (cases tx; cases tx0) simp
  then show ?thesis unfolding p append_assoc tx_Unserialize_def by (simp add: 1 2 3 4 5 del: fold_congs)
qed

text \<open>What each part accepts.\<close>

lemma read_format_rd:
  assumes "read_format tx0 t = Some (tx, r)"
  shows "t = seg_format tx @ r" and "known_format tx" and "\<not> fOverwintered tx \<Longrightarrow> nVersionGroupId tx = nVersionGroupId tx0"
    and "tx = tx0\<lparr>fOverwintered := fOverwintered tx, nVersion := nVersion tx, nVersionGroupId := nVersionGroupId tx\<rparr>"
proof -
  obtain h t1 where h: "ser_readdata32 t = Some (h, t1)" using assms by (auto simp: read_format_def split: bind_splits)
  have t: "t = ser_writedata32 h @ t1" using h le32.wr_rd by blast
  let ?tx1 = "tx0\<lparr>fOverwintered := (drop_bit 31 h \<noteq> 0), nVersion := uint (h AND 0x7FFFFFFF)\<rparr>"
  have "\<exists>g. tx = ?tx1\<lparr>nVersionGroupId := g\<rparr> \<and> t1 = (if fOverwintered ?tx1 then ser_writedata32 g else []) @ r \<and>
      (\<not> fOverwintered ?tx1 \<longrightarrow> g = nVersionGroupId tx0) \<and> (fOverwintered tx \<longrightarrow> isOverwinterV3 tx \<or> isSaplingV4 tx)"
    using assms h unfolding read_format_def
    by (auto simp: Let_def split: if_splits bind_splits dest!: le32.wr_rd)
  then obtain g where g: "tx = ?tx1\<lparr>nVersionGroupId := g\<rparr>" "t1 = (if fOverwintered ?tx1 then ser_writedata32 g else []) @ r"
      "\<not> fOverwintered ?tx1 \<Longrightarrow> g = nVersionGroupId tx0" "fOverwintered tx \<Longrightarrow> isOverwinterV3 tx \<or> isSaplingV4 tx"
    by blast
  have hd: "GetHeader tx = h" "0 \<le> nVersion tx" "nVersion tx < 2 ^ 31" by (rule header_read [of tx h]; simp add: g(1))+
  show "t = seg_format tx @ r" unfolding seg_format_def hd t g(2) by (simp add: g(1))
  show "known_format tx" using hd g(4) by (simp add: known_format_def)
  show "\<not> fOverwintered tx \<Longrightarrow> nVersionGroupId tx = nVersionGroupId tx0" using g(1,3) by simp
  show "tx = tx0\<lparr>fOverwintered := fOverwintered tx, nVersion := nVersion tx, nVersionGroupId := nVersionGroupId tx\<rparr>"
    by (simp add: g(1))
qed

lemma read_transparent_rd:
  assumes "read_transparent tx0 t = Some (tx, r)"
  shows "t = seg_transparent tx @ r" and "length (vin tx) \<le> MAX_SIZE \<and> list_all wf_CTxIn (vin tx)"
    and "length (vout tx) \<le> MAX_SIZE \<and> list_all wf_CTxOut (vout tx)"
    and "tx = tx0\<lparr>vin := vin tx, vout := vout tx, nLockTime := nLockTime tx\<rparr>"
  using assms unfolding read_transparent_def
  by (elim bind_pairE; auto simp: seg_transparent_def dest!: vin_codec.wr_rd vout_codec.wr_rd le32.wr_rd)+

lemma read_sapling_cases:
  assumes "read_sapling tx0 t = Some (tx, r)"
  obtains x b sp out where "tx = tx0\<lparr>nExpiryHeight := x, valueBalance := b, vShieldedSpend := sp, vShieldedOutput := out\<rparr>"
    and "t = (if isOverwinterV3 tx0 \<or> isSaplingV4 tx0 then ser_writedata32 x else []) @ (if isSaplingV4 tx0 then
        Serialize_int64 b @ Serialize_vec SpendDescription_Serialize sp @ Serialize_vec OutputDescription_Serialize out else []) @ r"
    and "isOverwinterV3 tx0 \<or> isSaplingV4 tx0 \<or> x = nExpiryHeight tx0"
    and "if isSaplingV4 tx0 then is_int64 b \<and> (length sp \<le> MAX_SIZE \<and> list_all wf_SpendDescription sp) \<and>
         length out \<le> MAX_SIZE \<and> list_all wf_OutputDescription out
       else b = valueBalance tx0 \<and> sp = vShieldedSpend tx0 \<and> out = vShieldedOutput tx0"
proof (cases "isSaplingV4 tx0")
  case True
  then have "isSaplingV4 (tx0\<lparr>nExpiryHeight := x\<rparr>)" for x by (simp add: isSaplingV4_def)
  with True assms that show ?thesis unfolding read_sapling_def
    by (auto split: bind_splits dest!: le32.wr_rd i64.wr_rd spends_codec.wr_rd outputs_codec.wr_rd)
next
  case False
  then have n: "\<not> isSaplingV4 (tx0\<lparr>nExpiryHeight := x\<rparr>)" for x by (simp add: isSaplingV4_def)
  have "tx0 = tx0\<lparr>nExpiryHeight := nExpiryHeight tx0, valueBalance := valueBalance tx0, vShieldedSpend := vShieldedSpend tx0,
      vShieldedOutput := vShieldedOutput tx0\<rparr>" by simp
  with False n assms that [where x = "nExpiryHeight tx" and b = "valueBalance tx0" and sp = "vShieldedSpend tx0" and out = "vShieldedOutput tx0"] show ?thesis
    unfolding read_sapling_def by (auto split: bind_splits if_splits dest!: le32.wr_rd)
qed

lemma read_sapling_rd:
  assumes "read_sapling tx0 t = Some (tx, r)"
  shows "t = seg_sapling tx @ r"
    and "tx = tx0\<lparr>nExpiryHeight := nExpiryHeight tx, valueBalance := valueBalance tx,
           vShieldedSpend := vShieldedSpend tx, vShieldedOutput := vShieldedOutput tx\<rparr>"
    and "isSaplingV4 tx \<longrightarrow> is_int64 (valueBalance tx) \<and>
           length (vShieldedSpend tx) \<le> MAX_SIZE \<and> list_all wf_SpendDescription (vShieldedSpend tx) \<and>
           length (vShieldedOutput tx) \<le> MAX_SIZE \<and> list_all wf_OutputDescription (vShieldedOutput tx)"
    and "\<not> isSaplingV4 tx \<longrightarrow> valueBalance tx = valueBalance tx0 \<and> vShieldedSpend tx = vShieldedSpend tx0 \<and> vShieldedOutput tx = vShieldedOutput tx0"
    and "\<not> isOverwinterV3 tx \<and> \<not> isSaplingV4 tx \<longrightarrow> nExpiryHeight tx = nExpiryHeight tx0"
proof -
  obtain x b sp out where tx: "tx = tx0\<lparr>nExpiryHeight := x, valueBalance := b, vShieldedSpend := sp, vShieldedOutput := out\<rparr>"
      and t: "t = (if isOverwinterV3 tx0 \<or> isSaplingV4 tx0 then ser_writedata32 x else []) @ (if isSaplingV4 tx0 then
        Serialize_int64 b @ Serialize_vec SpendDescription_Serialize sp @ Serialize_vec OutputDescription_Serialize out else []) @ r"
      and x: "isOverwinterV3 tx0 \<or> isSaplingV4 tx0 \<or> x = nExpiryHeight tx0"
      and w: "if isSaplingV4 tx0 then is_int64 b \<and> (length sp \<le> MAX_SIZE \<and> list_all wf_SpendDescription sp) \<and>
         length out \<le> MAX_SIZE \<and> list_all wf_OutputDescription out
       else b = valueBalance tx0 \<and> sp = vShieldedSpend tx0 \<and> out = vShieldedOutput tx0"
    by (rule read_sapling_cases [OF assms])
  have f: "isOverwinterV3 tx = isOverwinterV3 tx0" "isSaplingV4 tx = isSaplingV4 tx0" by (rule format_cong; simp add: tx)+
  show "t = seg_sapling tx @ r" unfolding seg_sapling_def f t by (simp add: tx)
  show "tx = tx0\<lparr>nExpiryHeight := nExpiryHeight tx, valueBalance := valueBalance tx,
           vShieldedSpend := vShieldedSpend tx, vShieldedOutput := vShieldedOutput tx\<rparr>" by (simp add: tx)
  show "isSaplingV4 tx \<longrightarrow> is_int64 (valueBalance tx) \<and>
           length (vShieldedSpend tx) \<le> MAX_SIZE \<and> list_all wf_SpendDescription (vShieldedSpend tx) \<and>
           length (vShieldedOutput tx) \<le> MAX_SIZE \<and> list_all wf_OutputDescription (vShieldedOutput tx)"
    unfolding f using w by (simp add: tx)
  show "\<not> isSaplingV4 tx \<longrightarrow> valueBalance tx = valueBalance tx0 \<and> vShieldedSpend tx = vShieldedSpend tx0 \<and> vShieldedOutput tx = vShieldedOutput tx0"
    unfolding f using w by (simp add: tx)
  show "\<not> isOverwinterV3 tx \<and> \<not> isSaplingV4 tx \<longrightarrow> nExpiryHeight tx = nExpiryHeight tx0"
    unfolding f using x by (auto simp: tx)
qed

lemma read_joinsplits_cases:
  assumes "read_joinsplits h tx0 t = Some (tx, r)"
  obtains js k sig where "tx = tx0\<lparr>vjoinsplit := js, joinSplitPubKey := k, joinSplitSig := sig\<rparr>"
    and "if 2 \<le> nVersion tx0 then (length js \<le> MAX_SIZE \<and> list_all (wf_JSDescription (useGroth h)) js) \<and>
        t = Serialize_vec (\<lambda>js. the (JSDescription_Serialize (useGroth h) js)) js @ (if js \<noteq> [] then k @ sig else []) @ r
      else js = vjoinsplit tx0 \<and> t = r"
    and "if 2 \<le> nVersion tx0 \<and> js \<noteq> [] then length k = 32 \<and> length sig = 64 else k = joinSplitPubKey tx0 \<and> sig = joinSplitSig tx0"
proof (cases "2 \<le> nVersion tx0")
  case True
  then obtain js t1 where js: "Unserialize_vec (vec_step 1832) (JSDescription_Unserialize (useGroth h)) t = Some (js, t1)"
    using assms by (auto simp: read_joinsplits_def split: bind_splits)
  note wf = js_codec.wr_rd [OF js]
  show ?thesis
  proof (cases "js = []")
    case True
    then show ?thesis using assms \<open>2 \<le> nVersion tx0\<close> js wf that [where js = "[]" and k = "joinSplitPubKey tx0" and sig = "joinSplitSig tx0"]
      by (auto simp: read_joinsplits_def)
  next
    case False
    then obtain k t2 sig where "ser_read 32 t1 = Some (k, t2)" "ser_read 64 t2 = Some (sig, r)"
        "tx = tx0\<lparr>vjoinsplit := js, joinSplitPubKey := k, joinSplitSig := sig\<rparr>"
      using assms True js by (auto simp: read_joinsplits_def split: bind_splits)
    with False True wf show ?thesis by (intro that [where js = js and k = k and sig = sig]) (auto dest!: blob.wr_rd)
  qed
next
  case False
  then show ?thesis using assms that [where js = "vjoinsplit tx0" and k = "joinSplitPubKey tx0" and sig = "joinSplitSig tx0"]
    by (auto simp: read_joinsplits_def)
qed

lemma read_joinsplits_rd:
  assumes "read_joinsplits h tx0 t = Some (tx, r)" and "h = GetHeader tx0"
  shows "t = seg_joinsplits tx @ r"
    and "tx = tx0\<lparr>vjoinsplit := vjoinsplit tx, joinSplitPubKey := joinSplitPubKey tx, joinSplitSig := joinSplitSig tx\<rparr>"
    and "if 2 \<le> nVersion tx then length (vjoinsplit tx) \<le> MAX_SIZE \<and> list_all (wf_JSDescription (useGroth h)) (vjoinsplit tx)
         else vjoinsplit tx = vjoinsplit tx0"
    and "if 2 \<le> nVersion tx \<and> vjoinsplit tx \<noteq> [] then length (joinSplitPubKey tx) = 32 \<and> length (joinSplitSig tx) = 64
         else joinSplitPubKey tx = joinSplitPubKey tx0 \<and> joinSplitSig tx = joinSplitSig tx0"
proof -
  obtain js k sig where j: "tx = tx0\<lparr>vjoinsplit := js, joinSplitPubKey := k, joinSplitSig := sig\<rparr>"
     "if 2 \<le> nVersion tx0 then (length js \<le> MAX_SIZE \<and> list_all (wf_JSDescription (useGroth h)) js) \<and>
        t = Serialize_vec (\<lambda>js. the (JSDescription_Serialize (useGroth h) js)) js @ (if js \<noteq> [] then k @ sig else []) @ r
      else js = vjoinsplit tx0 \<and> t = r"
     "if 2 \<le> nVersion tx0 \<and> js \<noteq> [] then length k = 32 \<and> length sig = 64 else k = joinSplitPubKey tx0 \<and> sig = joinSplitSig tx0"
    by (rule read_joinsplits_cases [OF assms(1)])
  have "GetHeader tx = h" unfolding assms(2) by (rule GetHeader_cong) (simp_all add: j(1))
  then show "t = seg_joinsplits tx @ r" using j(2) by (cases "2 \<le> nVersion tx0") (simp_all add: seg_joinsplits_def j(1))
  show "tx = tx0\<lparr>vjoinsplit := vjoinsplit tx, joinSplitPubKey := joinSplitPubKey tx, joinSplitSig := joinSplitSig tx\<rparr>" by (simp add: j(1))
  show "if 2 \<le> nVersion tx then length (vjoinsplit tx) \<le> MAX_SIZE \<and> list_all (wf_JSDescription (useGroth h)) (vjoinsplit tx)
         else vjoinsplit tx = vjoinsplit tx0" using j(2) by (cases "2 \<le> nVersion tx0") (simp_all add: j(1))
  show "if 2 \<le> nVersion tx \<and> vjoinsplit tx \<noteq> [] then length (joinSplitPubKey tx) = 32 \<and> length (joinSplitSig tx) = 64
         else joinSplitPubKey tx = joinSplitPubKey tx0 \<and> joinSplitSig tx = joinSplitSig tx0"
    using j(3) by (simp add: j(1) split: if_splits)
qed

lemma read_binding_rd:
  assumes "read_binding tx0 t = Some (tx, r)"
  shows "t = seg_binding tx @ r" and "tx = tx0\<lparr>bindingSig := bindingSig tx\<rparr>"
    and "if isSaplingV4 tx \<and> \<not> (vShieldedSpend tx = [] \<and> vShieldedOutput tx = []) then length (bindingSig tx) = 64
         else bindingSig tx = bindingSig tx0"
proof -
  have f: "isSaplingV4 (tx0\<lparr>bindingSig := b\<rparr>) = isSaplingV4 tx0" for b by (simp add: isSaplingV4_def)
  show "t = seg_binding tx @ r" "tx = tx0\<lparr>bindingSig := bindingSig tx\<rparr>"
    "if isSaplingV4 tx \<and> \<not> (vShieldedSpend tx = [] \<and> vShieldedOutput tx = []) then length (bindingSig tx) = 64
         else bindingSig tx = bindingSig tx0"
    using assms f by (auto simp: read_binding_def seg_binding_def split: if_splits bind_splits dest!: blob.wr_rd)
qed

lemma is_int64_0 [simp]: "is_int64 0"
  by (simp add: is_int64_def)

lemma tx_Unserialize_rd:
  assumes "tx_Unserialize tx0 t = Some (tx, rest)" and "fresh tx0"
  shows "wf_tx tx" and "CMutableTransaction.more tx = CMutableTransaction.more tx0"
    and "t = seg_format tx @ seg_transparent tx @ seg_sapling tx @ seg_joinsplits tx @ seg_binding tx @ rest"
proof -
  obtain tx1 t1 tx2 t2 tx3 t3 tx4 t4 where
    s: "read_format tx0 t = Some (tx1, t1)" "read_transparent tx1 t1 = Some (tx2, t2)" "read_sapling tx2 t2 = Some (tx3, t3)"
      "read_joinsplits (GetHeader tx3) tx3 t3 = Some (tx4, t4)" "read_binding tx4 t4 = Some (tx, rest)"
    using assms(1) unfolding tx_Unserialize_def by (elim bind_pairE) blast
  note r1 = read_format_rd [OF s(1)] and r2 = read_transparent_rd [OF s(2)] and r3 = read_sapling_rd [OF s(3)]
    and r4 = read_joinsplits_rd [OF s(4) refl] and r5 = read_binding_rd [OF s(5)]
  obtain a b c where u1: "tx1 = tx0\<lparr>fOverwintered := a, nVersion := b, nVersionGroupId := c\<rparr>" using r1(4) by blast
  obtain d e f where u2: "tx2 = tx1\<lparr>vin := d, vout := e, nLockTime := f\<rparr>" using r2(4) by blast
  obtain g h i j where u3: "tx3 = tx2\<lparr>nExpiryHeight := g, valueBalance := h, vShieldedSpend := i, vShieldedOutput := j\<rparr>"
    using r3(2) by blast
  obtain k l m where u4: "tx4 = tx3\<lparr>vjoinsplit := k, joinSplitPubKey := l, joinSplitSig := m\<rparr>" using r4(2) by blast
  obtain n where u5: "tx = tx4\<lparr>bindingSig := n\<rparr>" using r5(2) by blast
  note u = u1 u2 u3 u4 u5
  note fmt = isOverwinterV3_def isSaplingV4_def
  have seg: "seg_format tx1 = seg_format tx" "seg_transparent tx2 = seg_transparent tx" "seg_sapling tx3 = seg_sapling tx"
    "seg_joinsplits tx4 = seg_joinsplits tx"
    by (simp_all add: u fmt seg_format_def seg_transparent_def seg_sapling_def seg_joinsplits_def GetHeader_def cong: if_cong)
  show "t = seg_format tx @ seg_transparent tx @ seg_sapling tx @ seg_joinsplits tx @ seg_binding tx @ rest"
    using r1(1) r2(1) r3(1) r4(1) r5(1) by (simp add: seg)
  show "CMutableTransaction.more tx = CMutableTransaction.more tx0" by (simp add: u)
  have "known_format tx" using r1(2) by (simp add: u known_format_def fmt)
  moreover have hd: "GetHeader tx = GetHeader tx3" by (rule GetHeader_cong) (simp_all add: u)
  have v4: "isSaplingV4 tx1 = isSaplingV4 tx" "isSaplingV4 tx3 = isSaplingV4 tx" "isOverwinterV3 tx3 = isOverwinterV3 tx" by (simp_all add: u fmt)
  have "wf_parts tx"
    using r2(2,3) r3(3,4) r4(3,4) r5(3) assms(2) unfolding wf_parts_def hd v4 by (auto simp: u fresh_def GetHeader_def split: if_splits)
  moreover have "no_extras tx"
  proof -
    have fr: "nVersionGroupId tx0 = 0" "nExpiryHeight tx2 = 0" "valueBalance tx2 = 0" "vShieldedSpend tx2 = []" "vShieldedOutput tx2 = []"
        "vjoinsplit tx3 = []" "joinSplitPubKey tx3 = replicate 32 0" "joinSplitSig tx3 = replicate 64 0" "bindingSig tx4 = replicate 64 0"
      using assms(2) by (simp_all add: u fresh_def)
    have same: "fOverwintered tx = fOverwintered tx1" "nVersionGroupId tx = nVersionGroupId tx1" "nExpiryHeight tx = nExpiryHeight tx3"
        "valueBalance tx = valueBalance tx3" "vShieldedSpend tx = vShieldedSpend tx3" "vShieldedOutput tx = vShieldedOutput tx3"
        "nVersion tx = nVersion tx4" "vjoinsplit tx = vjoinsplit tx4" "joinSplitPubKey tx = joinSplitPubKey tx4" "joinSplitSig tx = joinSplitSig tx4"
      by (simp_all add: u)
    have "\<not> fOverwintered tx \<Longrightarrow> \<not> isOverwinterV3 tx \<and> \<not> isSaplingV4 tx" by (simp add: fmt)
    moreover have "vjoinsplit tx4 = [] \<longrightarrow> joinSplitPubKey tx4 = replicate 32 0 \<and> joinSplitSig tx4 = replicate 64 0"
      "nVersion tx4 < 2 \<longrightarrow> vjoinsplit tx4 = []"
      using r4(3,4) fr by (auto split: if_splits)
    moreover have "vShieldedSpend tx = [] \<and> vShieldedOutput tx = [] \<longrightarrow> bindingSig tx = replicate 64 0" using r5(3) fr by (auto split: if_splits)
    ultimately show ?thesis
      using r1(3) r3(4,5) fr unfolding no_extras_def v4 same by auto
  qed
  ultimately show "wf_tx tx" by (simp add: wf_tx_def)
qed

lemma tx_Unserialize_iff:
  assumes "fresh tx0"
  shows "tx_Unserialize tx0 t = Some (tx, rest) \<longleftrightarrow>
    wf_tx tx \<and> CMutableTransaction.more tx = CMutableTransaction.more tx0 \<and> (\<exists>p. tx_Serialize tx = Some p \<and> t = p @ rest)"
proof
  assume rd: "tx_Unserialize tx0 t = Some (tx, rest)"
  note r = tx_Unserialize_rd [OF rd assms]
  have "tx_Serialize tx = Some (seg_format tx @ seg_transparent tx @ seg_sapling tx @ seg_joinsplits tx @ seg_binding tx)"
    by (rule tx_Serialize_parts) (use r(1) in \<open>simp_all add: wf_tx_def wf_parts_def\<close>)
  with r show "wf_tx tx \<and> CMutableTransaction.more tx = CMutableTransaction.more tx0 \<and> (\<exists>p. tx_Serialize tx = Some p \<and> t = p @ rest)"
    by simp
qed (auto intro: tx_Unserialize_seg [OF _ assms])

lemma format_txid [simp]: "isOverwinterV3 (tx\<lparr>txid := h\<rparr>) = isOverwinterV3 tx" "isSaplingV4 (tx\<lparr>txid := h\<rparr>) = isSaplingV4 tx"
  "GetHeader (tx\<lparr>txid := h\<rparr>) = GetHeader tx"
  by (simp_all add: isOverwinterV3_def isSaplingV4_def GetHeader_def)

lemma tx_Serialize_txid [simp]: "tx_Serialize (tx\<lparr>txid := h\<rparr>) = tx_Serialize tx"
  by (simp only: tx_Serialize_def format_txid) simp

lemma wf_tx_txid [simp]: "wf_tx (tx\<lparr>txid := h\<rparr>) = wf_tx tx"
  by (simp add: wf_tx_def known_format_def wf_parts_def no_extras_def)

lemma SerializeHash_spec: "SerializeHash d = Some (double_sha256 d)"
  by (simp add: SerializeHash_def CHash256_Write_def CHash256_Finalize_fed [OF fed_first])

lemma fresh_init: "fresh CMutableTransaction_init" "fresh CTransaction_init"
  by (simp_all add: fresh_def CMutableTransaction_init_def CTransaction_init_def CMutableTransaction.defs)

lemma CTransaction_Unserialize_iff:
  "CTransaction_Unserialize CTransaction_init t = Some (tx, rest) \<longleftrightarrow>
     wf_tx tx \<and> (\<exists>p. tx_Serialize tx = Some p \<and> t = p @ rest \<and> txid tx = double_sha256 p)"
proof
  assume "CTransaction_Unserialize CTransaction_init t = Some (tx, rest)"
  then obtain tx1 where tx1: "tx_Unserialize CTransaction_init t = Some (tx1, rest)" "UpdateHash tx1 = Some tx"
    by (auto simp: CTransaction_Unserialize_def split: bind_splits)
  from tx1(1) have "wf_tx tx1" "\<exists>p. tx_Serialize tx1 = Some p \<and> t = p @ rest"
    by (auto simp: tx_Unserialize_iff [OF fresh_init(2)])
  with tx1(2) show "wf_tx tx \<and> (\<exists>p. tx_Serialize tx = Some p \<and> t = p @ rest \<and> txid tx = double_sha256 p)"
    by (auto simp: UpdateHash_def CMutableTransaction_GetHash_def SerializeHash_spec)
next
  assume "wf_tx tx \<and> (\<exists>p. tx_Serialize tx = Some p \<and> t = p @ rest \<and> txid tx = double_sha256 p)"
  then obtain p where p: "wf_tx tx" "tx_Serialize tx = Some p" "t = p @ rest" "txid tx = double_sha256 p" by blast
  define tx1 where "tx1 = tx\<lparr>txid := replicate 32 0\<rparr>"
  have tx: "tx = tx1\<lparr>txid := double_sha256 p\<rparr>" by (simp add: tx1_def p(4) [symmetric])
  have more1: "CMutableTransaction.more tx1 = CMutableTransaction.more CTransaction_init"
    by (cases tx) (simp add: tx1_def CTransaction_init_def CMutableTransaction.defs)
  have "tx_Unserialize CTransaction_init t = Some (tx1, rest)"
    unfolding tx_Unserialize_iff [OF fresh_init(2)] using p more1 by (simp add: tx1_def)
  then show "CTransaction_Unserialize CTransaction_init t = Some (tx, rest)"
    using p(2) by (simp add: CTransaction_Unserialize_def UpdateHash_def CMutableTransaction_GetHash_def SerializeHash_spec tx)
qed

text \<open>
  C25: reading a transaction into a new object succeeds exactly on the serializations of well-formed transactions, gives
  the transaction that was written and leaves the rest of the stream; the hash it stores is the double SHA-256 of the
  bytes read. So no two byte strings are read as the same transaction.
\<close>

theorem transaction_roundtrip:
  "CTransaction_Unserialize CTransaction_init t = Some (tx, rest) \<longleftrightarrow>
     wf_tx tx \<and> (\<exists>p. tx_Serialize tx = Some p \<and> t = p @ rest \<and> txid tx = double_sha256 p)"
  by (rule CTransaction_Unserialize_iff)

section \<open>Values\<close>

lemma to_int64_wraps:
  assumes "is_int64 a" "0 \<le> a" "is_int64 b" "0 \<le> b"
  shows "0 \<le> to_int64 (a + b) \<longleftrightarrow> a + b < 2 ^ 63" and "0 \<le> to_int64 (a + b) \<Longrightarrow> to_int64 (a + b) = a + b"
proof -
  have b: "a < 2 ^ 63" "b < 2 ^ 63" using assms by (simp_all add: is_int64_def)
  show "0 \<le> to_int64 (a + b) \<longleftrightarrow> a + b < 2 ^ 63"
  proof (cases "a + b < 2 ^ 63")
    case True
    then show ?thesis using assms by simp
  next
    case False
    have "(a + b - 2 ^ 63) mod 2 ^ 64 = a + b - 2 ^ 63" by (rule mod_pos_pos_trivial) (use False b in simp_all)
    moreover have "a + b + 2 ^ 63 = a + b - 2 ^ 63 + 2 ^ 64" by simp
    ultimately have "to_int64 (a + b) = a + b - 2 ^ 63 - 2 ^ 63" unfolding to_int64_def by (simp only: mod_add_self2)
    then show ?thesis using False b by simp
  qed
  then show "0 \<le> to_int64 (a + b) \<Longrightarrow> to_int64 (a + b) = a + b" using assms by simp
qed

lemma add_in_range_eq:
  assumes "M < 2 ^ 63" and "MoneyRange M acc" and "list_all is_int64 vs"
  shows "add_in_range M acc vs = (if list_all (MoneyRange M) vs \<and> acc + sum_list vs \<le> M then Some (acc + sum_list vs) else None)"
  using assms(2,3)
proof (induction vs arbitrary: acc)
  case (Cons v vs)
  have i: "is_int64 acc" "0 \<le> acc" "is_int64 v" "acc \<le> M" using Cons.prems assms(1) by (auto simp: MoneyRange_def is_int64_def)
  show ?case
  proof (cases "MoneyRange M v")
    case True
    then have v: "0 \<le> v" "v \<le> M" by (simp_all add: MoneyRange_def)
    have pos: "0 \<le> sum_list vs" if "list_all (MoneyRange M) vs"
      by (rule sum_list_nonneg) (use that in \<open>auto simp: list_all_iff MoneyRange_def\<close>)
    show ?thesis
    proof (cases "acc + v \<le> M")
      case le: True
      have e: "to_int64 (acc + v) = acc + v" by (rule to_int64_id) (use le i v assms(1) in simp_all)
      then have "MoneyRange M (acc + v)" using le i v by (simp add: MoneyRange_def)
      then show ?thesis using Cons.IH [of "acc + v"] Cons.prems True e by (simp add: add.assoc)
    next
      case False
      then have "\<not> MoneyRange M (to_int64 (acc + v))"
        using to_int64_wraps(2) [OF i(1-3) v(1)] by (auto simp: MoneyRange_def)
      moreover have "\<not> (list_all (MoneyRange M) vs \<and> acc + (v + sum_list vs) \<le> M)" using False pos by linarith
      ultimately show ?thesis by (auto simp: Let_def)
    qed
  qed simp
qed (simp add: MoneyRange_def)

text \<open>
  C30: \<^verbatim>\<open>GetValueOut\<close> returns the exact sum of the outputs, of what a negative Sapling balance takes and of what the
  join-splits take, and throws exactly when one of these or their sum is out of the range of money. The additions come
  before the checks, but a sum that wraps around in 64 bits never passes them.
\<close>

theorem GetValueOut_exact:
  assumes "wf_tx tx" and "0 \<le> max_money" and "max_money < 2 ^ 63"
  defines "terms \<equiv> map nValue (vout tx) @ (if valueBalance tx \<le> 0 then [- valueBalance tx] else []) @ map vpub_old (vjoinsplit tx)"
  shows "GetValueOut max_money tx =
    (if list_all (MoneyRange max_money) terms \<and> sum_list terms \<le> max_money then Some (sum_list terms) else None)"
proof -
  have i: "list_all is_int64 (map nValue (vout tx))" "list_all is_int64 (map vpub_old (vjoinsplit tx))" "is_int64 (valueBalance tx)"
    using assms(1) by (auto simp: wf_tx_def wf_parts_def wf_CTxOut_def wf_JSDescription_def list_all_iff)
  have app: "add_in_range max_money acc (as @ bs) = add_in_range max_money acc as \<bind> (\<lambda>v. add_in_range max_money v bs)" for acc as bs
    by (induction as arbitrary: acc) (auto simp: Let_def)
  have z: "MoneyRange max_money 0" using assms(2) by (simp add: MoneyRange_def)
  have neg: "to_int64 (- valueBalance tx) = - valueBalance tx \<or> valueBalance tx = - (2 ^ 63)"
    using i(3) by (cases "valueBalance tx = - (2 ^ 63)") (auto simp: is_int64_def)
  show ?thesis
  proof (cases "valueBalance tx = - (2 ^ 63)")
    case True
    have "to_int64 (2 ^ 63) = - (2 ^ 63)" by (simp add: to_int64_def)
    then show ?thesis using True assms(3) by (auto simp: GetValueOut_def terms_def MoneyRange_def Let_def split: bind_splits)
  next
    case False
    then have n: "to_int64 (- valueBalance tx) = - valueBalance tx" using neg by simp
    have "GetValueOut max_money tx = add_in_range max_money 0 terms"
      by (simp add: GetValueOut_def terms_def app n)
    moreover have "list_all is_int64 terms" using i False by (auto simp: terms_def is_int64_def)
    ultimately show ?thesis using add_in_range_eq [OF assms(3) z] by simp
  qed
qed

definition two_outputs :: CMutableTransaction where
  "two_outputs = CMutableTransaction_init\<lparr>vout := [\<lparr>nValue = 40, txout_script = [0x51]\<rparr>, \<lparr>nValue = 2, txout_script = []\<rparr>]\<rparr>"

lemma wf_two_outputs: "wf_tx two_outputs"
  by (simp add: two_outputs_def CMutableTransaction_init_def wf_tx_def known_format_def wf_parts_def no_extras_def
      wf_CTxOut_def is_int64_def MAX_SIZE_def isOverwinterV3_def isSaplingV4_def)

theorem GetValueOut_exact_witness: "GetValueOut 100 two_outputs = Some 42 \<and> GetValueOut 41 two_outputs = None"
  using GetValueOut_exact [OF wf_two_outputs, of 100] GetValueOut_exact [OF wf_two_outputs, of 41]
  by (simp add: two_outputs_def CMutableTransaction_init_def MoneyRange_def)

section \<open>Moving a transaction\<close>

lemma move_serialize:
  assumes "wf_tx tx" and "CTransaction_move tx = Some tx'"
  shows "bindingSig tx' = replicate 64 0" and "tx_Serialize tx' = tx_Serialize (tx\<lparr>bindingSig := replicate 64 0\<rparr>)"
proof -
  let ?m = "tx\<lparr>bindingSig := replicate 64 0\<rparr>"
  obtain h where tx': "tx' = CMutableTransaction.extend ?m \<lparr>txid = h\<rparr>"
    using assms(2) by (cases tx) (auto simp: CTransaction_move_def UpdateHash_def CMutableTransaction.defs)
  then show "bindingSig tx' = replicate 64 0" by (simp add: CMutableTransaction.defs)
  have "isOverwinterV3 tx' = isOverwinterV3 ?m" "isSaplingV4 tx' = isSaplingV4 ?m" "GetHeader tx' = GetHeader ?m"
    by (simp_all add: tx' CMutableTransaction.defs isOverwinterV3_def isSaplingV4_def GetHeader_def)
  then show "tx_Serialize tx' = tx_Serialize ?m"
    by (simp only: tx_Serialize_def) (simp add: tx' CMutableTransaction.defs)
qed

lemma wf_rebind: "wf_tx tx \<Longrightarrow> wf_tx (tx\<lparr>bindingSig := replicate 64 0\<rparr>)"
  by (simp add: wf_tx_def known_format_def wf_parts_def no_extras_def isOverwinterV3_def isSaplingV4_def GetHeader_def)

text \<open>
  C31: the constructor that moves a mutable transaction forgets its binding signature, so a transaction with shielded
  spends or outputs that is read by \<^verbatim>\<open>CTransaction(deserialize, s)\<close> does not serialize to the bytes it was read from,
  unless its binding signature is zero.
\<close>

theorem deserialize_drops_binding_sig:
  assumes "CTransaction_deserialize CMutableTransaction_init t = Some (tx, rest)"
  shows "\<exists>p q orig. t = p @ rest \<and> tx_Unserialize CMutableTransaction_init t = Some (orig, rest) \<and> tx_Serialize orig = Some p \<and>
    tx_Serialize tx = Some q \<and> (p = q \<longleftrightarrow> bindingSig orig = replicate 64 0)"
proof -
  from assms obtain orig where o: "tx_Unserialize CMutableTransaction_init t = Some (orig, rest)" "CTransaction_move orig = Some tx"
    by (auto simp: CTransaction_deserialize_def split: bind_splits)
  from o(1) obtain p where p: "wf_tx orig" "tx_Serialize orig = Some p" "t = p @ rest"
    by (auto simp: tx_Unserialize_iff [OF fresh_init(1)])
  let ?m = "orig\<lparr>bindingSig := replicate 64 0\<rparr>"
  have q: "tx_Serialize tx = tx_Serialize ?m" by (rule move_serialize [OF p(1) o(2)])
  have wm: "wf_tx ?m" using p(1) by (rule wf_rebind)
  then obtain q where qm: "tx_Serialize ?m = Some q" using tx_Serialize_parts [of ?m] by (auto simp: wf_tx_def wf_parts_def)
  have "p = q \<longleftrightarrow> orig = ?m"
  proof
    assume "p = q"
    then show "orig = ?m"
      using tx_Unserialize_seg [OF p(1) fresh_init(1) _ p(2), of "[]"] tx_Unserialize_seg [OF wm fresh_init(1) _ qm, of "[]"] by simp
  qed (use p(2) qm in auto)
  moreover have "orig = ?m \<longleftrightarrow> bindingSig orig = replicate 64 0" by (cases orig) simp
  ultimately show ?thesis using o(1) p q qm by auto
qed

definition shielded_tx :: CMutableTransaction where
  "shielded_tx = CMutableTransaction_init\<lparr>fOverwintered := True, nVersion := 4, nVersionGroupId := SAPLING_VERSION_GROUP_ID,
     vShieldedSpend := [\<lparr>sp_cv = replicate 32 0, sp_anchor = replicate 32 0, sp_nullifier = replicate 32 0, rk = replicate 32 0,
       sp_zkproof = replicate 192 0, spendAuthSig = replicate 64 0\<rparr>], bindingSig := replicate 64 1\<rparr>"

lemma wf_shielded_tx: "wf_tx shielded_tx"
  by (simp add: shielded_tx_def CMutableTransaction_init_def wf_tx_def known_format_def wf_parts_def no_extras_def
      wf_SpendDescription_def MAX_SIZE_def GROTH_PROOF_SIZE_def isOverwinterV3_def isSaplingV4_def SAPLING_TX_VERSION_def)

theorem deserialize_drops_binding_sig_witness:
  "\<exists>p tx. tx_Serialize shielded_tx = Some p \<and> CTransaction_deserialize CMutableTransaction_init p = Some (tx, []) \<and> tx_Serialize tx \<noteq> Some p"
proof -
  obtain p where p: "tx_Serialize shielded_tx = Some p"
    using tx_Serialize_parts [of shielded_tx] wf_shielded_tx by (auto simp: wf_tx_def wf_parts_def)
  have rd: "tx_Unserialize CMutableTransaction_init p = Some (shielded_tx, [])"
    using tx_Unserialize_seg [OF wf_shielded_tx fresh_init(1) _ p, of "[]"] by simp
  have "\<exists>tx. CTransaction_move shielded_tx = Some tx"
  proof -
    have "\<exists>q. tx_Serialize (CMutableTransaction.extend (shielded_tx\<lparr>bindingSig := replicate 64 0\<rparr>) \<lparr>txid = replicate 32 0\<rparr>) = Some q"
      by (simp add: tx_Serialize_def shielded_tx_def CMutableTransaction_init_def CMutableTransaction.defs isSaplingV4_def
          SAPLING_TX_VERSION_def JoinSplits_Serialize_def)
    then show ?thesis by (auto simp: CTransaction_move_def UpdateHash_def CMutableTransaction_GetHash_def SerializeHash_spec)
  qed
  then obtain tx where d: "CTransaction_deserialize CMutableTransaction_init p = Some (tx, [])"
    using rd by (auto simp: CTransaction_deserialize_def)
  have "bindingSig shielded_tx \<noteq> replicate 64 0" by (simp add: shielded_tx_def replicate_eq_replicate)
  then have "tx_Serialize tx \<noteq> Some p" using deserialize_drops_binding_sig [OF d] rd p by auto
  then show ?thesis using p d by blast
qed

end
