(* ===== verification/Interpreter.thy ===== *)
theory Interpreter
  imports Script
begin

text \<open>
  \<^verbatim>\<open>src/src/script/interpreter.cpp\<close>: the script machine. The stacks are lists with the top first, so that \<^verbatim>\<open>stacktop(-i)\<close> is the
  element \<open>i - 1\<close>, and so is \<^verbatim>\<open>vfExec\<close>. The signature checker is a record of its virtual functions. A step ends
  in a new machine or in a \<^typ>\<open>fault\<close>; the stack that a failed evaluation leaves behind is not looked at by its
  caller and is not kept.
\<close>

section \<open>Flags and checkers\<close>

definition SIGHASH_ALL :: nat where "SIGHASH_ALL = 1"
definition SIGHASH_NONE :: nat where "SIGHASH_NONE = 2"
definition SIGHASH_SINGLE :: nat where "SIGHASH_SINGLE = 3"
definition SIGHASH_ANYONECANPAY :: nat where "SIGHASH_ANYONECANPAY = 0x80"

definition SCRIPT_VERIFY_P2SH :: u32 where "SCRIPT_VERIFY_P2SH = 1"
definition SCRIPT_VERIFY_STRICTENC :: u32 where "SCRIPT_VERIFY_STRICTENC = 2"
definition SCRIPT_VERIFY_LOW_S :: u32 where "SCRIPT_VERIFY_LOW_S = 8"
definition SCRIPT_VERIFY_NULLDUMMY :: u32 where "SCRIPT_VERIFY_NULLDUMMY = 16"
definition SCRIPT_VERIFY_SIGPUSHONLY :: u32 where "SCRIPT_VERIFY_SIGPUSHONLY = 32"
definition SCRIPT_VERIFY_MINIMALDATA :: u32 where "SCRIPT_VERIFY_MINIMALDATA = 64"
definition SCRIPT_VERIFY_DISCOURAGE_UPGRADABLE_NOPS :: u32 where "SCRIPT_VERIFY_DISCOURAGE_UPGRADABLE_NOPS = 128"
definition SCRIPT_VERIFY_CLEANSTACK :: u32 where "SCRIPT_VERIFY_CLEANSTACK = 256"
definition SCRIPT_VERIFY_CHECKLOCKTIMEVERIFY :: u32 where "SCRIPT_VERIFY_CHECKLOCKTIMEVERIFY = 512"

text \<open>\<^verbatim>\<open>BaseSignatureChecker\<close>.\<close>

record sig_checker =
  chkSig :: "bytes \<Rightarrow> bytes \<Rightarrow> script \<Rightarrow> u32 \<Rightarrow> bool"
  chkLockTime :: "int \<Rightarrow> bool"
  chkCryptoCondition :: "bytes \<Rightarrow> bytes \<Rightarrow> script \<Rightarrow> u32 \<Rightarrow> int"

text \<open>
  What the functions of the interpreter are called with. \<open>lowS\<close> is \<^verbatim>\<open>CPubKey::CheckLowS\<close>, which asks the
  elliptic-curve library, and \<open>ccEnabled\<close> is \<^verbatim>\<open>IsCryptoConditionsEnabled\<close>, which asks for the chain's parameters.
\<close>

record script_ctx =
  vflags :: u32
  checker :: sig_checker
  branchId :: u32
  lowS :: "bytes \<Rightarrow> bool"
  ccEnabled :: bool

definition has_flag :: "script_ctx \<Rightarrow> u32 \<Rightarrow> bool" where
  "has_flag ctx flag \<longleftrightarrow> vflags ctx AND flag \<noteq> 0"

section \<open>Encodings\<close>

fun CastToBool :: "bytes \<Rightarrow> bool" where
  "CastToBool [] = False"
| "CastToBool (b # bs) = (if b \<noteq> 0 then \<not> (bs = [] \<and> b = 0x80) else CastToBool bs)"

definition IsCompressedOrUncompressedPubKey :: "bytes \<Rightarrow> bool" where
  "IsCompressedOrUncompressedPubKey vchPubKey =
     (if length vchPubKey < 33 then False
      else if vchPubKey ! 0 = 0x04 then length vchPubKey = 65
      else if vchPubKey ! 0 = 0x02 \<or> vchPubKey ! 0 = 0x03 then length vchPubKey = 33
      else False)"

definition IsValidSignatureEncoding :: "bytes \<Rightarrow> bool" where
  "IsValidSignatureEncoding sig =
     (if length sig < 9 then False
      else if 73 < length sig then False
      else if sig ! 0 \<noteq> 0x30 then False
      else if unat (sig ! 1) \<noteq> length sig - 3 then False
      else let lenR = unat (sig ! 3)
           in if length sig \<le> 5 + lenR then False
              else let lenS = unat (sig ! (5 + lenR))
                   in if lenR + lenS + 7 \<noteq> length sig then False
                      else if sig ! 2 \<noteq> 0x02 then False
                      else if lenR = 0 then False
                      else if sig ! 4 AND 0x80 \<noteq> 0 then False
                      else if 1 < lenR \<and> sig ! 4 = 0x00 \<and> \<not> (sig ! 5 AND 0x80 \<noteq> 0) then False
                      else if sig ! (lenR + 4) \<noteq> 0x02 then False
                      else if lenS = 0 then False
                      else if sig ! (lenR + 6) AND 0x80 \<noteq> 0 then False
                      else if 1 < lenS \<and> sig ! (lenR + 6) = 0x00 \<and> \<not> (sig ! (lenR + 7) AND 0x80 \<noteq> 0) then False
                      else True)"

text \<open>
  \<^verbatim>\<open>IsLowDERSignature\<close> leaves \<^verbatim>\<open>serror\<close> as it was when \<^verbatim>\<open>CheckLowS\<close> fails. Inside \<^verbatim>\<open>EvalScript\<close> that is
  \<^verbatim>\<open>SCRIPT_ERR_UNKNOWN_ERROR\<close>.
\<close>

definition IsLowDERSignature :: "script_ctx \<Rightarrow> bytes \<Rightarrow> fault + unit" where
  "IsLowDERSignature ctx vchSig =
     (if \<not> IsValidSignatureEncoding vchSig then Inl (ScriptErr SCRIPT_ERR_SIG_DER)
      else if lowS ctx (butlast vchSig) then Inr () else Inl (ScriptErr SCRIPT_ERR_UNKNOWN_ERROR))"

definition IsDefinedHashtypeSignature :: "bytes \<Rightarrow> bool" where
  "IsDefinedHashtypeSignature vchSig =
     (if length vchSig = 0 then False
      else let nHashType = unat (last vchSig AND NOT (word_of_nat SIGHASH_ANYONECANPAY))
           in \<not> (nHashType < SIGHASH_ALL \<or> SIGHASH_SINGLE < nHashType))"

definition CheckSignatureEncoding :: "script_ctx \<Rightarrow> bytes \<Rightarrow> fault + unit" where
  "CheckSignatureEncoding ctx vchSig =
     (if length vchSig = 0 then Inr ()
      else if \<not> IsValidSignatureEncoding vchSig then Inl (ScriptErr SCRIPT_ERR_SIG_DER)
      else bindE (if has_flag ctx SCRIPT_VERIFY_LOW_S then IsLowDERSignature ctx vchSig else Inr ()) (\<lambda>_.
           if has_flag ctx SCRIPT_VERIFY_STRICTENC \<and> \<not> IsDefinedHashtypeSignature vchSig
           then Inl (ScriptErr SCRIPT_ERR_SIG_HASHTYPE) else Inr ()))"

definition CheckPubKeyEncoding :: "script_ctx \<Rightarrow> bytes \<Rightarrow> fault + unit" where
  "CheckPubKeyEncoding ctx vchPubKey =
     (if has_flag ctx SCRIPT_VERIFY_STRICTENC \<and> \<not> IsCompressedOrUncompressedPubKey vchPubKey
      then Inl (ScriptErr SCRIPT_ERR_PUBKEYTYPE) else Inr ())"

definition CheckMinimalPush :: "bytes \<Rightarrow> opcodetype \<Rightarrow> bool" where
  "CheckMinimalPush data opcode =
     (if length data = 0 then opcode = OP_0
      else if length data = 1 \<and> 1 \<le> data ! 0 \<and> data ! 0 \<le> 16 then opcode = OP_1 + (unat (data ! 0) - 1)
      else if length data = 1 \<and> data ! 0 = 0x81 then opcode = OP_1NEGATE
      else if length data \<le> 75 then opcode = length data
      else if length data \<le> 255 then opcode = OP_PUSHDATA1
      else if length data \<le> 65535 then opcode = OP_PUSHDATA2
      else True)"

section \<open>The machine\<close>

record vm =
  stk :: "bytes list"
  altstk :: "bytes list"
  vfExec :: "bool list"
  nOpCount :: int

type_synonym 'a result = "fault + 'a"

definition vchTrue :: bytes where "vchTrue = [1]"
definition vchFalse :: bytes where "vchFalse = []"

definition bool_vch :: "bool \<Rightarrow> bytes" where
  "bool_vch b = (if b then vchTrue else vchFalse)"

abbreviation bad_stack :: "fault + 'a" where
  "bad_stack \<equiv> Inl (ScriptErr SCRIPT_ERR_INVALID_STACK_OPERATION)"

abbreviation fail :: "ScriptError \<Rightarrow> fault + 'a" where
  "fail e \<equiv> Inl (ScriptErr e)"

definition fRequireMinimal :: "script_ctx \<Rightarrow> bool" where
  "fRequireMinimal ctx = has_flag ctx SCRIPT_VERIFY_MINIMALDATA"

text \<open>A numeric operand.\<close>

definition num :: "script_ctx \<Rightarrow> bytes \<Rightarrow> int result" where
  "num ctx v = CScriptNum v (fRequireMinimal ctx) nDefaultMaxNumSize"

text \<open>Applying a function to the main stack only.\<close>

definition on_stack :: "(bytes list \<Rightarrow> bytes list result) \<Rightarrow> vm \<Rightarrow> vm result" where
  "on_stack f m = bindE (f (stk m)) (\<lambda>s'. Inr (m\<lparr>stk := s'\<rparr>))"

section \<open>Control\<close>

definition op_push_value :: "opcodetype \<Rightarrow> bytes list \<Rightarrow> bytes list result" where
  "op_push_value opcode st = Inr (serialize (int opcode - (int OP_1 - 1)) # st)"

definition op_cltv :: "script_ctx \<Rightarrow> bytes list \<Rightarrow> bytes list result" where
  "op_cltv ctx st =
     (if \<not> has_flag ctx SCRIPT_VERIFY_CHECKLOCKTIMEVERIFY
      then if has_flag ctx SCRIPT_VERIFY_DISCOURAGE_UPGRADABLE_NOPS
           then fail SCRIPT_ERR_DISCOURAGE_UPGRADABLE_NOPS else Inr st
      else case st of
             [] \<Rightarrow> bad_stack
           | vtop # _ \<Rightarrow>
               bindE (CScriptNum vtop (fRequireMinimal ctx) 5) (\<lambda>nLockTime.
               if nLockTime < 0 then fail SCRIPT_ERR_NEGATIVE_LOCKTIME
               else if \<not> chkLockTime (checker ctx) nLockTime then fail SCRIPT_ERR_UNSATISFIED_LOCKTIME
               else Inr st))"

definition op_nopx :: "script_ctx \<Rightarrow> bytes list \<Rightarrow> bytes list result" where
  "op_nopx ctx st =
     (if has_flag ctx SCRIPT_VERIFY_DISCOURAGE_UPGRADABLE_NOPS
      then fail SCRIPT_ERR_DISCOURAGE_UPGRADABLE_NOPS else Inr st)"

definition op_if :: "opcodetype \<Rightarrow> bool \<Rightarrow> vm \<Rightarrow> vm result" where
  "op_if opcode fExec m =
     (if fExec
      then case stk m of
             [] \<Rightarrow> fail SCRIPT_ERR_UNBALANCED_CONDITIONAL
           | vch # rest \<Rightarrow>
               let fValue = (if opcode = OP_NOTIF then \<not> CastToBool vch else CastToBool vch)
               in Inr (m\<lparr>stk := rest, vfExec := fValue # vfExec m\<rparr>)
      else Inr (m\<lparr>vfExec := False # vfExec m\<rparr>))"

definition op_else :: "vm \<Rightarrow> vm result" where
  "op_else m = (case vfExec m of
                  [] \<Rightarrow> fail SCRIPT_ERR_UNBALANCED_CONDITIONAL
                | e # es \<Rightarrow> Inr (m\<lparr>vfExec := (\<not> e) # es\<rparr>))"

definition op_endif :: "vm \<Rightarrow> vm result" where
  "op_endif m = (case vfExec m of
                   [] \<Rightarrow> fail SCRIPT_ERR_UNBALANCED_CONDITIONAL
                 | e # es \<Rightarrow> Inr (m\<lparr>vfExec := es\<rparr>))"

definition op_verify :: "bytes list \<Rightarrow> bytes list result" where
  "op_verify st = (case st of
                     [] \<Rightarrow> bad_stack
                   | vtop # rest \<Rightarrow> if CastToBool vtop then Inr rest else fail SCRIPT_ERR_VERIFY)"

section \<open>Stack operations\<close>

definition op_toaltstack :: "vm \<Rightarrow> vm result" where
  "op_toaltstack m = (case stk m of
                        [] \<Rightarrow> bad_stack
                      | x # rest \<Rightarrow> Inr (m\<lparr>stk := rest, altstk := x # altstk m\<rparr>))"

definition op_fromaltstack :: "vm \<Rightarrow> vm result" where
  "op_fromaltstack m = (case altstk m of
                          [] \<Rightarrow> fail SCRIPT_ERR_INVALID_ALTSTACK_OPERATION
                        | x # rest \<Rightarrow> Inr (m\<lparr>stk := x # stk m, altstk := rest\<rparr>))"

definition op_2drop :: "bytes list \<Rightarrow> bytes list result" where
  "op_2drop st = (case st of x2 # x1 # r \<Rightarrow> Inr r | _ \<Rightarrow> bad_stack)"

definition op_2dup :: "bytes list \<Rightarrow> bytes list result" where
  "op_2dup st = (case st of x2 # x1 # r \<Rightarrow> Inr (x2 # x1 # x2 # x1 # r) | _ \<Rightarrow> bad_stack)"

definition op_3dup :: "bytes list \<Rightarrow> bytes list result" where
  "op_3dup st = (case st of x3 # x2 # x1 # r \<Rightarrow> Inr (x3 # x2 # x1 # x3 # x2 # x1 # r) | _ \<Rightarrow> bad_stack)"

definition op_2over :: "bytes list \<Rightarrow> bytes list result" where
  "op_2over st = (case st of x4 # x3 # x2 # x1 # r \<Rightarrow> Inr (x2 # x1 # x4 # x3 # x2 # x1 # r) | _ \<Rightarrow> bad_stack)"

definition op_2rot :: "bytes list \<Rightarrow> bytes list result" where
  "op_2rot st = (case st of x6 # x5 # x4 # x3 # x2 # x1 # r \<Rightarrow> Inr (x2 # x1 # x6 # x5 # x4 # x3 # r) | _ \<Rightarrow> bad_stack)"

definition op_2swap :: "bytes list \<Rightarrow> bytes list result" where
  "op_2swap st = (case st of x4 # x3 # x2 # x1 # r \<Rightarrow> Inr (x2 # x1 # x4 # x3 # r) | _ \<Rightarrow> bad_stack)"

definition op_ifdup :: "bytes list \<Rightarrow> bytes list result" where
  "op_ifdup st = (case st of x # r \<Rightarrow> Inr (if CastToBool x then x # x # r else x # r) | _ \<Rightarrow> bad_stack)"

definition op_depth :: "bytes list \<Rightarrow> bytes list result" where
  "op_depth st = Inr (serialize (int (length st)) # st)"

definition op_drop :: "bytes list \<Rightarrow> bytes list result" where
  "op_drop st = (case st of x # r \<Rightarrow> Inr r | _ \<Rightarrow> bad_stack)"

definition op_dup :: "bytes list \<Rightarrow> bytes list result" where
  "op_dup st = (case st of x # r \<Rightarrow> Inr (x # x # r) | _ \<Rightarrow> bad_stack)"

definition op_nip :: "bytes list \<Rightarrow> bytes list result" where
  "op_nip st = (case st of x2 # x1 # r \<Rightarrow> Inr (x2 # r) | _ \<Rightarrow> bad_stack)"

definition op_over :: "bytes list \<Rightarrow> bytes list result" where
  "op_over st = (case st of x2 # x1 # r \<Rightarrow> Inr (x1 # x2 # x1 # r) | _ \<Rightarrow> bad_stack)"

definition op_pick_roll :: "script_ctx \<Rightarrow> opcodetype \<Rightarrow> bytes list \<Rightarrow> bytes list result" where
  "op_pick_roll ctx opcode st =
     (case st of
        vtop # x # xs \<Rightarrow>
          let r = x # xs
          in bindE (num ctx vtop) (\<lambda>bn.
             let n = getint bn
             in if n < 0 \<or> int (length r) \<le> n then bad_stack
                else let vch = r ! nat n
                     in Inr (vch # (if opcode = OP_ROLL then take (nat n) r @ drop (nat n + 1) r else r)))
      | _ \<Rightarrow> bad_stack)"

definition op_rot :: "bytes list \<Rightarrow> bytes list result" where
  "op_rot st = (case st of x3 # x2 # x1 # r \<Rightarrow> Inr (x1 # x3 # x2 # r) | _ \<Rightarrow> bad_stack)"

definition op_swap :: "bytes list \<Rightarrow> bytes list result" where
  "op_swap st = (case st of x2 # x1 # r \<Rightarrow> Inr (x1 # x2 # r) | _ \<Rightarrow> bad_stack)"

definition op_tuck :: "bytes list \<Rightarrow> bytes list result" where
  "op_tuck st = (case st of x2 # x1 # r \<Rightarrow> Inr (x2 # x1 # x2 # r) | _ \<Rightarrow> bad_stack)"

definition op_size :: "bytes list \<Rightarrow> bytes list result" where
  "op_size st = (case st of x # r \<Rightarrow> Inr (serialize (int (length x)) # x # r) | _ \<Rightarrow> bad_stack)"

section \<open>Comparison and arithmetic\<close>

definition op_equal :: "opcodetype \<Rightarrow> bytes list \<Rightarrow> bytes list result" where
  "op_equal opcode st =
     (case st of
        x2 # x1 # r \<Rightarrow>
          let fEqual = (x1 = x2)
          in if opcode = OP_EQUALVERIFY
             then if fEqual then Inr r else fail SCRIPT_ERR_EQUALVERIFY
             else Inr (bool_vch fEqual # r)
      | _ \<Rightarrow> bad_stack)"

definition unary_num :: "opcodetype \<Rightarrow> int \<Rightarrow> int result" where
  "unary_num opcode bn =
     (if opcode = OP_1ADD then num_add_assign bn 1
      else if opcode = OP_1SUB then num_sub_assign bn 1
      else if opcode = OP_NEGATE then num_neg bn
      else if opcode = OP_ABS then (if bn < 0 then num_neg bn else Inr bn)
      else if opcode = OP_NOT then Inr (of_bool (bn = 0))
      else if opcode = OP_0NOTEQUAL then Inr (of_bool (bn \<noteq> 0))
      else Inl Aborted)"

definition op_unary :: "script_ctx \<Rightarrow> opcodetype \<Rightarrow> bytes list \<Rightarrow> bytes list result" where
  "op_unary ctx opcode st =
     (case st of
        x # r \<Rightarrow> bindE (num ctx x) (\<lambda>bn. bindE (unary_num opcode bn) (\<lambda>bn'. Inr (serialize bn' # r)))
      | _ \<Rightarrow> bad_stack)"

definition binary_num :: "opcodetype \<Rightarrow> int \<Rightarrow> int \<Rightarrow> int result" where
  "binary_num opcode bn1 bn2 =
     (if opcode = OP_ADD then Inr (num_add bn1 bn2)
      else if opcode = OP_SUB then Inr (num_sub bn1 bn2)
      else if opcode = OP_BOOLAND then Inr (of_bool (bn1 \<noteq> 0 \<and> bn2 \<noteq> 0))
      else if opcode = OP_BOOLOR then Inr (of_bool (bn1 \<noteq> 0 \<or> bn2 \<noteq> 0))
      else if opcode = OP_NUMEQUAL then Inr (of_bool (bn1 = bn2))
      else if opcode = OP_NUMEQUALVERIFY then Inr (of_bool (bn1 = bn2))
      else if opcode = OP_NUMNOTEQUAL then Inr (of_bool (bn1 \<noteq> bn2))
      else if opcode = OP_LESSTHAN then Inr (of_bool (bn1 < bn2))
      else if opcode = OP_GREATERTHAN then Inr (of_bool (bn2 < bn1))
      else if opcode = OP_LESSTHANOREQUAL then Inr (of_bool (bn1 \<le> bn2))
      else if opcode = OP_GREATERTHANOREQUAL then Inr (of_bool (bn2 \<le> bn1))
      else if opcode = OP_MIN then Inr (if bn1 < bn2 then bn1 else bn2)
      else if opcode = OP_MAX then Inr (if bn2 < bn1 then bn1 else bn2)
      else Inl Aborted)"

definition op_binary :: "script_ctx \<Rightarrow> opcodetype \<Rightarrow> bytes list \<Rightarrow> bytes list result" where
  "op_binary ctx opcode st =
     (case st of
        x2 # x1 # r \<Rightarrow>
          bindE (num ctx x1) (\<lambda>bn1. bindE (num ctx x2) (\<lambda>bn2. bindE (binary_num opcode bn1 bn2) (\<lambda>bn.
          let vch = serialize bn
          in if opcode = OP_NUMEQUALVERIFY
             then if CastToBool vch then Inr r else fail SCRIPT_ERR_NUMEQUALVERIFY
             else Inr (vch # r))))
      | _ \<Rightarrow> bad_stack)"

definition op_within :: "script_ctx \<Rightarrow> bytes list \<Rightarrow> bytes list result" where
  "op_within ctx st =
     (case st of
        x3 # x2 # x1 # r \<Rightarrow>
          bindE (num ctx x1) (\<lambda>bn1. bindE (num ctx x2) (\<lambda>bn2. bindE (num ctx x3) (\<lambda>bn3.
          Inr (bool_vch (bn2 \<le> bn1 \<and> bn1 < bn3) # r))))
      | _ \<Rightarrow> bad_stack)"

section \<open>Hashes and signatures\<close>

definition hash_op :: "opcodetype \<Rightarrow> bytes \<Rightarrow> bytes option" where
  "hash_op opcode vch =
     (if opcode = OP_RIPEMD160 then Some (CRIPEMD160_Finalize (CRIPEMD160_Write CRIPEMD160_init vch))
      else if opcode = OP_SHA1 then Some (CSHA1_Finalize (CSHA1_Write CSHA1_init vch))
      else if opcode = OP_SHA256 then CSHA256_Finalize (CSHA256_Write CSHA256_init vch)
      else if opcode = OP_HASH160 then CHash160_Finalize (CHash160_Write CSHA256_init vch)
      else if opcode = OP_HASH256 then CHash256_Finalize (CHash256_Write CSHA256_init vch)
      else Some (replicate 32 0))"

definition op_hash :: "opcodetype \<Rightarrow> bytes list \<Rightarrow> bytes list result" where
  "op_hash opcode st =
     (case st of
        vch # r \<Rightarrow> (case hash_op opcode vch of None \<Rightarrow> Inl Thrown | Some vchHash \<Rightarrow> Inr (vchHash # r))
      | _ \<Rightarrow> bad_stack)"

definition op_checksig :: "script_ctx \<Rightarrow> script \<Rightarrow> opcodetype \<Rightarrow> bytes list \<Rightarrow> bytes list result" where
  "op_checksig ctx scr opcode st =
     (case st of
        vchPubKey # vchSig # r \<Rightarrow>
          bindE (CheckSignatureEncoding ctx vchSig) (\<lambda>_.
          bindE (CheckPubKeyEncoding ctx vchPubKey) (\<lambda>_.
          let fSuccess = chkSig (checker ctx) vchSig vchPubKey scr (branchId ctx)
          in if opcode = OP_CHECKSIGVERIFY
             then if fSuccess then Inr r else fail SCRIPT_ERR_CHECKSIGVERIFY
             else Inr (bool_vch fSuccess # r)))
      | _ \<Rightarrow> bad_stack)"

text \<open>\<^verbatim>\<open>stacktop(-i)\<close>: \<^verbatim>\<open>at\<close> throws past the end.\<close>

definition stacktop :: "bytes list \<Rightarrow> nat \<Rightarrow> bytes result" where
  "stacktop st i = (if 1 \<le> i \<and> i \<le> length st then Inr (st ! (i - 1)) else Inl Thrown)"

function multisig_loop ::
  "script_ctx \<Rightarrow> script \<Rightarrow> bytes list \<Rightarrow> nat \<Rightarrow> nat \<Rightarrow> nat \<Rightarrow> nat \<Rightarrow> bool result" where
  "multisig_loop ctx scr st isig ikey nSigsCount nKeysCount =
     (if 0 < nSigsCount
      then bindE (stacktop st isig) (\<lambda>vchSig.
           bindE (stacktop st ikey) (\<lambda>vchPubKey.
           bindE (CheckSignatureEncoding ctx vchSig) (\<lambda>_.
           bindE (CheckPubKeyEncoding ctx vchPubKey) (\<lambda>_.
           let fOk = chkSig (checker ctx) vchSig vchPubKey scr (branchId ctx);
               isig' = (if fOk then isig + 1 else isig);
               nSigs' = (if fOk then nSigsCount - 1 else nSigsCount)
           in if int nKeysCount - 1 < int nSigs' then Inr False
              else multisig_loop ctx scr st isig' (ikey + 1) nSigs' (nKeysCount - 1)))))
      else Inr True)"
  by pat_completeness auto
termination
  by (relation "measure (\<lambda>(_, _, _, _, _, _, n). n)") auto

declare multisig_loop.simps [simp del]

text \<open>
  The numbers of keys and signatures on the stack, and the operation count they leave. The keys start at
  \<^verbatim>\<open>ikey = 2\<close>, the signatures at \<^verbatim>\<open>isig = nKeysCount + 3\<close>.
\<close>

definition multisig_args :: "script_ctx \<Rightarrow> vm \<Rightarrow> (nat \<times> nat \<times> int) result" where
  "multisig_args ctx m =
     (let st = stk m
      in if length st < 1 then bad_stack
         else bindE (stacktop st 1) (\<lambda>v1. bindE (num ctx v1) (\<lambda>bn1.
         let nKeysCount = getint bn1
         in if nKeysCount < 0 \<or> 20 < nKeysCount then fail SCRIPT_ERR_PUBKEY_COUNT
            else let ops = nOpCount m + nKeysCount
            in if 201 < ops then fail SCRIPT_ERR_OP_COUNT
            else let i = 2 + nat nKeysCount
            in if length st < i then bad_stack
            else bindE (stacktop st i) (\<lambda>v2. bindE (num ctx v2) (\<lambda>bn2.
            let nSigsCount = getint bn2
            in if nSigsCount < 0 \<or> nKeysCount < nSigsCount then fail SCRIPT_ERR_SIG_COUNT
               else if length st < i + 1 + nat nSigsCount then bad_stack
               else Inr (nat nKeysCount, nat nSigsCount, ops))))))"

text \<open>The end: the extra argument, and the result on what is left of the stack.\<close>

definition multisig_finish :: "script_ctx \<Rightarrow> opcodetype \<Rightarrow> bool \<Rightarrow> bytes list \<Rightarrow> bytes list result" where
  "multisig_finish ctx opcode fSuccess st =
     (case st of
        [] \<Rightarrow> bad_stack
      | dummy # r \<Rightarrow>
          if has_flag ctx SCRIPT_VERIFY_NULLDUMMY \<and> length dummy \<noteq> 0 then fail SCRIPT_ERR_SIG_NULLDUMMY
          else if opcode = OP_CHECKMULTISIGVERIFY
          then if fSuccess then Inr r else fail SCRIPT_ERR_CHECKMULTISIGVERIFY
          else Inr (bool_vch fSuccess # r))"

definition op_checkmultisig :: "script_ctx \<Rightarrow> script \<Rightarrow> opcodetype \<Rightarrow> vm \<Rightarrow> vm result" where
  "op_checkmultisig ctx scr opcode m =
     bindE (multisig_args ctx m) (\<lambda>(nKeysCount, nSigsCount, ops).
     bindE (multisig_loop ctx scr (stk m) (nKeysCount + 3) 2 nSigsCount nKeysCount) (\<lambda>fSuccess.
     bindE (multisig_finish ctx opcode fSuccess (drop (nKeysCount + nSigsCount + 2) (stk m))) (\<lambda>st'.
     Inr (m\<lparr>stk := st', nOpCount := ops\<rparr>))))"

definition op_checkcc :: "script_ctx \<Rightarrow> script \<Rightarrow> opcodetype \<Rightarrow> bytes list \<Rightarrow> bytes list result" where
  "op_checkcc ctx scr opcode st =
     (if \<not> ccEnabled ctx then fail SCRIPT_ERR_BAD_OPCODE
      else case st of
             x1 # x2 # r \<Rightarrow>
               let fResult = chkCryptoCondition (checker ctx) x1 x2 scr (branchId ctx)
               in if fResult = - 1 then fail SCRIPT_ERR_CRYPTOCONDITION_INVALID_FULFILLMENT
                  else if opcode = OP_CHECKCRYPTOCONDITIONVERIFY
                  then if fResult = 1 then Inr r else fail SCRIPT_ERR_CRYPTOCONDITION_VERIFY
                  else Inr (bool_vch (fResult = 1) # r)
           | _ \<Rightarrow> bad_stack)"

section \<open>The switch\<close>

definition op_table :: "script_ctx \<Rightarrow> script \<Rightarrow> opcodetype \<Rightarrow> (bytes list \<Rightarrow> bytes list result) option" where
  "op_table ctx scr opcode =
     (if opcode = OP_1NEGATE \<or> (OP_1 \<le> opcode \<and> opcode \<le> OP_16) then Some (op_push_value opcode)
      else if opcode = OP_NOP then Some Inr
      else if opcode = OP_CHECKLOCKTIMEVERIFY then Some (op_cltv ctx)
      else if opcode = OP_NOP1 \<or> (OP_NOP3 \<le> opcode \<and> opcode \<le> OP_NOP10) then Some (op_nopx ctx)
      else if opcode = OP_VERIFY then Some op_verify
      else if opcode = OP_RETURN then Some (\<lambda>_. fail SCRIPT_ERR_OP_RETURN)
      else if opcode = OP_2DROP then Some op_2drop
      else if opcode = OP_2DUP then Some op_2dup
      else if opcode = OP_3DUP then Some op_3dup
      else if opcode = OP_2OVER then Some op_2over
      else if opcode = OP_2ROT then Some op_2rot
      else if opcode = OP_2SWAP then Some op_2swap
      else if opcode = OP_IFDUP then Some op_ifdup
      else if opcode = OP_DEPTH then Some op_depth
      else if opcode = OP_DROP then Some op_drop
      else if opcode = OP_DUP then Some op_dup
      else if opcode = OP_NIP then Some op_nip
      else if opcode = OP_OVER then Some op_over
      else if opcode = OP_PICK \<or> opcode = OP_ROLL then Some (op_pick_roll ctx opcode)
      else if opcode = OP_ROT then Some op_rot
      else if opcode = OP_SWAP then Some op_swap
      else if opcode = OP_TUCK then Some op_tuck
      else if opcode = OP_SIZE then Some op_size
      else if opcode = OP_EQUAL \<or> opcode = OP_EQUALVERIFY then Some (op_equal opcode)
      else if opcode = OP_1ADD \<or> opcode = OP_1SUB \<or> (OP_NEGATE \<le> opcode \<and> opcode \<le> OP_0NOTEQUAL)
      then Some (op_unary ctx opcode)
      else if opcode = OP_ADD \<or> opcode = OP_SUB \<or> (OP_BOOLAND \<le> opcode \<and> opcode \<le> OP_MAX)
      then Some (op_binary ctx opcode)
      else if opcode = OP_WITHIN then Some (op_within ctx)
      else if OP_RIPEMD160 \<le> opcode \<and> opcode \<le> OP_HASH256 then Some (op_hash opcode)
      else if opcode = OP_CHECKSIG \<or> opcode = OP_CHECKSIGVERIFY then Some (op_checksig ctx scr opcode)
      else if opcode = OP_CHECKCRYPTOCONDITION \<or> opcode = OP_CHECKCRYPTOCONDITIONVERIFY
      then Some (op_checkcc ctx scr opcode)
      else None)"

definition exec_op :: "script_ctx \<Rightarrow> script \<Rightarrow> bool \<Rightarrow> opcodetype \<Rightarrow> vm \<Rightarrow> vm result" where
  "exec_op ctx scr fExec opcode m =
     (if opcode = OP_IF \<or> opcode = OP_NOTIF then op_if opcode fExec m
      else if opcode = OP_ELSE then op_else m
      else if opcode = OP_ENDIF then op_endif m
      else if opcode = OP_TOALTSTACK then op_toaltstack m
      else if opcode = OP_FROMALTSTACK then op_fromaltstack m
      else if opcode = OP_CHECKMULTISIG \<or> opcode = OP_CHECKMULTISIGVERIFY then op_checkmultisig ctx scr opcode m
      else case op_table ctx scr opcode of
             Some f \<Rightarrow> on_stack f m
           | None \<Rightarrow> fail SCRIPT_ERR_BAD_OPCODE)"

definition disabled_opcodes :: "opcodetype list" where
  "disabled_opcodes = [OP_CAT, OP_SUBSTR, OP_LEFT, OP_RIGHT, OP_INVERT, OP_AND, OP_OR, OP_XOR, OP_2MUL, OP_2DIV,
     OP_MUL, OP_DIV, OP_MOD, OP_LSHIFT, OP_RSHIFT, OP_CODESEPARATOR]"

section \<open>EvalScript\<close>

text \<open>One turn of the loop: the position and the machine after it.\<close>

definition exec_step :: "script_ctx \<Rightarrow> script \<Rightarrow> script \<Rightarrow> vm \<Rightarrow> (script \<times> vm) result" where
  "exec_step ctx scr pc m =
     (let fExec = list_all id (vfExec m)
      in case GetOp2 pc of
           (ok, pc', opcode, vchPushValue) \<Rightarrow>
             bindE (guardE ok (ScriptErr SCRIPT_ERR_BAD_OPCODE)) (\<lambda>_.
             bindE (guardE (length vchPushValue \<le> MAX_SCRIPT_ELEMENT_SIZE) (ScriptErr SCRIPT_ERR_PUSH_SIZE)) (\<lambda>_.
             let m1 = (if OP_16 < opcode then m\<lparr>nOpCount := nOpCount m + 1\<rparr> else m)
             in bindE (guardE (\<not> (OP_16 < opcode \<and> 201 < nOpCount m1)) (ScriptErr SCRIPT_ERR_OP_COUNT)) (\<lambda>_.
             bindE (guardE (opcode \<notin> set disabled_opcodes) (ScriptErr SCRIPT_ERR_DISABLED_OPCODE)) (\<lambda>_.
             bindE (if fExec \<and> opcode \<le> OP_PUSHDATA4
                    then if fRequireMinimal ctx \<and> \<not> CheckMinimalPush vchPushValue opcode
                         then fail SCRIPT_ERR_MINIMALDATA
                         else Inr (m1\<lparr>stk := vchPushValue # stk m1\<rparr>)
                    else if fExec \<or> (OP_IF \<le> opcode \<and> opcode \<le> OP_ENDIF) then exec_op ctx scr fExec opcode m1
                    else Inr m1) (\<lambda>m2.
             bindE (guardE (length (stk m2) + length (altstk m2) \<le> 1000) (ScriptErr SCRIPT_ERR_STACK_SIZE)) (\<lambda>_.
             Inr (pc', m2))))))))"

lemma exec_step_shrinks: "exec_step ctx scr pc m = Inr (pc', m') \<Longrightarrow> pc \<noteq> [] \<Longrightarrow> length pc' < length pc"
  by (cases "GetOp2 pc") (auto simp: exec_step_def Let_def dest: GetOp2_shrinks)

function eval_loop :: "script_ctx \<Rightarrow> script \<Rightarrow> script \<Rightarrow> vm \<Rightarrow> vm result" where
  "eval_loop ctx scr pc m =
     (if pc = [] then Inr m
      else case exec_step ctx scr pc m of
             Inl e \<Rightarrow> Inl e
           | Inr (pc', m') \<Rightarrow> eval_loop ctx scr pc' m')"
  by pat_completeness auto
termination
  by (relation "measure (\<lambda>(_, _, pc, _). length pc)") (auto dest: exec_step_shrinks)

declare eval_loop.simps [simp del]

text \<open>\<^verbatim>\<open>catch (...)\<close>.\<close>

definition catch_all :: "'a result \<Rightarrow> 'a result" where
  "catch_all r = (if r = Inl Thrown then fail SCRIPT_ERR_UNKNOWN_ERROR else r)"

definition EvalScript :: "script_ctx \<Rightarrow> bytes list \<Rightarrow> script \<Rightarrow> bytes list result" where
  "EvalScript ctx st scr =
     (if MAX_SCRIPT_SIZE < length scr then fail SCRIPT_ERR_SCRIPT_SIZE
      else bindE (catch_all (eval_loop ctx scr scr \<lparr>stk = st, altstk = [], vfExec = [], nOpCount = 0\<rparr>)) (\<lambda>m.
           if vfExec m \<noteq> [] then fail SCRIPT_ERR_UNBALANCED_CONDITIONAL else Inr (stk m)))"

section \<open>VerifyScript\<close>

definition EvalCryptoConditionSig :: "bytes list \<Rightarrow> script \<Rightarrow> bytes list result" where
  "EvalCryptoConditionSig st scriptSig =
     (case GetOp2 scriptSig of
        (ok, pc, opcode, vchPushValue) \<Rightarrow>
          if \<not> ok then fail SCRIPT_ERR_BAD_OPCODE
          else if opcode = 0 \<or> OP_PUSHDATA4 < opcode then bad_stack
          else if pc \<noteq> [] then bad_stack
          else if MAX_SCRIPT_CRYPTOCONDITION_FULFILLMENT_SIZE < length vchPushValue then fail SCRIPT_ERR_PUSH_SIZE
          else Inr (vchPushValue # st))"

definition final_true :: "bytes list \<Rightarrow> unit result" where
  "final_true st = (case st of
                      [] \<Rightarrow> fail SCRIPT_ERR_EVAL_FALSE
                    | vtop # _ \<Rightarrow> if CastToBool vtop then Inr () else fail SCRIPT_ERR_EVAL_FALSE)"

definition VerifyScript :: "script_ctx \<Rightarrow> script \<Rightarrow> script \<Rightarrow> unit result" where
  "VerifyScript ctx scriptSig scriptPubKey =
     (if has_flag ctx SCRIPT_VERIFY_SIGPUSHONLY \<and> \<not> IsPushOnly scriptSig then fail SCRIPT_ERR_SIG_PUSHONLY
      else bindE (if ccEnabled ctx \<and> IsPayToCryptoCondition scriptPubKey \<noteq> None
                  then EvalCryptoConditionSig [] scriptSig else EvalScript ctx [] scriptSig) (\<lambda>st.
      let stackCopy = (if has_flag ctx SCRIPT_VERIFY_P2SH then st else [])
      in bindE (EvalScript ctx st scriptPubKey) (\<lambda>st1.
      bindE (final_true st1) (\<lambda>_.
      bindE (if has_flag ctx SCRIPT_VERIFY_P2SH \<and> IsPayToScriptHash scriptPubKey
             then if \<not> IsPushOnly scriptSig then fail SCRIPT_ERR_SIG_PUSHONLY
                  else case stackCopy of
                         [] \<Rightarrow> Inl Aborted
                       | pubKeySerialized # rest \<Rightarrow>
                           bindE (EvalScript ctx rest pubKeySerialized) (\<lambda>st2. bindE (final_true st2) (\<lambda>_. Inr st2))
             else Inr st1) (\<lambda>st3.
      if has_flag ctx SCRIPT_VERIFY_CLEANSTACK
      then if \<not> has_flag ctx SCRIPT_VERIFY_P2SH then Inl Aborted
           else if length st3 \<noteq> 1 then fail SCRIPT_ERR_CLEANSTACK else Inr ()
      else Inr ())))))"

end
