(* ===== verification/ScriptNum.thy ===== *)
theory ScriptNum
  imports Script
begin

text \<open>
  The numbers of scripts and the pushes of data, after \<^verbatim>\<open>src/src/script/script.h\<close>: the value that a byte vector
  denotes, the bytes of a number, that these are inverse to each other exactly on the minimal encodings, and that
  \<^verbatim>\<open>GetOp2\<close> reads back what the stream operators push.
\<close>

section \<open>The value of a script number\<close>

lemma or_disjoint_add:
  assumes "unat (r :: u64) < 256 ^ i"
  shows "r OR push_bit (8 * i) x = r + push_bit (8 * i) x"
proof -
  have "\<not> bit r n \<or> \<not> bit (push_bit (8 * i) x) n" for n
  proof (cases "n < 8 * i")
    case True
    then show ?thesis by (simp add: bit_push_bit_iff)
  next
    case False
    have "unat r < 2 ^ (8 * i)" using assms by (simp add: power_mult)
    also have "\<dots> \<le> 2 ^ n" using False by (intro power_increasing) simp_all
    finally have "\<not> bit (unat r) n" by (simp add: bit_iff_odd)
    then show ?thesis by (simp add: bit_unsigned_iff)
  qed
  then show ?thesis by (simp add: disjunctive_add_eq_or bit_eq_iff bit_and_iff)
qed

lemma or_bytes_val:
  assumes "unat r < 256 ^ i" and "i + length bs \<le> 8"
  shows "unat (or_bytes bs i r) = unat r + 256 ^ i * le_val bs"
  using assms
proof (induction bs arbitrary: i r)
  case Nil
  then show ?case by simp
next
  case (Cons b bs)
  have b: "unat b < 256" using unat_bound [of b] by simp
  have "256 ^ i * 256 \<le> (256 :: nat) ^ 8" using Cons.prems(2) power_increasing [of "Suc i" 8 "256 :: nat"] by simp
  moreover have "256 ^ i * unat b + 256 ^ i \<le> 256 ^ i * 256" using b by (simp flip: mult_Suc_right)
  ultimately have lt: "unat r + 256 ^ i * unat b < 256 ^ 8" "256 ^ i * unat b < 256 ^ 8"
    using Cons.prems(1) by linarith+
  have p: "unat (push_bit (8 * i) (ucast b :: u64)) = 256 ^ i * unat b"
  proof -
    have c: "unat (ucast b :: u64) = unat b" using b by (simp add: unsigned_ucast_eq take_bit_nat_eq_self)
    have e: "unat b * 2 ^ (8 * i) = 256 ^ i * unat b" by (simp add: power_mult)
    have "unat b * 2 ^ (8 * i) < 2 ^ 64" unfolding e using lt(2) by simp
    then have "take_bit 64 (unat b * 2 ^ (8 * i)) = unat b * 2 ^ (8 * i)" by (rule take_bit_nat_eq_self)
    then show ?thesis
      unfolding unsigned_push_bit_eq unfolding push_bit_eq_mult c e [symmetric] by simp
  qed
  have u: "unat (r OR push_bit (8 * i) (ucast b)) = unat r + 256 ^ i * unat b"
    unfolding or_disjoint_add [OF Cons.prems(1)] using lt(1) by (simp add: unat_word_ariths p)
  have "unat (r OR push_bit (8 * i) (ucast b)) < 256 ^ Suc i"
    unfolding u power_Suc using Cons.prems(1) \<open>256 ^ i * unat b + 256 ^ i \<le> 256 ^ i * 256\<close> by linarith
  from Cons.IH [OF this] Cons.prems(2)
  have "unat (or_bytes (b # bs) i r) = unat (r OR push_bit (8 * i) (ucast b)) + 256 ^ Suc i * le_val bs" by simp
  then show ?case unfolding u by (simp add: distrib_left ac_simps)
qed

lemma or_bytes_le: "length bs \<le> 8 \<Longrightarrow> unat (or_bytes bs 0 0) = le_val bs"
  using or_bytes_val [of 0 0 bs] by simp


definition num_val :: "bytes \<Rightarrow> int" where
  "num_val vch =
     (if vch = [] then 0
      else let n = le_val vch; top = 128 * 256 ^ (length vch - 1)
           in if top \<le> n then - int (n - top) else int n)"

lemma byte_sign: "b AND 0x80 \<noteq> 0 \<longleftrightarrow> 128 \<le> unat (b :: byte)"
proof -
  have "b AND 0x80 \<noteq> 0 \<longleftrightarrow> bit b 7" using bit_iff_and_push_bit_not_eq_0 [of b 7] by simp
  also have "\<dots> \<longleftrightarrow> bit (unat b) 7" by (simp add: bit_unsigned_iff)
  also have "\<dots> \<longleftrightarrow> odd (unat b div 2 ^ 7)" by (simp add: bit_iff_odd)
  also have "\<dots> \<longleftrightarrow> 128 \<le> unat b"
  proof (cases "128 \<le> unat b")
    case True
    then have "unat b div 2 ^ 7 = 1" using unat_bound [of b] by (intro div_nat_eqI) simp_all
    with True show ?thesis by simp
  qed simp
  finally show ?thesis .
qed

lemma le_val_snoc: "le_val (bs @ [b]) = le_val bs + 256 ^ length bs * unat b"
  by (simp add: le_val_append)

lemma last_sign:
  assumes "vch \<noteq> []"
  shows "128 * 256 ^ (length vch - 1) \<le> le_val vch \<longleftrightarrow> 128 \<le> unat (last vch)"
proof -
  obtain bs b where v: "vch = bs @ [b]" using assms by (metis rev_exhaust)
  let ?B = "256 ^ length bs"
  have l: "le_val bs < ?B" by (rule le_val_bound)
  show ?thesis
  proof (cases "128 \<le> unat b")
    case True
    then have "?B * 128 \<le> ?B * unat b" by (rule mult_le_mono2)
    then have "128 * ?B \<le> le_val bs + ?B * unat b" by linarith
    with True show ?thesis by (simp add: v le_val_snoc)
  next
    case False
    then have "?B * unat b \<le> ?B * 127" by (intro mult_le_mono2) simp
    with l have "le_val bs + ?B * unat b < 128 * ?B" by linarith
    with False show ?thesis by (simp add: v le_val_snoc)
  qed
qed

lemma unat_and_not_bit:
  assumes "bit (x :: u64) k" and "k < 64"
  shows "unat (x AND NOT (push_bit k 1)) = unat x - 2 ^ k"
proof -
  let ?y = "x AND NOT (push_bit k 1)"
  have disj: "?y OR push_bit k 1 = ?y + push_bit k 1"
    by (rule disjunctive_add_eq_or [symmetric]) (auto simp: bit_eq_iff bit_and_iff bit_not_iff)
  have "x = ?y OR push_bit k 1"
    by (rule bit_eqI) (use assms in \<open>auto simp: bit_or_iff bit_and_iff bit_not_iff push_bit_eq_mult bit_exp_iff\<close>)
  then have "x = ?y + push_bit k 1" using disj by (rule trans)
  then have eq: "?y = x - push_bit k 1" unfolding eq_diff_eq by (rule sym)
  have p: "unat (push_bit k 1 :: u64) = 2 ^ k"
    unfolding unsigned_push_bit_eq using assms(2) power_strict_increasing [of k 64 "2 :: nat"]
    by (simp add: push_bit_eq_mult take_bit_nat_eq_self)
  have "bit (unat x) k" using assms by (simp add: bit_unsigned_iff)
  then have "2 ^ k \<le> unat x" by (metis bit_iff_odd div_less even_zero not_le)
  then have "push_bit k 1 \<le> x" unfolding word_le_nat_alt p .
  then show ?thesis unfolding eq using p by (simp only: unat_sub)
qed


lemma set_vch_val:
  assumes "length vch \<le> 7"
  shows "set_vch vch = num_val vch"
proof (cases "vch = []")
  case False
  let ?r = "or_bytes vch 0 0" and ?k = "8 * (length vch - 1) + 7"
  have r: "unat ?r = le_val vch" using assms by (intro or_bytes_le) simp
  have "(256 :: nat) ^ length vch \<le> 256 ^ 7" using assms by (intro power_increasing) simp_all
  then have small: "le_val vch < 2 ^ 56" using le_val_bound [of vch] by simp
  have si: "sint x = int (unat x)" if "unat x < 2 ^ 56" for x :: u64
  proof -
    have "int (unat x) < int (2 ^ 56)" using that by (simp only: of_nat_less_iff)
    then have "uint x < 2 ^ 56" by simp
    then have "signed_take_bit 63 (uint x) = uint x" by (intro signed_take_bit_int_eq_self order_trans [OF _ uint_ge_0]) simp_all
    then show ?thesis by (simp add: sint_uint)
  qed
  have top: "(128 :: nat) * 256 ^ (length vch - 1) = 2 ^ ?k" by (simp add: power_add power_mult)
  have sh: "push_bit (8 * (length vch - 1)) 0x80 = (push_bit ?k 1 :: u64)" by (simp add: push_bit_eq_mult power_add)
  show ?thesis
  proof (cases "last vch AND 0x80 \<noteq> 0")
    case True
    then have ge: "2 ^ ?k \<le> le_val vch" using last_sign [OF False] byte_sign top by metis
    have lt: "le_val vch < 2 * 2 ^ ?k"
      using le_val_bound [of vch] False by (cases vch) (simp_all add: power_add power_mult)
    have "?k < 64" using assms by simp
    have "bit (unat ?r) ?k" unfolding r bit_iff_odd using ge lt div_nat_eqI [of "2 ^ ?k" 1 "le_val vch"] by simp
    then have "bit ?r ?k" by (simp add: bit_unsigned_iff)
    from unat_and_not_bit [OF this \<open>?k < 64\<close>] have u: "unat (?r AND NOT (push_bit ?k 1)) = le_val vch - 2 ^ ?k" by (simp only: r)
    have "set_vch vch = - sint (?r AND NOT (push_bit (8 * (length vch - 1)) 0x80))"
      unfolding set_vch_def Let_def using True False by simp
    also have "\<dots> = - int (le_val vch - 2 ^ ?k)"
      unfolding sh using si [of "?r AND NOT (push_bit ?k 1)"] u small by (simp only:)
    also have "\<dots> = num_val vch" unfolding num_val_def Let_def top using False ge by simp
    finally show ?thesis .
  next
    case F: False
    then have "\<not> 2 ^ ?k \<le> le_val vch" using last_sign [OF False] byte_sign top by metis
    then have "num_val vch = int (le_val vch)" unfolding num_val_def Let_def top using False by simp
    moreover have "set_vch vch = int (le_val vch)" using F si [of ?r] small by (simp add: set_vch_def False r)
    ultimately show ?thesis by simp
  qed
qed (simp add: set_vch_def num_val_def)

lemma unat_and_7f: "unat (c AND 0x7f) = unat (c :: byte) mod 128"
proof -
  have "c AND 0x7f = take_bit 7 c" by (simp add: take_bit_eq_mask mask_numeral)
  then show ?thesis by (simp add: take_bit_eq_mod unat_mod)
qed

lemma and_7f_zero: "c AND 0x7f = 0 \<longleftrightarrow> unat (c :: byte) mod 128 = 0"
  by (metis unat_and_7f unat_eq_zero)

lemma unat_or_80:
  assumes "unat (c :: byte) < 128"
  shows "unat (c OR 0x80) = unat c + 128"
proof -
  have b7: "\<not> bit c 7" using assms byte_sign [of c] bit_iff_and_push_bit_not_eq_0 [of c 7] by simp
  have "c OR push_bit 7 1 = c + push_bit 7 1"
  proof (rule disjunctive_add_eq_or [symmetric], rule bit_eqI)
    fix n
    show "bit (c AND push_bit 7 1) n \<longleftrightarrow> bit (0 :: byte) n"
      unfolding bit_and_iff bit_push_bit_iff bit_1_iff using b7 by (cases "n = 7") simp_all
  qed
  then show ?thesis using assms by (simp add: unat_word_ariths)
qed

lemma le_val_abs_bytes: "le_val (abs_bytes n) = n"
  by (induction n rule: abs_bytes.induct) (subst abs_bytes.simps, simp)

lemma abs_bytes_Nil: "abs_bytes n = [] \<longleftrightarrow> n = 0"
  by (subst abs_bytes.simps) simp

lemma abs_bytes_le_val: "bs = [] \<or> last bs \<noteq> 0 \<Longrightarrow> abs_bytes (le_val bs) = bs"
proof (induction bs)
  case Nil
  then show ?case by (simp add: abs_bytes_Nil)
next
  case (Cons b bs)
  have b: "unat b < 256" using unat_bound [of b] by simp
  have ih: "abs_bytes (le_val bs) = bs" using Cons by (cases bs) auto
  have "le_val (b # bs) \<noteq> 0"
  proof
    assume "le_val (b # bs) = 0"
    then have z: "unat b = 0" "le_val bs = 0" by simp_all
    then have "bs = []" using ih abs_bytes_Nil [of 0] by simp
    with z Cons.prems show False by (simp add: unat_eq_zero)
  qed
  then have "abs_bytes (le_val (b # bs)) = word_of_nat (le_val (b # bs) mod 256) # abs_bytes (le_val (b # bs) div 256)"
    using abs_bytes.simps [of "le_val (b # bs)"] by (simp only: if_False)
  moreover have "le_val (b # bs) mod 256 = unat b" "le_val (b # bs) div 256 = le_val bs" using b by simp_all
  ultimately show ?case using ih by (simp del: le_val.simps)
qed

lemma last_abs_bytes:
  assumes "n \<noteq> 0"
  shows "last (abs_bytes n) \<noteq> 0"
  using assms
proof (induction n rule: abs_bytes.induct)
  case (1 n)
  show ?case
  proof (cases "n div 256 = 0")
    case True
    then have n: "n < 256" by simp
    then have "unat (word_of_nat n :: byte) = n" by (simp add: unat_of_nat)
    then have "(word_of_nat n :: byte) \<noteq> 0" using 1(2) by auto
    moreover have "abs_bytes n = [word_of_nat n]"
      using 1(2) n True by (subst abs_bytes.simps) (simp add: abs_bytes_Nil)
    ultimately show ?thesis by simp
  next
    case False
    with 1 show ?thesis by (subst abs_bytes.simps) (simp add: abs_bytes_Nil)
  qed
qed

lemma length_abs_bytes: "length (abs_bytes n) \<le> k \<longleftrightarrow> n < 256 ^ k"
proof (induction n arbitrary: k rule: abs_bytes.induct)
  case (1 n)
  show ?case
  proof (cases "n = 0")
    case False
    then have l: "length (abs_bytes n) = Suc (length (abs_bytes (n div 256)))" by (subst abs_bytes.simps) simp
    show ?thesis
    proof (cases k)
      case 0
      then show ?thesis using False by (simp add: abs_bytes_Nil)
    next
      case (Suc j)
      have "n < 256 ^ Suc j \<longleftrightarrow> n div 256 < 256 ^ j" by (simp add: div_less_iff_less_mult mult.commute)
      with 1(1) [OF False, of j] show ?thesis unfolding l Suc by simp
    qed
  qed (simp add: abs_bytes.simps)
qed

lemma num_val_snoc:
  "num_val (bs @ [c]) = (if 128 \<le> unat c then - 1 else 1) * int (le_val bs + 256 ^ length bs * (unat c mod 128))"
proof -
  have c: "unat c < 256" using unat_bound [of c] by simp
  have s: "128 * 256 ^ length bs \<le> le_val (bs @ [c]) \<longleftrightarrow> 128 \<le> unat c" using last_sign [of "bs @ [c]"] by simp
  show ?thesis
  proof (cases "128 \<le> unat c")
    case True
    then have m: "unat c mod 128 = unat c - 128" using c by (simp add: mod_if)
    have "le_val (bs @ [c]) - 128 * 256 ^ length bs = le_val bs + 256 ^ length bs * (unat c - 128)"
      using True by (simp add: le_val_snoc diff_mult_distrib2)
    then show ?thesis using True s by (simp add: num_val_def m)
  next
    case False
    then show ?thesis using s by (simp add: num_val_def le_val_snoc)
  qed
qed

lemma num_val_serialize: "num_val (serialize v) = v"
proof (cases "v = 0")
  case False
  define n where "n = nat \<bar>v\<bar>"
  define r where "r = abs_bytes n"
  have n: "n \<noteq> 0" using False by (simp add: n_def)
  obtain bs c where r: "r = bs @ [c]" using n abs_bytes_Nil [of n] by (metis r_def rev_exhaust)
  have val: "n = le_val bs + 256 ^ length bs * unat c" using le_val_abs_bytes [of n] by (simp add: r_def [symmetric] r le_val_snoc)
  have c: "unat c < 256" using unat_bound [of c] by simp
  have v: "v = (if v < 0 then - 1 else 1) * int n" by (simp add: n_def)
  have ser: "serialize v = (if 128 \<le> unat c then r @ [if v < 0 then 0x80 else 0]
      else if v < 0 then bs @ [c OR 0x80] else r)"
    using False by (simp add: serialize_def Let_def n_def [symmetric] r_def [symmetric] byte_sign r)
  show ?thesis
  proof (cases "128 \<le> unat c")
    case True
    have "num_val (serialize v) = (if v < 0 then - 1 else 1) * int (le_val r)"
      unfolding ser using True by (simp only: if_True num_val_snoc) simp
    then show ?thesis using v by (simp add: le_val_abs_bytes r_def)
  next
    case False
    then have m: "unat c mod 128 = unat c" "(unat c + 128) mod 128 = unat c" by simp_all
    show ?thesis
    proof (cases "v < 0")
      case True
      then have "num_val (serialize v) = - int (le_val bs + 256 ^ length bs * unat c)"
        using num_val_snoc [of bs "c OR 0x80"] ser False unat_or_80 [of c] m by simp
      then show ?thesis using v True val by simp
    next
      case nn: False
      then have "num_val (serialize v) = int (le_val bs + 256 ^ length bs * unat c)"
        unfolding ser r using False by (simp only: if_False num_val_snoc m) simp
      then show ?thesis using v nn val by simp
    qed
  qed
qed (simp add: serialize_def num_val_def)

definition minimal_num :: "bytes \<Rightarrow> bool" where
  "minimal_num vch \<longleftrightarrow> \<not> (0 < length vch \<and> last vch AND 0x7f = 0 \<and>
     (length vch \<le> 1 \<or> vch ! (length vch - 2) AND 0x80 = 0))"


lemma serialize_minimal: "minimal_num vch \<Longrightarrow> serialize (num_val vch) = vch"
proof (cases vch rule: rev_cases)
  case Nil
  then show ?thesis by (simp add: num_val_def serialize_def)
next
  case (snoc bs c)
  assume min: "minimal_num vch"
  define l where "l = c AND 0x7f"
  have l: "unat l = unat c mod 128" by (simp add: l_def unat_and_7f)
  have c: "unat c < 256" using unat_bound [of c] by simp
  define sg where "sg = (128 \<le> unat c)"
  have cl: "unat c = unat l + (if sg then 128 else 0)" using c l le_mod_geq [of 128 "unat c"] by (simp add: sg_def)
  have cor: "c = (if sg then l OR 0x80 else l)"
    unfolding word_unat_eq_iff using cl l unat_or_80 [of l] by (cases sg) simp_all
  have nv: "num_val vch = (if sg then - 1 else 1) * int (le_val bs + 256 ^ length bs * unat l)"
    unfolding snoc num_val_snoc l sg_def ..
  show ?thesis
  proof (cases "l = 0")
    case False
    have lv: "le_val (bs @ [l]) \<noteq> 0" using False by (simp add: le_val_snoc unat_eq_zero)
    have ab: "abs_bytes (le_val (bs @ [l])) = bs @ [l]" using False by (intro abs_bytes_le_val) simp
    have "num_val vch = (if sg then - 1 else 1) * int (le_val (bs @ [l]))" unfolding nv le_val_snoc ..
    then have "num_val vch \<noteq> 0" "nat \<bar>num_val vch\<bar> = le_val (bs @ [l])" "num_val vch < 0 \<longleftrightarrow> sg"
      using lv by (auto simp: abs_mult)
    moreover have "\<not> 128 \<le> unat l" using l by simp
    ultimately show ?thesis unfolding serialize_def Let_def using ab cor snoc by (auto simp: byte_sign)
  next
    case True
    with min have bs: "bs \<noteq> []" "128 \<le> unat (last bs)"
      unfolding minimal_num_def snoc l_def byte_sign
      by (auto simp: nth_append last_conv_nth byte_sign not_less split: if_splits)
    then have "last bs \<noteq> 0" by auto
    then have ab: "abs_bytes (le_val bs) = bs" by (intro abs_bytes_le_val) simp
    then have nz: "le_val bs \<noteq> 0" using bs abs_bytes_Nil by metis
    have "num_val vch = (if sg then - 1 else 1) * int (le_val bs)" using nv True by simp
    then have "num_val vch \<noteq> 0" "nat \<bar>num_val vch\<bar> = le_val bs" "num_val vch < 0 \<longleftrightarrow> sg"
      using nz by (auto simp: abs_mult)
    then show ?thesis unfolding serialize_def Let_def using ab bs cor True snoc by (auto simp: byte_sign)
  qed
qed

lemma serialize_shape:
  assumes "v \<noteq> 0"
  obtains bs c where "abs_bytes (nat \<bar>v\<bar>) = bs @ [c]" and "c \<noteq> 0"
    and "serialize v = (if 128 \<le> unat c then bs @ [c, if v < 0 then 0x80 else 0]
                        else if v < 0 then bs @ [c OR 0x80] else bs @ [c])"
proof -
  have n: "nat \<bar>v\<bar> \<noteq> 0" using assms by simp
  then have "abs_bytes (nat \<bar>v\<bar>) \<noteq> []" using abs_bytes_Nil by simp
  then obtain bs c where r: "abs_bytes (nat \<bar>v\<bar>) = bs @ [c]" by (metis rev_exhaust)
  moreover have "c \<noteq> 0" using last_abs_bytes [OF n] r by simp
  moreover have "serialize v = (if 128 \<le> unat c then bs @ [c, if v < 0 then 0x80 else 0]
      else if v < 0 then bs @ [c OR 0x80] else bs @ [c])"
    using assms r by (simp add: serialize_def Let_def byte_sign)
  ultimately show ?thesis by (rule that)
qed

lemma minimal_serialize: "minimal_num (serialize v)"
proof (cases "v = 0")
  case False
  then obtain bs c where c: "c \<noteq> 0" and ser: "serialize v = (if 128 \<le> unat c then bs @ [c, if v < 0 then 0x80 else 0]
      else if v < 0 then bs @ [c OR 0x80] else bs @ [c])" by (rule serialize_shape)
  show ?thesis
  proof (cases "128 \<le> unat c")
    case True
    then show ?thesis unfolding ser by (simp add: minimal_num_def nth_append byte_sign)
  next
    case False
    have "unat c \<noteq> 0" using c by (simp add: unat_eq_zero)
    then have "\<not> last (serialize v) AND 0x7f = 0"
      unfolding ser and_7f_zero using False unat_or_80 [of c] by simp
    then show ?thesis by (simp add: minimal_num_def)
  qed
qed (simp add: serialize_def minimal_num_def)

lemma num_val_bound:
  assumes "length vch \<le> k" and "0 < k"
  shows "\<bar>num_val vch\<bar> < 128 * 256 ^ (k - 1)"
proof (cases vch rule: rev_cases)
  case Nil
  then show ?thesis by (simp add: num_val_def)
next
  case (snoc bs c)
  define x where "x = le_val bs + 256 ^ length bs * (unat c mod 128)"
  have "x < 256 ^ length bs * 128"
  proof -
    have "unat c mod 128 \<le> 127" using mod_less_divisor [of 128 "unat c"] by simp
    then have "256 ^ length bs * (unat c mod 128) \<le> 256 ^ length bs * 127" by (rule mult_le_mono2)
    then show ?thesis unfolding x_def using le_val_bound [of bs] by linarith
  qed
  then have "int x < int (256 ^ length bs * 128)" by (simp only: of_nat_less_iff)
  then have "\<bar>num_val vch\<bar> < 128 * 256 ^ length bs" unfolding snoc num_val_snoc x_def [symmetric] by simp
  also have "\<dots> \<le> 128 * 256 ^ (k - 1)" using assms snoc by simp
  finally show ?thesis .
qed

lemma length_serialize:
  assumes "0 < k" and "\<bar>v\<bar> < 128 * 256 ^ (k - 1)"
  shows "length (serialize v) \<le> k"
proof (cases "v = 0")
  case False
  then obtain bs c where r: "abs_bytes (nat \<bar>v\<bar>) = bs @ [c]" and ser: "serialize v = (if 128 \<le> unat c then bs @ [c, if v < 0 then 0x80 else 0]
      else if v < 0 then bs @ [c OR 0x80] else bs @ [c])" by (rule serialize_shape)
  have "int (nat \<bar>v\<bar>) < int (128 * 256 ^ (k - 1))" using assms(2) by simp
  then have n: "nat \<bar>v\<bar> < 128 * 256 ^ (k - 1)" by (simp only: of_nat_less_iff)
  have pk: "256 * 256 ^ (k - 1) = (256 :: nat) ^ k" using assms(1) by (cases k) simp_all
  show ?thesis
  proof (cases "128 \<le> unat c")
    case True
    have "nat \<bar>v\<bar> = le_val bs + 256 ^ length bs * unat c" using le_val_abs_bytes [of "nat \<bar>v\<bar>"] by (simp add: r le_val_snoc)
    moreover have "256 ^ length bs * 128 \<le> 256 ^ length bs * unat c" using True by (rule mult_le_mono2)
    ultimately have "256 ^ length bs * 128 < 128 * (256 :: nat) ^ (k - 1)" using n by linarith
    then have "(256 :: nat) ^ length bs < 256 ^ (k - 1)" by simp
    then have "length bs < k - 1" by (rule power_less_imp_less_exp [rotated]) simp
    then show ?thesis using True by (simp add: ser)
  next
    case False
    have "nat \<bar>v\<bar> < 256 ^ k" using n pk by linarith
    then have "length (bs @ [c]) \<le> k" unfolding r [symmetric] length_abs_bytes .
    then show ?thesis using False by (simp add: ser)
  qed
qed (simp add: serialize_def)

lemma CScriptNum_num_val:
  assumes "k \<le> 7"
  shows "CScriptNum vch req k = (if k < length vch \<or> (req \<and> \<not> minimal_num vch) then Inl Thrown else Inr (num_val vch))"
  using assms set_vch_val [of vch] by (auto simp: CScriptNum_def minimal_num_def)

lemma CScriptNum_range:
  assumes "CScriptNum vch req k = Inr v" and "0 < k" and "k \<le> 7"
  shows "\<bar>v\<bar> < 128 * 256 ^ (k - 1)"
  using assms num_val_bound [of vch k] by (auto simp: CScriptNum_num_val split: if_splits)

lemma CScriptNum_serialize:
  assumes "\<bar>v\<bar> < 128 * 256 ^ (k - 1)" and "0 < k" and "k \<le> 7"
  shows "CScriptNum (serialize v) req k = Inr v"
  using length_serialize [OF assms(2,1)] assms(3) by (simp add: CScriptNum_num_val minimal_serialize num_val_serialize)

text \<open>
  C24: numbers pushed by a script read back as themselves. Every number below \<open>2 ^ (8 * k - 1)\<close> in absolute value is
  written in at most \<open>k\<close> bytes that decode to it, also where minimal encoding is required; and a byte string that is
  accepted as minimal is exactly the encoding of its value, which lies in that range.
\<close>

theorem scriptnum_roundtrip:
  assumes "0 < k" and "k \<le> 7"
  shows "(\<bar>v\<bar> < 2 ^ (8 * k - 1) \<longrightarrow> length (serialize v) \<le> k \<and> CScriptNum (serialize v) req k = Inr v) \<and>
    (CScriptNum vch True k = Inr w \<longrightarrow> serialize w = vch \<and> \<bar>w\<bar> < 2 ^ (8 * k - 1))"
proof -
  have p: "(2 :: int) ^ (8 * k - 1) = 128 * 256 ^ (k - 1)"
    using assms(1) by (cases k) (simp_all add: power_add power_mult)
  have "serialize w = vch \<and> \<bar>w\<bar> < 128 * 256 ^ (k - 1)" if "CScriptNum vch True k = Inr w"
    using CScriptNum_range [OF that assms] that assms(2) by (auto simp: CScriptNum_num_val serialize_minimal split: if_splits)
  moreover have "length (serialize v) \<le> k \<and> CScriptNum (serialize v) req k = Inr v" if "\<bar>v\<bar> < 128 * 256 ^ (k - 1)"
    using that length_serialize CScriptNum_serialize assms by blast
  ultimately show ?thesis unfolding p by blast
qed

theorem scriptnum_roundtrip_witness:
  "CScriptNum (serialize 1000) True 4 = Inr 1000 \<and> serialize 1000 = [0xe8, 0x03]"
  using scriptnum_roundtrip [of 4 1000 True "serialize 1000" 1000]
  by (simp add: serialize_def abs_bytes.simps)

section \<open>Building and reading\<close>

lemma unat_of_nat_small: "n < 2 ^ LENGTH('a) \<Longrightarrow> unat (word_of_nat n :: 'a::len word) = n"
  by (simp add: unat_of_nat take_bit_nat_eq_self)

lemma GetOp2_push_data:
  assumes "length b < 2 ^ 32"
  shows "\<exists>opcode. GetOp2 (push_data [] b @ rest) = (True, rest, opcode, b) \<and> opcode \<le> OP_PUSHDATA4 \<and>
    (length b \<le> 75 \<longrightarrow> opcode = length b)"
proof -
  consider "length b < 0x4c" | "0x4c \<le> length b" "length b \<le> 0xff" | "0xff < length b" "length b \<le> 0xffff"
    | "0xffff < length b" by linarith
  then show ?thesis
  proof cases
    case 1
    then have "unat (word_of_nat (length b) :: byte) = length b" by (intro unat_of_nat_small) simp
    then show ?thesis using 1 by (simp add: push_data_def GetOp2_def)
  next
    case 2
    then have "unat (word_of_nat (length b) :: byte) = length b" by (intro unat_of_nat_small) simp
    then show ?thesis using 2 by (simp add: push_data_def GetOp2_def)
  next
    case 3
    then have "unat (word_of_nat (length b) :: u16) = length b" by (intro unat_of_nat_small) simp
    then show ?thesis using 3 ReadLE16_Write [of "word_of_nat (length b)" "b @ rest"] by (simp add: push_data_def GetOp2_def)
  next
    case 4
    then have "unat (word_of_nat (length b) :: u32) = length b" using assms by (intro unat_of_nat_small) simp
    then show ?thesis using 4 ReadLE32_Write [of "word_of_nat (length b)" "b @ rest"] by (simp add: push_data_def GetOp2_def)
  qed
qed

lemma push_data_append: "push_data scr b = scr @ push_data [] b"
  by (simp add: push_data_def)

end
