(* ===== verification/InterpreterLimits.thy ===== *)
theory InterpreterLimits
  imports Interpreter ScriptNum
begin

text \<open>
  What holds of every run of \<^verbatim>\<open>EvalScript\<close>: the machine as a transition system, the limits on its stacks, elements and
  operations as an invariant of the transitions, the absence of aborts, and the shape of the scripts that succeed.
  The invariant is proved once for any bound on the elements, since a crypto-condition's fulfillment may be longer
  than what other scripts push.
\<close>

section \<open>Sizes\<close>

definition small :: "nat \<Rightarrow> bytes list \<Rightarrow> bool" where
  "small B st \<longleftrightarrow> list_all (\<lambda>v. length v \<le> B) st"

text \<open>An operation on the stack that does not abort, keeps the elements small and grows the stack by at most three.\<close>

definition op_ok :: "nat \<Rightarrow> (bytes list \<Rightarrow> bytes list result) \<Rightarrow> bool" where
  "op_ok B f \<longleftrightarrow> (\<forall>st. small B st \<and> length st \<le> 1000 \<longrightarrow>
     (case f st of Inl e \<Rightarrow> e \<noteq> Aborted | Inr st' \<Rightarrow> small B st' \<and> length st' \<le> length st + 3))"

lemma small_simps [simp]: "small B []" "small B (v # st) \<longleftrightarrow> length v \<le> B \<and> small B st"
  "small B (a @ b) \<longleftrightarrow> small B a \<and> small B b"
  by (simp_all add: small_def)

lemma small_sub: "small B st \<Longrightarrow> set st' \<subseteq> set st \<Longrightarrow> small B st'"
  by (auto simp: small_def list_all_iff)

lemma small_drop: "small B st \<Longrightarrow> small B (drop n st)"
  by (rule small_sub) (auto dest: in_set_dropD)

lemma small_nth: "small B st \<Longrightarrow> n < length st \<Longrightarrow> length (st ! n) \<le> B"
  by (simp add: small_def list_all_length)

lemma serialize_small: "\<bar>v\<bar> < 2 ^ 39 \<Longrightarrow> length (serialize v) \<le> 5"
  using length_serialize [of 5 v] by simp

lemma num_range: "num ctx v = Inr bn \<Longrightarrow> \<bar>bn\<bar> < 2 ^ 31"
  using CScriptNum_range [of v "fRequireMinimal ctx" 4 bn] by (simp add: num_def nDefaultMaxNumSize_def)

lemma num_fault: "num ctx v = Inl e \<Longrightarrow> e = Thrown"
  by (auto simp: num_def CScriptNum_def split: if_splits)

lemma unary_num_ok:
  assumes "\<bar>bn\<bar> < 2 ^ 31" and "opcode = OP_1ADD \<or> opcode = OP_1SUB \<or> (OP_NEGATE \<le> opcode \<and> opcode \<le> OP_0NOTEQUAL)"
  shows "\<exists>r. unary_num opcode bn = Inr r \<and> \<bar>r\<bar> < 2 ^ 39"
  using assms
  by (auto simp: unary_num_def num_add_assign_def num_sub_assign_def num_neg_def int64_max_def int64_min_def)

lemma binary_num_ok:
  assumes "\<bar>a\<bar> < 2 ^ 31" and "\<bar>b\<bar> < 2 ^ 31"
    and "opcode = OP_ADD \<or> opcode = OP_SUB \<or> (OP_BOOLAND \<le> opcode \<and> opcode \<le> OP_MAX)"
  shows "\<exists>r. binary_num opcode a b = Inr r \<and> \<bar>r\<bar> < 2 ^ 39"
proof -
  have "to_int64 (a + b) = a + b" "to_int64 (a - b) = a - b" using assms(1,2) by (auto intro!: to_int64_id)
  moreover have "opcode \<in> {OP_ADD, OP_SUB, OP_BOOLAND, OP_BOOLOR, OP_NUMEQUAL, OP_NUMEQUALVERIFY, OP_NUMNOTEQUAL, OP_LESSTHAN,
      OP_GREATERTHAN, OP_LESSTHANOREQUAL, OP_GREATERTHANOREQUAL, OP_MIN, OP_MAX}"
    using assms(3) unfolding insert_iff empty_iff by presburger
  ultimately show ?thesis using assms(1,2)
    by (elim insertE emptyE) (simp_all add: binary_num_def num_add_def num_sub_def)
qed

lemma hash_op_small: "\<exists>h. hash_op opcode v = Some h \<and> length h \<le> 32"
  using sha256_digest [of "[v]"] Hash_spec(1,4) [of v]
  by (auto simp: hash_op_def ripemd160_one sha1_one Hash1_def Hash160_def)

lemma encoding_fault:
  "CheckSignatureEncoding ctx s' = Inl e \<Longrightarrow> e \<noteq> Aborted \<and> e \<noteq> Thrown"
  "CheckPubKeyEncoding ctx k = Inl e \<Longrightarrow> e \<noteq> Aborted \<and> e \<noteq> Thrown"
  by (auto simp: CheckSignatureEncoding_def IsLowDERSignature_def CheckPubKeyEncoding_def bindE_eq_Inl split: if_splits)

text \<open>The largest element a script may meet: what it pushes itself, and what it finds on the stack.\<close>

locale element_limit =
  fixes B :: nat
  assumes lower: "MAX_SCRIPT_ELEMENT_SIZE \<le> B" and upper: "B < 2 ^ 31"
begin

lemma B520: "520 \<le> B"
  using lower by (simp add: MAX_SCRIPT_ELEMENT_SIZE_def)

lemma pure_ops_ok:
  "op_ok B Inr" "op_ok B (\<lambda>_. fail e)" "op_ok B op_verify" "op_ok B op_2drop" "op_ok B op_2dup" "op_ok B op_3dup" "op_ok B op_2over"
  "op_ok B op_2rot" "op_ok B op_2swap" "op_ok B op_ifdup" "op_ok B op_drop" "op_ok B op_dup" "op_ok B op_nip" "op_ok B op_over"
  "op_ok B op_rot" "op_ok B op_swap" "op_ok B op_tuck"
  by (auto simp: op_ok_def op_verify_def op_2drop_def op_2dup_def op_3dup_def op_2over_def op_2rot_def op_2swap_def
      op_ifdup_def op_drop_def op_dup_def op_nip_def op_over_def op_rot_def op_swap_def op_tuck_def split: list.splits)

lemma push_ops_ok:
  "opcode \<le> 255 \<Longrightarrow> op_ok B (op_push_value opcode)" "op_ok B op_depth" "op_ok B op_size"
  using B520 upper serialize_small [of "int opcode - (int OP_1 - 1)"]
  by (auto simp: op_ok_def op_push_value_def op_depth_def op_size_def split: list.splits
      intro!: order_trans [OF serialize_small])

lemma bool_small [simp]: "length (bool_vch b) \<le> B"
  using B520 by (simp add: bool_vch_def vchTrue_def vchFalse_def)

lemma equal_ok: "op_ok B (op_equal opcode)"
  by (auto simp: op_ok_def op_equal_def Let_def split: list.splits)

lemma cltv_ok: "op_ok B (op_cltv ctx)" "op_ok B (op_nopx ctx)"
  by (auto simp: op_ok_def op_cltv_def op_nopx_def CScriptNum_def bindE_def split: list.splits sum.splits if_splits)

lemma pick_roll_ok: "op_ok B (op_pick_roll ctx opcode)"
proof -
  have "case op_pick_roll ctx opcode st of Inl e \<Rightarrow> e \<noteq> Aborted | Inr st' \<Rightarrow> small B st' \<and> length st' \<le> length st + 3"
    if "small B st" for st
  proof (cases "op_pick_roll ctx opcode st")
    case (Inl e)
    then show ?thesis
      by (auto simp: op_pick_roll_def Let_def bindE_eq_Inl split: list.splits if_splits dest: num_fault)
  next
    case (Inr st')
    then obtain t x xs n where st: "st = t # x # xs" and n: "n < length (x # xs)"
      and st': "st' = (x # xs) ! n # (if opcode = OP_ROLL then take n (x # xs) @ drop (n + 1) (x # xs) else x # xs)"
      by (auto simp: op_pick_roll_def Let_def split: list.splits if_splits)
        (metis int_nat_eq linorder_not_le not_less_iff_gr_or_eq nat_less_iff of_nat_Suc)+
    have r: "small B (x # xs)" using that by (simp add: st)
    then have "small B (take n (x # xs) @ drop (n + 1) (x # xs))"
      by (rule small_sub) (auto dest: in_set_takeD in_set_dropD)
    then show ?thesis using Inr small_nth [OF r n] r n by (simp add: st st' del: small_simps(3) take_Suc_Cons)
  qed
  then show ?thesis by (simp add: op_ok_def)
qed

lemma unary_ok:
  assumes "opcode = OP_1ADD \<or> opcode = OP_1SUB \<or> (OP_NEGATE \<le> opcode \<and> opcode \<le> OP_0NOTEQUAL)"
  shows "op_ok B (op_unary ctx opcode)"
proof -
  have "case op_unary ctx opcode st of Inl e \<Rightarrow> e \<noteq> Aborted | Inr st' \<Rightarrow> small B st' \<and> length st' \<le> length st + 3"
    if "small B st" for st
  proof (cases st)
    case (Cons x r)
    show ?thesis
    proof (cases "num ctx x")
      case (Inl e)
      then show ?thesis using num_fault [OF Inl] by (simp add: op_unary_def Cons)
    next
      case (Inr bn)
      obtain v where v: "unary_num opcode bn = Inr v" "\<bar>v\<bar> < 2 ^ 39" using unary_num_ok [OF num_range [OF Inr] assms] by blast
      show ?thesis using that serialize_small [OF v(2)] B520 by (simp add: op_unary_def Cons Inr v(1))
    qed
  qed (simp add: op_unary_def)
  then show ?thesis by (simp add: op_ok_def)
qed

lemma binary_ok:
  assumes "opcode = OP_ADD \<or> opcode = OP_SUB \<or> (OP_BOOLAND \<le> opcode \<and> opcode \<le> OP_MAX)"
  shows "op_ok B (op_binary ctx opcode)"
proof -
  have "case op_binary ctx opcode st of Inl e \<Rightarrow> e \<noteq> Aborted | Inr st' \<Rightarrow> small B st' \<and> length st' \<le> length st + 3"
    if sm: "small B st" for st
  proof (cases "op_binary ctx opcode st")
    case (Inl e)
    then show ?thesis
      using binary_num_ok [OF num_range num_range assms]
      by (fastforce simp: op_binary_def Let_def bindE_eq_Inl split: list.splits if_splits dest: num_fault)
  next
    case (Inr st')
    then obtain x2 x1 r b1 b2 bn where st: "st = x2 # x1 # r" and b: "num ctx x1 = Inr b1" "num ctx x2 = Inr b2"
      "binary_num opcode b1 b2 = Inr bn" and st': "st' = r \<or> st' = serialize bn # r"
      by (auto simp: op_binary_def Let_def split: list.splits if_splits)
    from binary_num_ok [OF num_range [OF b(1)] num_range [OF b(2)] assms] b(3) have "\<bar>bn\<bar> < 2 ^ 39" by simp
    from serialize_small [OF this] show ?thesis using Inr st st' sm B520 by auto
  qed
  then show ?thesis by (simp add: op_ok_def)
qed

lemma within_ok: "op_ok B (op_within ctx)"
  by (auto simp: op_ok_def op_within_def bindE_def split: list.splits sum.splits dest: num_fault)

lemma hash_ok: "op_ok B (op_hash opcode)"
proof -
  have "length h \<le> B" if "hash_op opcode v = Some h" for v h
    using hash_op_small [of opcode v] that B520 by auto
  then show ?thesis by (auto simp: op_ok_def op_hash_def split: list.splits option.splits)
qed

lemma checksig_ok: "op_ok B (op_checksig ctx scr opcode)"
  by (auto simp: op_ok_def op_checksig_def Let_def bindE_def split: list.splits sum.splits dest: encoding_fault)

lemma checkcc_ok: "op_ok B (op_checkcc ctx scr opcode)"
  by (auto simp: op_ok_def op_checkcc_def Let_def split: list.splits)

lemma op_table_ok:
  assumes "op_table ctx scr opcode = Some f" and "opcode \<le> 255"
  shows "op_ok B f"
  using assms(1)
  by (auto simp: op_table_def split: if_splits
      intro: pure_ops_ok push_ops_ok push_ops_ok(1) [OF assms(2)] cltv_ok pick_roll_ok equal_ok unary_ok binary_ok within_ok hash_ok checksig_ok checkcc_ok)

end

section \<open>The machine\<close>

definition vm_inv :: "nat \<Rightarrow> vm \<Rightarrow> bool" where
  "vm_inv B m \<longleftrightarrow> small B (stk m) \<and> small B (altstk m) \<and> length (stk m) + length (altstk m) \<le> 1000 \<and>
     0 \<le> nOpCount m \<and> nOpCount m \<le> 201 \<and> int (length (vfExec m)) \<le> nOpCount m"

text \<open>What an executed opcode leaves before the size check of the loop; \<open>k\<close> is 1 if it may open a conditional.\<close>

definition step_ok :: "nat \<Rightarrow> nat \<Rightarrow> vm \<Rightarrow> vm result \<Rightarrow> bool" where
  "step_ok B k m r \<longleftrightarrow> (case r of
     Inl e \<Rightarrow> e \<noteq> Aborted
   | Inr m' \<Rightarrow> small B (stk m') \<and> small B (altstk m') \<and> nOpCount m \<le> nOpCount m' \<and> nOpCount m' \<le> 201 \<and>
       length (vfExec m') \<le> length (vfExec m) + k)"

lemma multisig_loop_fault:
  "multisig_loop ctx scr st isig ikey ns nk = Inl e \<Longrightarrow> e \<noteq> Aborted"
proof (induction nk arbitrary: isig ikey ns)
  case 0
  then show ?case
    by (subst (asm) multisig_loop.simps)
      (auto simp: Let_def bindE_eq_Inl stacktop_def split: if_splits dest: encoding_fault)
next
  case (Suc nk)
  then show ?case
    by (subst (asm) multisig_loop.simps)
      (auto simp: Let_def bindE_eq_Inl stacktop_def split: if_splits dest: encoding_fault)
qed

lemma multisig_args_fault: "multisig_args ctx m = Inl e \<Longrightarrow> e \<noteq> Aborted"
  by (auto simp: multisig_args_def Let_def bindE_eq_Inl stacktop_def split: if_splits dest: num_fault)

lemma multisig_args_ops: "multisig_args ctx m = Inr (nk, ns, ops) \<Longrightarrow> nOpCount m \<le> ops \<and> ops \<le> 201"
  by (auto simp: multisig_args_def Let_def split: if_splits)

context element_limit
begin

lemma on_stack_ok:
  assumes "op_ok B f" and "vm_inv B m"
  shows "step_ok B k m (on_stack f m)"
  using assms by (auto simp: op_ok_def step_ok_def vm_inv_def on_stack_def bindE_def split: sum.splits)

lemma multisig_finish_ok: "op_ok B (multisig_finish ctx opcode f)"
  by (auto simp: op_ok_def multisig_finish_def split: list.splits)

lemma checkmultisig_ok:
  assumes "vm_inv B m"
  shows "step_ok B k m (op_checkmultisig ctx scr opcode m)"
proof (cases "op_checkmultisig ctx scr opcode m")
  case (Inl e)
  have fin: "g \<noteq> Aborted" if "multisig_finish ctx opcode f (drop n (stk m)) = Inl g" for f n g
    using multisig_finish_ok [of ctx opcode f] small_drop [of B "stk m" n] assms that
    by (force simp: op_ok_def vm_inv_def)
  from Inl have "e \<noteq> Aborted"
    by (auto simp: op_checkmultisig_def bindE_eq_Inl dest: multisig_args_fault multisig_loop_fault fin)
  with Inl show ?thesis by (simp add: step_ok_def)
next
  case (Inr m')
  then obtain nk ns ops f n st' where a: "multisig_args ctx m = Inr (nk, ns, ops)"
    and fin: "multisig_finish ctx opcode f (drop n (stk m)) = Inr st'" and m': "m' = m\<lparr>stk := st', nOpCount := ops\<rparr>"
    by (auto simp: op_checkmultisig_def)
  have "small B st'"
    using multisig_finish_ok [of ctx opcode f] small_drop [of B "stk m" n] assms fin by (force simp: op_ok_def vm_inv_def)
  with Inr m' multisig_args_ops [OF a] assms show ?thesis by (simp add: step_ok_def vm_inv_def)
qed

lemma exec_op_ok:
  assumes "vm_inv B m" and "opcode \<le> 255"
  shows "step_ok B (of_bool (OP_16 < opcode)) m (exec_op ctx scr fExec opcode m)"
proof -
  have if_ok: "step_ok B (of_bool (OP_16 < opcode)) m (op_if opcode fExec m)" if "opcode = OP_IF \<or> opcode = OP_NOTIF"
    using assms that by (auto simp: op_if_def step_ok_def vm_inv_def Let_def split: list.splits)
  have cond_ok: "step_ok B (of_bool (OP_16 < opcode)) m (op_else m)" "step_ok B (of_bool (OP_16 < opcode)) m (op_endif m)"
    using assms by (auto simp: op_else_def op_endif_def step_ok_def vm_inv_def split: list.splits)
  have alt_ok: "step_ok B (of_bool (OP_16 < opcode)) m (op_toaltstack m)" "step_ok B (of_bool (OP_16 < opcode)) m (op_fromaltstack m)"
    using assms by (auto simp: op_toaltstack_def op_fromaltstack_def step_ok_def vm_inv_def split: list.splits)
  have table: "step_ok B (of_bool (OP_16 < opcode)) m (on_stack f m)" if "op_table ctx scr opcode = Some f" for f
    by (rule on_stack_ok [OF op_table_ok [OF that assms(2)] assms(1)])
  show ?thesis
    unfolding exec_op_def
    using if_ok cond_ok alt_ok table checkmultisig_ok [OF assms(1), of "of_bool (OP_16 < opcode)" ctx scr opcode]
    by (auto simp: step_ok_def [of _ _ _ "fail _"] split: option.split)
qed

text \<open>One turn of the loop keeps the invariant and never fails an assertion.\<close>

lemma GetOp2_opcode: "GetOp2 pc = (ok, pc', opcode, d) \<Longrightarrow> opcode \<le> 255"
proof -
  have "unat (b :: byte) \<le> 255" for b using unat_bound [of b] by simp
  then show "GetOp2 pc = (ok, pc', opcode, d) \<Longrightarrow> opcode \<le> 255"
    by (cases pc) (auto simp: GetOp2_def Let_def split: if_splits)
qed

lemma exec_step_inv:
  assumes "vm_inv B m"
  shows "case exec_step ctx scr pc m of Inl e \<Rightarrow> e \<noteq> Aborted | Inr (pc', m') \<Rightarrow> vm_inv B m'"
proof -
  obtain ok pc' opcode v where g: "GetOp2 pc = (ok, pc', opcode, v)" by (cases "GetOp2 pc")
  define m1 where "m1 = (if OP_16 < opcode then m\<lparr>nOpCount := nOpCount m + 1\<rparr> else m)"
  define fExec where "fExec = list_all id (vfExec m)"
  define body where "body = (if fExec \<and> opcode \<le> OP_PUSHDATA4
      then if fRequireMinimal ctx \<and> \<not> CheckMinimalPush v opcode then fail SCRIPT_ERR_MINIMALDATA
           else Inr (m1\<lparr>stk := v # stk m1\<rparr>)
      else if fExec \<or> (OP_IF \<le> opcode \<and> opcode \<le> OP_ENDIF) then exec_op ctx scr fExec opcode m1 else Inr m1)"
  have body_ok: "step_ok B (of_bool (OP_16 < opcode)) m1 body \<and> vm_inv B m1" if "length v \<le> MAX_SCRIPT_ELEMENT_SIZE" "\<not> (OP_16 < opcode \<and> 201 < nOpCount m1)"
  proof -
    have m1: "vm_inv B m1" using assms that(2) by (auto simp: vm_inv_def m1_def)
    have "step_ok B (of_bool (OP_16 < opcode)) m1 (exec_op ctx scr fExec opcode m1)" by (rule exec_op_ok [OF m1 GetOp2_opcode [OF g]])
    then show ?thesis using m1 that(1) lower by (auto simp: body_def step_ok_def vm_inv_def)
  qed
  have step: "exec_step ctx scr pc m =
      bindE (guardE ok (ScriptErr SCRIPT_ERR_BAD_OPCODE)) (\<lambda>_.
      bindE (guardE (length v \<le> MAX_SCRIPT_ELEMENT_SIZE) (ScriptErr SCRIPT_ERR_PUSH_SIZE)) (\<lambda>_.
      bindE (guardE (\<not> (OP_16 < opcode \<and> 201 < nOpCount m1)) (ScriptErr SCRIPT_ERR_OP_COUNT)) (\<lambda>_.
      bindE (guardE (opcode \<notin> set disabled_opcodes) (ScriptErr SCRIPT_ERR_DISABLED_OPCODE)) (\<lambda>_.
      bindE body (\<lambda>m2. bindE (guardE (length (stk m2) + length (altstk m2) \<le> 1000) (ScriptErr SCRIPT_ERR_STACK_SIZE)) (\<lambda>_.
      Inr (pc', m2)))))))"
    unfolding exec_step_def g Let_def prod.case body_def m1_def fExec_def ..
  show ?thesis
  proof (cases "exec_step ctx scr pc m")
    case (Inl e)
    then show ?thesis using body_ok unfolding step by (auto simp: bindE_eq_Inl guardE_eq_Inl step_ok_def)
  next
    case (Inr r)
    moreover have "int (length (vfExec m1)) + of_bool (OP_16 < opcode) \<le> nOpCount m1"
      using assms by (simp add: m1_def vm_inv_def)
    ultimately show ?thesis
      using body_ok unfolding step by (cases "OP_16 < opcode") (auto simp: step_ok_def vm_inv_def)
  qed
qed

end

section \<open>Runs of the machine\<close>

text \<open>The turns of the loop as a relation on the position and the machine.\<close>

inductive script_step :: "script_ctx \<Rightarrow> script \<Rightarrow> script \<times> vm \<Rightarrow> script \<times> vm \<Rightarrow> bool" for ctx scr where
  turn: "pc \<noteq> [] \<Longrightarrow> exec_step ctx scr pc m = Inr (pc', m') \<Longrightarrow> script_step ctx scr (pc, m) (pc', m')"

inductive_cases script_stepE: "script_step ctx scr (pc, m) (pc', m')"

lemma eval_loop_runs: "eval_loop ctx scr pc m = Inr m' \<Longrightarrow> (script_step ctx scr)\<^sup>*\<^sup>* (pc, m) ([], m')"
proof (induction ctx scr pc m rule: eval_loop.induct)
  case (1 ctx scr pc m)
  show ?case
  proof (cases "pc = []")
    case True
    with "1.prems" show ?thesis by (simp add: eval_loop.simps)
  next
    case False
    with "1.prems" obtain pc1 m1 where s: "exec_step ctx scr pc m = Inr (pc1, m1)" "eval_loop ctx scr pc1 m1 = Inr m'"
      by (subst (asm) eval_loop.simps) (auto split: sum.splits)
    from "1.IH" [OF False s(1) refl s(2)] script_step.turn [OF False s(1)] show ?thesis by (rule converse_rtranclp_into_rtranclp [rotated])
  qed
qed

lemma eval_loop_Nil: "eval_loop ctx scr [] m = Inr m"
  by (simp add: eval_loop.simps)

lemma eval_loop_step:
  "pc \<noteq> [] \<Longrightarrow> eval_loop ctx scr pc m = (case exec_step ctx scr pc m of Inl e \<Rightarrow> Inl e | Inr (pc', m') \<Rightarrow> eval_loop ctx scr pc' m')"
  by (subst eval_loop.simps) simp

context element_limit
begin

lemma run_inv: "(script_step ctx scr)\<^sup>*\<^sup>* c c' \<Longrightarrow> vm_inv B (snd c) \<Longrightarrow> vm_inv B (snd c')"
proof (induction rule: rtranclp_induct)
  case (step y z)
  obtain pc m pc' m' where yz: "y = (pc, m)" "z = (pc', m')" by (cases y, cases z)
  with step.hyps(2) have s: "exec_step ctx scr pc m = Inr (pc', m')" by (auto elim: script_stepE)
  from exec_step_inv [of m ctx scr pc] step.IH [OF step.prems] yz show ?case by (simp add: s)
qed

lemma eval_loop_fault: "eval_loop ctx scr pc m = Inl e \<Longrightarrow> vm_inv B m \<Longrightarrow> e \<noteq> Aborted"
proof (induction ctx scr pc m rule: eval_loop.induct)
  case (1 ctx scr pc m)
  have inv: "case exec_step ctx scr pc m of Inl e \<Rightarrow> e \<noteq> Aborted | Inr (pc', m') \<Rightarrow> vm_inv B m'"
    using "1.prems"(2) by (rule exec_step_inv)
  show ?case
  proof (cases "exec_step ctx scr pc m")
    case (Inl f)
    then show ?thesis using "1.prems"(1) inv by (subst (asm) eval_loop.simps) (auto split: if_splits)
  next
    case (Inr r)
    obtain pc' m' where r: "r = (pc', m')" by (cases r)
    have ne: "pc \<noteq> []" using "1.prems"(1) by (auto simp: eval_loop_Nil)
    have rest: "eval_loop ctx scr pc' m' = Inl e" using "1.prems"(1) eval_loop_step [OF ne, of ctx scr m] Inr r by simp
    from "1.IH" [OF ne Inr [unfolded r] refl rest] inv show ?thesis by (simp add: Inr r)
  qed
qed

end

definition start :: "bytes list \<Rightarrow> vm" where
  "start st = \<lparr>stk = st, altstk = [], vfExec = [], nOpCount = 0\<rparr>"

lemma vm_inv_start: "small B st \<Longrightarrow> length st \<le> 1000 \<Longrightarrow> vm_inv B (start st)"
  by (simp add: vm_inv_def start_def)

interpretation pushed: element_limit MAX_SCRIPT_ELEMENT_SIZE
  by unfold_locales (simp_all add: MAX_SCRIPT_ELEMENT_SIZE_def)

interpretation fulfilled: element_limit MAX_SCRIPT_CRYPTOCONDITION_FULFILLMENT_SIZE
  by unfold_locales (simp_all add: MAX_SCRIPT_ELEMENT_SIZE_def MAX_SCRIPT_CRYPTOCONDITION_FULFILLMENT_SIZE_def)

lemma EvalScript_start:
  "EvalScript ctx st scr =
     (if MAX_SCRIPT_SIZE < length scr then fail SCRIPT_ERR_SCRIPT_SIZE
      else bindE (catch_all (eval_loop ctx scr scr (start st))) (\<lambda>m.
           if vfExec m \<noteq> [] then fail SCRIPT_ERR_UNBALANCED_CONDITIONAL else Inr (stk m)))"
  by (simp add: EvalScript_def start_def)

context element_limit
begin

lemma EvalScript_sound:
  assumes "small B st" and "length st \<le> 1000"
  shows "case EvalScript ctx st scr of Inl f \<Rightarrow> \<exists>e. f = ScriptErr e | Inr st' \<Rightarrow> small B st' \<and> length st' \<le> 1000"
proof (cases "eval_loop ctx scr scr (start st)")
  case (Inl f)
  then have "f \<noteq> Aborted" using eval_loop_fault vm_inv_start [OF assms] by blast
  then show ?thesis by (cases f) (simp_all add: EvalScript_start catch_all_def Inl)
next
  case (Inr m)
  have "vm_inv B m" using run_inv [OF eval_loop_runs [OF Inr]] vm_inv_start [OF assms] by simp
  then show ?thesis by (simp add: EvalScript_start catch_all_def Inr vm_inv_def)
qed

end

text \<open>
  C19: every machine that a script reaches from a stack within the limits keeps the limits of the interpreter: at most 1000 elements on both stacks
  together, no element longer than 520 bytes, at most 201 counted operations, and no more open conditionals than
  operations.
\<close>

theorem EvalScript_limits:
  assumes "list_all (\<lambda>v. length v \<le> MAX_SCRIPT_ELEMENT_SIZE) st" and "length st \<le> 1000"
    and "(script_step ctx scr)\<^sup>*\<^sup>* (scr, start st) (pc, m)"
  shows "length (stk m) + length (altstk m) \<le> 1000 \<and>
    list_all (\<lambda>v. length v \<le> MAX_SCRIPT_ELEMENT_SIZE) (stk m @ altstk m) \<and>
    nOpCount m \<le> 201 \<and> int (length (vfExec m)) \<le> nOpCount m"
  using pushed.run_inv [OF assms(3)] vm_inv_start [of MAX_SCRIPT_ELEMENT_SIZE st] assms(1,2)
  by (simp add: vm_inv_def small_def)

text \<open>
  C20: \<^verbatim>\<open>EvalScript\<close> always ends with a script error or a stack within the limits: whatever the script, its exceptions are
  caught and none of the assertions of script numbers or of the dispatch can fail.
\<close>

theorem EvalScript_safe:
  assumes "list_all (\<lambda>v. length v \<le> MAX_SCRIPT_ELEMENT_SIZE) st" and "length st \<le> 1000"
  shows "(\<exists>e. EvalScript ctx st scr = fail e) \<or>
    (\<exists>st'. EvalScript ctx st scr = Inr st' \<and> length st' \<le> 1000 \<and>
      list_all (\<lambda>v. length v \<le> MAX_SCRIPT_ELEMENT_SIZE) st')"
  using pushed.EvalScript_sound [of st ctx scr] assms
  by (cases "EvalScript ctx st scr") (auto simp: small_def)

section \<open>Reading a script to its end\<close>

text \<open>The opcodes of a script, whether it is executed or not; \<^const>\<open>None\<close> if an instruction is cut off.\<close>

function instrs :: "script \<Rightarrow> opcodetype list option" where
  "instrs pc =
     (if pc = [] then Some []
      else case GetOp2 pc of (ok, pc', opcode, _) \<Rightarrow> if ok then map_option ((#) opcode) (instrs pc') else None)"
  by pat_completeness auto
termination
  by (relation "measure length") (auto dest: GetOp2_shrinks [OF sym])

declare instrs.simps [simp del]

text \<open>The depth of the conditionals after each opcode: \<^const>\<open>None\<close> if one is closed or continued that is not open.\<close>

primrec nesting :: "opcodetype list \<Rightarrow> nat \<Rightarrow> nat option" where
  "nesting [] d = Some d"
| "nesting (opcode # ops) d =
     (if opcode = OP_IF \<or> opcode = OP_NOTIF then nesting ops (d + 1)
      else if opcode = OP_ELSE then (if d = 0 then None else nesting ops d)
      else if opcode = OP_ENDIF then (if d = 0 then None else nesting ops (d - 1))
      else nesting ops d)"

lemma on_stack_vfExec: "on_stack f m = Inr m' \<Longrightarrow> vfExec m' = vfExec m"
  by (auto simp: on_stack_def)

lemma exec_op_nesting:
  assumes "exec_op ctx scr fExec opcode m = Inr m'"
  shows "nesting (opcode # ops) (length (vfExec m)) = nesting ops (length (vfExec m'))"
  using assms
  by (auto simp: exec_op_def op_if_def op_else_def op_endif_def op_toaltstack_def op_fromaltstack_def op_checkmultisig_def Let_def
      split: if_splits list.splits option.splits dest: on_stack_vfExec)

lemma exec_step_reads:
  assumes "exec_step ctx scr pc m = Inr (pc', m')" and "pc \<noteq> []"
  obtains opcode where "instrs pc = map_option ((#) opcode) (instrs pc')" and "opcode \<notin> set disabled_opcodes"
    and "\<And>ops. nesting (opcode # ops) (length (vfExec m)) = nesting ops (length (vfExec m'))"
proof -
  obtain ok pc1 opcode v where g: "GetOp2 pc = (ok, pc1, opcode, v)" by (cases "GetOp2 pc")
  have s: "ok" "pc1 = pc'" "opcode \<notin> set disabled_opcodes"
    using assms(1) by (auto simp: exec_step_def g Let_def)
  have "instrs pc = map_option ((#) opcode) (instrs pc')" using assms(2) s g by (subst instrs.simps) simp
  moreover have "nesting (opcode # ops) (length (vfExec m)) = nesting ops (length (vfExec m'))" for ops
    using assms(1) exec_op_nesting [of ctx scr _ opcode _ m' ops]
    by (auto simp: exec_step_def g Let_def split: if_splits dest!: exec_op_nesting [of _ _ _ _ _ _ ops])
  ultimately show ?thesis using s(3) that by blast
qed

lemma eval_loop_reads:
  "eval_loop ctx scr pc m = Inr m' \<Longrightarrow> \<exists>ops. instrs pc = Some ops \<and> set ops \<inter> set disabled_opcodes = {} \<and>
     nesting ops (length (vfExec m)) = Some (length (vfExec m'))"
proof (induction ctx scr pc m rule: eval_loop.induct)
  case (1 ctx scr pc m)
  show ?case
  proof (cases "pc = []")
    case True
    with "1.prems" show ?thesis by (simp add: eval_loop_Nil instrs.simps)
  next
    case False
    then obtain pc1 m1 where s: "exec_step ctx scr pc m = Inr (pc1, m1)" "eval_loop ctx scr pc1 m1 = Inr m'"
      using "1.prems" eval_loop_step [OF False, of ctx scr m] by (auto split: sum.splits)
    from "1.IH" [OF False s(1) refl s(2)] exec_step_reads [OF s(1) False] show ?thesis
      by (metis (no_types, lifting) Int_insert_left list.simps(15) option.simps(9))
  qed
qed

text \<open>
  C23: a script that evaluates successfully can be read to its end, contains no disabled opcode, in an executed branch or
  not, and its conditionals are balanced.
\<close>

theorem EvalScript_wellformed:
  assumes "EvalScript ctx st scr = Inr st'"
  shows "\<exists>ops. instrs scr = Some ops \<and> set ops \<inter> set disabled_opcodes = {} \<and> nesting ops 0 = Some 0 \<and>
    length scr \<le> MAX_SCRIPT_SIZE"
proof -
  from assms obtain m where "eval_loop ctx scr scr (start st) = Inr m" "vfExec m = []" "length scr \<le> MAX_SCRIPT_SIZE"
    by (auto simp: EvalScript_start catch_all_def split: if_splits)
  from eval_loop_reads [OF this(1)] this(2,3) show ?thesis by (simp add: start_def)
qed

end
