(* ===== verification/Spends.thy ===== *)
theory Spends
  imports InterpreterLimits "HOL-Library.Sublist"
begin

text \<open>
  The outcome of \<^verbatim>\<open>VerifyScript\<close> and \<^verbatim>\<open>EvalScript\<close> for the standard kinds of spends: pay to public key hash, pay to script
  hash, multiple signatures, and scripts that cannot be spent.
\<close>

section \<open>Symbolic execution\<close>

lemma GetOp2_op:
  "OP_PUSHDATA4 < unat b \<Longrightarrow> GetOp2 (b # rest) = (True, rest, unat b, [])"
  by (simp add: GetOp2_def)

lemma GetOp2_direct:
  "0 < unat b \<Longrightarrow> unat b < OP_PUSHDATA1 \<Longrightarrow> length d = unat b \<Longrightarrow> GetOp2 (b # d @ rest) = (True, rest, unat b, d)"
  by (simp add: GetOp2_def)

text \<open>An executed opcode above \<^verbatim>\<open>OP_16\<close> that is not disabled.\<close>

lemma eval_op:
  assumes "OP_16 < unat b" and "unat b \<notin> set disabled_opcodes" and "list_all id (vfExec m)" and "nOpCount m < 201"
  shows "eval_loop ctx scr (b # rest) m =
    bindE (exec_op ctx scr True (unat b) (m\<lparr>nOpCount := nOpCount m + 1\<rparr>)) (\<lambda>m'.
    if length (stk m') + length (altstk m') \<le> 1000 then eval_loop ctx scr rest m' else fail SCRIPT_ERR_STACK_SIZE)"
proof -
  have "exec_step ctx scr (b # rest) m =
      bindE (exec_op ctx scr True (unat b) (m\<lparr>nOpCount := nOpCount m + 1\<rparr>)) (\<lambda>m'.
      bindE (guardE (length (stk m') + length (altstk m') \<le> 1000) (ScriptErr SCRIPT_ERR_STACK_SIZE)) (\<lambda>_. Inr (rest, m')))"
    using assms by (simp add: exec_step_def GetOp2_op Let_def MAX_SCRIPT_ELEMENT_SIZE_def)
  then show ?thesis
    by (subst eval_loop_step) (auto simp: bindE_def guardE_def split: sum.splits)
qed

text \<open>An executed direct push that is minimal, or where minimal pushes are not required.\<close>

lemma disabled_above: "opcode \<in> set disabled_opcodes \<Longrightarrow> OP_16 < opcode"
  by (auto simp: disabled_opcodes_def)

lemma eval_push:
  assumes "length d = unat b" and "0 < unat b" and "unat b < OP_PUSHDATA1" and "list_all id (vfExec m)"
    and "2 \<le> length d \<or> \<not> fRequireMinimal ctx" and "length (stk m) + length (altstk m) < 1000"
  shows "eval_loop ctx scr (b # d @ rest) m = eval_loop ctx scr rest (m\<lparr>stk := d # stk m\<rparr>)"
proof -
  have "unat b \<notin> set disabled_opcodes" using disabled_above [of "unat b"] assms(3) by auto
  then have "exec_step ctx scr (b # d @ rest) m = Inr (rest, m\<lparr>stk := d # stk m\<rparr>)"
    using assms by (auto simp: exec_step_def GetOp2_direct Let_def MAX_SCRIPT_ELEMENT_SIZE_def CheckMinimalPush_def)
  then show ?thesis by (subst eval_loop_step) simp_all
qed

lemma hash160_op: "hash_op OP_HASH160 v = Some (hash160_spec v)"
  using Hash_spec(4) [of v] by (simp add: hash_op_def Hash160_def)

text \<open>The five instructions of a pay-to-public-key-hash script.\<close>

definition p2pkh :: "bytes \<Rightarrow> script" where
  "p2pkh h = [word_of_nat OP_DUP, word_of_nat OP_HASH160, 20] @ h @ [word_of_nat OP_EQUALVERIFY, word_of_nat OP_CHECKSIG]"

lemma p2pkh_form: "length h = 20 \<Longrightarrow> IsPayToPublicKeyHash (p2pkh h)"
  by (simp add: IsPayToPublicKeyHash_def p2pkh_def nth_append)

lemma form_p2pkh:
  assumes "IsPayToPublicKeyHash scr"
  shows "scr = p2pkh (take 20 (drop 3 scr)) \<and> length (take 20 (drop 3 scr)) = 20"
proof -
  have l: "length scr = 25" and b: "unat (scr ! 0) = OP_DUP" "unat (scr ! 1) = OP_HASH160" "scr ! 2 = 0x14"
    "unat (scr ! 23) = OP_EQUALVERIFY" "unat (scr ! 24) = OP_CHECKSIG"
    using assms by (simp_all add: IsPayToPublicKeyHash_def)
  have w: "x = word_of_nat n" if "unat x = n" for x :: byte and n using that by auto
  show ?thesis
  proof (intro conjI nth_equalityI)
    fix i assume "i < length scr"
    then consider "i = 0" | "i = 1" | "i = 2" | "3 \<le> i" "i < 23" | "i = 23" | "i = 24" using l by linarith
    then show "scr ! i = p2pkh (take 20 (drop 3 scr)) ! i"
      using l b by cases (auto simp: p2pkh_def nth_append nth_Cons' dest!: w)
  qed (use l in \<open>simp_all add: p2pkh_def\<close>)
qed

lemma EvalScript_p2pkh:
  assumes "length h = 20" and "length r \<le> 900"
  shows "EvalScript ctx (pubkey # sig # r) (p2pkh h) =
    (if hash160_spec pubkey \<noteq> h then fail SCRIPT_ERR_EQUALVERIFY
     else bindE (CheckSignatureEncoding ctx sig) (\<lambda>_. bindE (CheckPubKeyEncoding ctx pubkey) (\<lambda>_.
          Inr (bool_vch (chkSig (checker ctx) sig pubkey (p2pkh h) (branchId ctx)) # r))))"
proof -
  let ?scr = "p2pkh h"
  have len: "length ?scr \<le> MAX_SCRIPT_SIZE" using assms by (simp add: p2pkh_def MAX_SCRIPT_SIZE_def)
  have nd: "OP_DUP \<notin> set disabled_opcodes" "OP_HASH160 \<notin> set disabled_opcodes" "OP_EQUALVERIFY \<notin> set disabled_opcodes"
    "OP_CHECKSIG \<notin> set disabled_opcodes" by (simp_all add: disabled_opcodes_def)
  let ?m = "\<lambda>st n. \<lparr>stk = st, altstk = [], vfExec = [], nOpCount = n\<rparr>"
  have 1: "eval_loop ctx ?scr (word_of_nat OP_DUP # rest) (?m (pubkey # sig # r) 0) = eval_loop ctx ?scr rest (?m (pubkey # pubkey # sig # r) 1)" for rest
    using assms nd by (subst eval_op) (simp_all add: exec_op_def op_table_def on_stack_def op_dup_def)
  have 2: "eval_loop ctx ?scr (word_of_nat OP_HASH160 # rest) (?m (pubkey # pubkey # sig # r) 1) =
      eval_loop ctx ?scr rest (?m (hash160_spec pubkey # pubkey # sig # r) 2)" for rest
    using assms nd by (subst eval_op) (simp_all add: exec_op_def op_table_def on_stack_def op_hash_def hash160_op)
  have 3: "eval_loop ctx ?scr (20 # h @ rest) (?m (hash160_spec pubkey # pubkey # sig # r) 2) =
      eval_loop ctx ?scr rest (?m (h # hash160_spec pubkey # pubkey # sig # r) 2)" for rest
    using assms by (subst eval_push) simp_all
  have 4: "eval_loop ctx ?scr (word_of_nat OP_EQUALVERIFY # rest) (?m (h # hash160_spec pubkey # pubkey # sig # r) 2) =
      (if hash160_spec pubkey \<noteq> h then fail SCRIPT_ERR_EQUALVERIFY else eval_loop ctx ?scr rest (?m (pubkey # sig # r) 3))" for rest
    using assms nd by (subst eval_op) (simp_all add: exec_op_def op_table_def on_stack_def op_equal_def)
  have 5: "eval_loop ctx ?scr [word_of_nat OP_CHECKSIG] (?m (pubkey # sig # r) 3) =
      bindE (CheckSignatureEncoding ctx sig) (\<lambda>_. bindE (CheckPubKeyEncoding ctx pubkey) (\<lambda>_.
      Inr (?m (bool_vch (chkSig (checker ctx) sig pubkey ?scr (branchId ctx)) # r) 4)))"
    using assms nd
    by (subst eval_op) (simp_all add: exec_op_def op_table_def on_stack_def op_checksig_def bindE_assoc eval_loop_Nil Let_def)
  have loop: "eval_loop ctx ?scr ?scr (start (pubkey # sig # r)) =
      (if hash160_spec pubkey \<noteq> h then fail SCRIPT_ERR_EQUALVERIFY
       else bindE (CheckSignatureEncoding ctx sig) (\<lambda>_. bindE (CheckPubKeyEncoding ctx pubkey) (\<lambda>_.
         Inr (?m (bool_vch (chkSig (checker ctx) sig pubkey ?scr (branchId ctx)) # r) 4))))"
    unfolding start_def by (subst (2) p2pkh_def) (simp only: append_Cons append_Nil 1 2 3 4 5)
  have catch: "catch_all (bindE (CheckSignatureEncoding ctx sig) (\<lambda>_. bindE (CheckPubKeyEncoding ctx pubkey) (\<lambda>_. Inr x))) =
      bindE (CheckSignatureEncoding ctx sig) (\<lambda>_. bindE (CheckPubKeyEncoding ctx pubkey) (\<lambda>_. Inr x))" for x :: vm
    by (auto simp: catch_all_def bindE_eq_Inl dest: encoding_fault)
  show ?thesis
    unfolding EvalScript_start loop using len
    by (cases "hash160_spec pubkey = h") (simp_all add: catch bindE_assoc, simp add: catch_all_def)
qed

lemma push_data_direct: "length d < 76 \<Longrightarrow> push_data scr d = scr @ word_of_nat (length d) # d"
  by (simp add: push_data_def)

lemma unat_len: "n < 256 \<Longrightarrow> unat (word_of_nat n :: byte) = n"
  by (rule unat_of_nat_small) simp

definition two_pushes :: "bytes \<Rightarrow> bytes \<Rightarrow> script" where
  "two_pushes a b = push_data (push_data [] a) b"

lemma EvalScript_two_pushes:
  assumes "2 \<le> length a" "length a \<le> 75" "2 \<le> length b" "length b \<le> 75"
  shows "EvalScript ctx [] (two_pushes a b) = Inr [b, a]"
proof -
  let ?scr = "two_pushes a b"
  have s: "?scr = word_of_nat (length a) # a @ (word_of_nat (length b) # b @ [])"
    using assms by (simp add: two_pushes_def push_data_direct)
  have "eval_loop ctx ?scr ?scr (start []) = eval_loop ctx ?scr [] ((start [])\<lparr>stk := [b, a]\<rparr>)"
  proof -
    have push: "eval_loop ctx ?scr (word_of_nat (length d) # d @ rest) m = eval_loop ctx ?scr rest (m\<lparr>stk := d # stk m\<rparr>)"
      if "2 \<le> length d" "length d \<le> 75" "vfExec m = []" "length (stk m) + length (altstk m) < 1000" for d rest m
      by (rule eval_push) (use that in \<open>auto simp: unat_len\<close>)
    show ?thesis
      by (subst (2) s, subst push [OF assms(1,2)], simp_all add: start_def, subst push [where rest = "[]", simplified])
        (use assms in simp_all)
  qed
  moreover have "length ?scr \<le> MAX_SCRIPT_SIZE" using assms by (simp add: s MAX_SCRIPT_SIZE_def)
  ultimately show ?thesis by (simp add: EvalScript_start eval_loop_Nil catch_all_def start_def)
qed

lemma IsPushOnly_step: "GetOp2 pc = (True, pc', opcode, d) \<Longrightarrow> opcode \<le> OP_16 \<Longrightarrow> pc \<noteq> [] \<Longrightarrow> IsPushOnly pc = IsPushOnly pc'"
  by (subst IsPushOnly.simps) simp

lemma IsPushOnly_two_pushes:
  assumes "1 \<le> length a" "length a \<le> 75" "1 \<le> length b" "length b \<le> 75"
  shows "IsPushOnly (two_pushes a b)"
proof -
  have s: "two_pushes a b = word_of_nat (length a) # a @ (word_of_nat (length b) # b @ [])"
    using assms by (simp add: two_pushes_def push_data_direct)
  have "IsPushOnly (word_of_nat (length d) # d @ rest) = IsPushOnly rest" if "1 \<le> length d" "length d \<le> 75" for d rest
    by (rule IsPushOnly_step [OF GetOp2_direct]) (use that in \<open>auto simp: unat_len\<close>)
  then show ?thesis using assms by (simp add: s del: append_Nil2) (simp add: IsPushOnly.simps)
qed

lemma not_cc: "OP_PUSHDATA4 < unat b \<Longrightarrow> IsPayToCryptoCondition (b # rest) = None"
  by (simp add: IsPayToCryptoCondition_def GetOp2_op)

lemma CastToBool_bool_vch [simp]: "CastToBool (bool_vch b) = b"
  by (simp add: bool_vch_def vchTrue_def vchFalse_def)

text \<open>
  C18: a spend of a pay-to-public-key-hash output by a signature and a public key, on every branch: it fails with
  \<^verbatim>\<open>EQUALVERIFY\<close> when the key does not hash to the output's hash, with the error of the encoding rules when one is
  broken, with \<^verbatim>\<open>EVAL_FALSE\<close> when the signature check fails, and succeeds otherwise.
\<close>

theorem VerifyScript_p2pkh:
  assumes "IsPayToPublicKeyHash spk" and "2 \<le> length sig" "length sig \<le> 75" and "2 \<le> length pubkey" "length pubkey \<le> 75"
    and "has_flag ctx SCRIPT_VERIFY_CLEANSTACK \<Longrightarrow> has_flag ctx SCRIPT_VERIFY_P2SH"
  shows "VerifyScript ctx (push_data (push_data [] sig) pubkey) spk =
    (if hash160_spec pubkey \<noteq> take 20 (drop 3 spk) then fail SCRIPT_ERR_EQUALVERIFY
     else bindE (CheckSignatureEncoding ctx sig) (\<lambda>_. bindE (CheckPubKeyEncoding ctx pubkey) (\<lambda>_.
       if chkSig (checker ctx) sig pubkey spk (branchId ctx) then Inr () else fail SCRIPT_ERR_EVAL_FALSE)))"
proof -
  define h where "h = take 20 (drop 3 spk)"
  have spk: "spk = p2pkh h" and h: "length h = 20" using form_p2pkh [OF assms(1)] by (simp_all add: h_def)
  note two = EvalScript_two_pushes [OF assms(2-5), of ctx, unfolded two_pushes_def]
  have po: "IsPushOnly (push_data (push_data [] sig) pubkey)"
    using IsPushOnly_two_pushes [of sig pubkey, unfolded two_pushes_def] assms(2-5) by simp
  have cc: "IsPayToCryptoCondition spk = None" unfolding spk p2pkh_def by (simp add: not_cc)
  have sh: "\<not> IsPayToScriptHash spk" using h by (simp add: spk p2pkh_def IsPayToScriptHash_def)
  have ev: "EvalScript ctx [pubkey, sig] spk = (if hash160_spec pubkey \<noteq> h then fail SCRIPT_ERR_EQUALVERIFY
     else bindE (CheckSignatureEncoding ctx sig) (\<lambda>_. bindE (CheckPubKeyEncoding ctx pubkey) (\<lambda>_.
          Inr [bool_vch (chkSig (checker ctx) sig pubkey spk (branchId ctx))])))"
    using EvalScript_p2pkh [OF h, of "[]" ctx pubkey sig] by (simp add: spk)
  show ?thesis
    unfolding VerifyScript_def h_def [symmetric] using po cc sh two assms(6)
    by (simp add: ev bindE_assoc final_true_def Let_def)
qed

text \<open>A script that \<^verbatim>\<open>IsUnspendable\<close> says can never be spent indeed fails on every stack, with the expected error.\<close>

lemma unspendable_fails:
  assumes "IsUnspendable scr"
  shows "EvalScript ctx st scr = (if MAX_SCRIPT_SIZE < length scr then fail SCRIPT_ERR_SCRIPT_SIZE else fail SCRIPT_ERR_OP_RETURN)"
proof (cases "MAX_SCRIPT_SIZE < length scr")
  case True
  then show ?thesis by (simp add: EvalScript_def)
next
  case False
  then obtain b rest where s: "scr = b # rest" "unat b = OP_RETURN"
    using assms by (cases scr) (auto simp: IsUnspendable_def)
  have nd: "OP_RETURN \<notin> set disabled_opcodes" by (simp add: disabled_opcodes_def)
  have "eval_loop ctx scr (b # rest) (start st) = fail SCRIPT_ERR_OP_RETURN"
    by (subst eval_op) (use nd s(2) in \<open>simp_all add: start_def exec_op_def op_table_def on_stack_def\<close>)
  then show ?thesis using False s(1) by (simp add: EvalScript_start catch_all_def)
qed

section \<open>Matching signatures with keys\<close>

text \<open>What \<^verbatim>\<open>CHECKMULTISIG\<close> decides: the signatures match, in order, a selection of the keys.\<close>

definition matches :: "('s \<Rightarrow> 'k \<Rightarrow> bool) \<Rightarrow> 's list \<Rightarrow> 'k list \<Rightarrow> bool" where
  "matches P ss ks \<longleftrightarrow> (\<exists>ks'. subseq ks' ks \<and> list_all2 P ss ks')"

lemma matches_Nil [simp]: "matches P [] ks"
  by (auto simp: matches_def)

lemma matches_length: "matches P ss ks \<Longrightarrow> length ss \<le> length ks"
  by (auto simp: matches_def dest!: list_all2_lengthD list_emb_length)

lemma matches_Cons:
  "matches P (s' # ss) (k # ks) \<longleftrightarrow> (if P s' k then matches P ss ks else matches P (s' # ss) ks)"
proof
  assume "matches P (s' # ss) (k # ks)"
  then obtain k' ks' where sub: "subseq (k' # ks') (k # ks)" and p: "P s' k'" "list_all2 P ss ks'"
    by (auto simp: matches_def list_all2_Cons1)
  show "if P s' k then matches P ss ks else matches P (s' # ss) ks"
  proof (cases "P s' k")
    case True
    have "subseq ks' ks" using sub by (metis subseq_Cons' subseq_Cons2_iff)
    with True p(2) show ?thesis by (auto simp: matches_def)
  next
    case False
    then have "k' \<noteq> k" using p(1) by auto
    then have "subseq (k' # ks') ks" using sub by (simp add: subseq_Cons2_neq)
    with False p show ?thesis by (auto simp: matches_def intro!: exI [of _ "k' # ks'"])
  qed
next
  assume a: "if P s' k then matches P ss ks else matches P (s' # ss) ks"
  show "matches P (s' # ss) (k # ks)"
  proof (cases "P s' k")
    case True
    with a obtain ks' where "subseq ks' ks" "list_all2 P ss ks'" by (auto simp: matches_def)
    with True show ?thesis by (auto simp: matches_def intro!: exI [of _ "k # ks'"])
  next
    case False
    with a show ?thesis by (auto simp: matches_def intro: list_emb_Cons)
  qed
qed

lemma stacktop_nth: "i < length st \<Longrightarrow> stacktop st (i + 1) = Inr (st ! i)"
  by (simp add: stacktop_def)

lemma take_drop_Cons: "0 < n \<Longrightarrow> i < length xs \<Longrightarrow> take n (drop i xs) = xs ! i # take (n - 1) (drop (i + 1) xs)"
  by (cases n) (simp_all add: Cons_nth_drop_Suc [symmetric])

lemma multisig_loop_matches:
  assumes "ns \<le> nk" and "isig + ns \<le> length st" and "ikey + nk \<le> length st"
    and "\<And>v. v \<in> set (take ns (drop isig st)) \<Longrightarrow> CheckSignatureEncoding ctx v = Inr ()"
    and "\<And>v. v \<in> set (take nk (drop ikey st)) \<Longrightarrow> CheckPubKeyEncoding ctx v = Inr ()"
  shows "multisig_loop ctx scr st (isig + 1) (ikey + 1) ns nk =
    Inr (matches (\<lambda>v k. chkSig (checker ctx) v k scr (branchId ctx)) (take ns (drop isig st)) (take nk (drop ikey st)))"
  using assms
proof (induction nk arbitrary: ns isig ikey)
  case 0
  then show ?case by (simp add: multisig_loop.simps)
next
  case (Suc nk)
  let ?P = "\<lambda>v k. chkSig (checker ctx) v k scr (branchId ctx)"
  show ?case
  proof (cases "ns = 0")
    case True
    then show ?thesis by (simp add: multisig_loop.simps)
  next
    case False
    let ?s = "st ! isig" and ?k = "st ! ikey"
    have sigs: "take ns (drop isig st) = ?s # take (ns - 1) (drop (isig + 1) st)"
      using False Suc.prems(2) by (intro take_drop_Cons) simp_all
    have keys: "take (Suc nk) (drop ikey st) = ?k # take nk (drop (ikey + 1) st)"
      using Suc.prems(3) take_drop_Cons [of "Suc nk" ikey st] by simp
    have enc: "CheckSignatureEncoding ctx ?s = Inr ()" "CheckPubKeyEncoding ctx ?k = Inr ()"
      using Suc.prems(4) [of ?s] Suc.prems(5) [of ?k] by (simp_all add: sigs keys)
    have top: "stacktop st (isig + 1) = Inr ?s" "stacktop st (ikey + 1) = Inr ?k"
      using Suc.prems(2,3) False by (intro stacktop_nth; simp)+
    show ?thesis
    proof (cases "?P ?s ?k")
      case True
      have "multisig_loop ctx scr st (isig + 1 + 1) (ikey + 1 + 1) (ns - 1) nk =
          Inr (matches ?P (take (ns - 1) (drop (isig + 1) st)) (take nk (drop (ikey + 1) st)))"
        by (rule Suc.IH) (use Suc.prems False sigs keys in auto)
      then show ?thesis
        using True Suc.prems(1) False
        by (subst multisig_loop.simps) (simp add: top [simplified] enc sigs keys matches_Cons Let_def)
    next
      case no: False
      show ?thesis
      proof (cases "ns = Suc nk")
        case True
        then have "\<not> matches ?P (take ns (drop isig st)) (take nk (drop (ikey + 1) st))"
          using matches_length [of ?P "take ns (drop isig st)" "take nk (drop (ikey + 1) st)"] Suc.prems(2) by auto
        then have nm: "\<not> matches ?P (take ns (drop isig st)) (take (Suc nk) (drop ikey st))"
          using no unfolding keys sigs matches_Cons by simp
        then show ?thesis
          using no True False by (subst multisig_loop.simps) (simp add: top [simplified] enc Let_def)
      next
        case F: False
        have "multisig_loop ctx scr st (isig + 1) (ikey + 1 + 1) ns nk =
            Inr (matches ?P (take ns (drop isig st)) (take nk (drop (ikey + 1) st)))"
          by (rule Suc.IH) (use Suc.prems F keys in auto)
        then show ?thesis
          using no Suc.prems(1) False F
          by (subst multisig_loop.simps) (simp add: top [simplified] enc sigs keys matches_Cons Let_def)
      qed
    qed
  qed
qed

lemma num_serialize: "\<bar>v\<bar> < 2 ^ 31 \<Longrightarrow> num ctx (serialize v) = Inr v"
  unfolding num_def nDefaultMaxNumSize_def by (rule CScriptNum_serialize) simp_all

lemma getint_small: "\<bar>v\<bar> < 2 ^ 31 \<Longrightarrow> getint v = v"
  by (auto simp: getint_def)

text \<open>
  C22: \<^verbatim>\<open>OP_CHECKMULTISIG\<close> with well-formed keys and signatures pushes true exactly when the signatures match, in their order,
  a selection of the keys: the loop with its early exit decides the existence of such a matching. It consumes
  the counts, the keys, the signatures and one extra element, and adds the number of keys to the operation count.
\<close>

theorem checkmultisig_matches:
  assumes "stk m = serialize (int nk) # keys @ serialize (int ns) # sigs @ dummy # rest"
    and "length keys = nk" and "length sigs = ns" and "ns \<le> nk" and "nk \<le> 20" and "nOpCount m + int nk \<le> 201"
    and "list_all (\<lambda>v. CheckSignatureEncoding ctx v = Inr ()) sigs"
    and "list_all (\<lambda>k. CheckPubKeyEncoding ctx k = Inr ()) keys"
    and "has_flag ctx SCRIPT_VERIFY_NULLDUMMY \<longrightarrow> dummy = []"
  shows "op_checkmultisig ctx scr OP_CHECKMULTISIG m = Inr (m\<lparr>stk :=
      bool_vch (matches (\<lambda>v k. chkSig (checker ctx) v k scr (branchId ctx)) sigs keys) # rest,
      nOpCount := nOpCount m + int nk\<rparr>)"
proof -
  let ?st = "stk m"
  have nth: "?st ! (nk + 1) = serialize (int ns)" using assms(1,2) by (simp add: nth_append)
  have len: "length ?st = nk + ns + 3 + length rest" using assms(1-3) by simp
  have ksub: "take nk (drop 1 ?st) = keys" using assms(1,2) by simp
  have d2: "drop (nk + 2) ?st = sigs @ dummy # rest" using assms(1,2) by simp
  then have ssub: "take ns (drop (nk + 2) ?st) = sigs" using assms(3) by simp
  have small: "\<bar>int nk\<bar> < 2 ^ 31" "\<bar>int ns\<bar> < 2 ^ 31" using assms(4,5) by simp_all
  have args: "multisig_args ctx m = Inr (nk, ns, nOpCount m + int nk)"
    unfolding multisig_args_def Let_def
    using assms(1,4-6) len nth small num_serialize [of "int nk" ctx] num_serialize [of "int ns" ctx]
    by (simp add: stacktop_def getint_small)
  have loop: "multisig_loop ctx scr ?st (nk + 2 + 1) (1 + 1) ns nk =
      Inr (matches (\<lambda>v k. chkSig (checker ctx) v k scr (branchId ctx)) sigs keys)"
    unfolding ksub [symmetric] ssub [symmetric]
    by (rule multisig_loop_matches) (use assms(4,7,8) len in \<open>simp_all add: ksub [simplified] ssub [simplified] list_all_iff\<close>)
  have "drop (nk + ns + 2) ?st = drop ns (drop (nk + 2) ?st)" by (simp add: add.commute add.left_commute)
  also have "\<dots> = dummy # rest" unfolding d2 using assms(3) by simp
  finally have fin: "multisig_finish ctx OP_CHECKMULTISIG f (drop (nk + ns + 2) ?st) = Inr (bool_vch f # rest)" for f
    using assms(9) by (simp add: multisig_finish_def)
  show ?thesis using loop fin by (simp add: op_checkmultisig_def args numeral_3_eq_3 numeral_2_eq_2)
qed

section \<open>Pay to script hash\<close>

definition p2sh :: "bytes \<Rightarrow> script" where
  "p2sh h = [word_of_nat OP_HASH160, 20] @ h @ [word_of_nat OP_EQUAL]"

lemma form_p2sh:
  assumes "IsPayToScriptHash scr"
  shows "scr = p2sh (take 20 (drop 2 scr)) \<and> length (take 20 (drop 2 scr)) = 20"
proof -
  have l: "length scr = 23" and b: "unat (scr ! 0) = OP_HASH160" "scr ! 1 = 0x14" "unat (scr ! 22) = OP_EQUAL"
    using assms by (simp_all add: IsPayToScriptHash_def)
  have w: "x = word_of_nat n" if "unat x = n" for x :: byte and n using that by auto
  show ?thesis
  proof (intro conjI nth_equalityI)
    fix i assume "i < length scr"
    then consider "i = 0" | "i = 1" | "2 \<le> i" "i < 22" "Suc (Suc (i - Suc (Suc 0))) = i" | "i = 22" using l by linarith
    then show "scr ! i = p2sh (take 20 (drop 2 scr)) ! i"
      using l b by cases (auto simp: p2sh_def nth_append nth_Cons' dest!: w)
  qed (use l in \<open>simp_all add: p2sh_def\<close>)
qed

lemma EvalScript_p2sh_empty: "length h = 20 \<Longrightarrow> EvalScript ctx [] (p2sh h) = bad_stack"
proof -
  assume h: "length h = 20"
  have nd: "OP_HASH160 \<notin> set disabled_opcodes" by (simp add: disabled_opcodes_def)
  have "eval_loop ctx (p2sh h) (word_of_nat OP_HASH160 # rest) (start []) = bad_stack" for rest
    by (subst eval_op) (use nd in \<open>simp_all add: start_def exec_op_def op_table_def on_stack_def op_hash_def\<close>)
  then have "eval_loop ctx (p2sh h) (p2sh h) (start []) = bad_stack" by (subst (2) p2sh_def) simp
  then show ?thesis using h by (simp add: EvalScript_start catch_all_def) (simp add: p2sh_def MAX_SCRIPT_SIZE_def)
qed

lemma EvalScript_p2sh:
  assumes "length h = 20" and "length r \<le> 999"
  shows "EvalScript ctx (pk # r) (p2sh h) =
    (if length r = 999 then fail SCRIPT_ERR_STACK_SIZE else Inr (bool_vch (hash160_spec pk = h) # r))"
proof -
  let ?scr = "p2sh h"
  let ?m = "\<lambda>st n. \<lparr>stk = st, altstk = [], vfExec = [], nOpCount = n\<rparr>"
  have nd: "OP_HASH160 \<notin> set disabled_opcodes" "OP_EQUAL \<notin> set disabled_opcodes" by (simp_all add: disabled_opcodes_def)
  have 1: "eval_loop ctx ?scr (word_of_nat OP_HASH160 # rest) (?m (pk # r) 0) = eval_loop ctx ?scr rest (?m (hash160_spec pk # r) 1)" for rest
    using assms nd by (subst eval_op) (simp_all add: exec_op_def op_table_def on_stack_def op_hash_def hash160_op)
  have 2: "eval_loop ctx ?scr (20 # h @ rest) (?m (hash160_spec pk # r) 1) =
      (if length r = 999 then fail SCRIPT_ERR_STACK_SIZE else eval_loop ctx ?scr rest (?m (h # hash160_spec pk # r) 1))" for rest
  proof (cases "length r = 999")
    case True
    have "unat (20 :: byte) \<notin> set disabled_opcodes" using disabled_above [of "unat (20 :: byte)"] by auto
    then have "exec_step ctx ?scr (20 # h @ rest) (?m (hash160_spec pk # r) 1) = fail SCRIPT_ERR_STACK_SIZE"
      using assms True GetOp2_direct [of 20 h rest]
      by (simp add: exec_step_def Let_def MAX_SCRIPT_ELEMENT_SIZE_def CheckMinimalPush_def)
    then show ?thesis using True by (subst eval_loop_step) simp_all
  next
    case False
    then show ?thesis using assms by (subst eval_push) simp_all
  qed
  have 3: "eval_loop ctx ?scr [word_of_nat OP_EQUAL] (?m (h # hash160_spec pk # r) 1) = Inr (?m (bool_vch (hash160_spec pk = h) # r) 2)"
    if "length r < 999"
    using assms nd that by (subst eval_op) (simp_all add: exec_op_def op_table_def on_stack_def op_equal_def eval_loop_Nil)
  have "eval_loop ctx ?scr ?scr (start (pk # r)) =
      (if length r = 999 then fail SCRIPT_ERR_STACK_SIZE else Inr (?m (bool_vch (hash160_spec pk = h) # r) 2))"
    unfolding start_def by (subst (2) p2sh_def) (use 3 assms(2) in \<open>simp add: 1 [simplified] 2\<close>)
  then show ?thesis using assms
    by (cases "length r = 999") (simp_all add: EvalScript_start catch_all_def p2sh_def [of h] MAX_SCRIPT_SIZE_def)
qed

text \<open>
  C17: a spend of a pay-to-script-hash output succeeds exactly when the script signature only pushes, leaves a redeem
  script with the right hash on top of fewer than 1000 elements, and the redeem script, run on the rest of the
  stack, leaves a true element on top, which is the only one where a clean stack is required.
\<close>

theorem VerifyScript_p2sh:
  assumes "has_flag ctx SCRIPT_VERIFY_P2SH" and "IsPayToScriptHash spk"
  shows "VerifyScript ctx scriptSig spk = Inr () \<longleftrightarrow>
    IsPushOnly scriptSig \<and>
    (\<exists>redeem rest st. EvalScript ctx [] scriptSig = Inr (redeem # rest) \<and> length rest < 999 \<and>
       hash160_spec redeem = take 20 (drop 2 spk) \<and> EvalScript ctx rest redeem = Inr st \<and>
       st \<noteq> [] \<and> CastToBool (hd st) \<and> (has_flag ctx SCRIPT_VERIFY_CLEANSTACK \<longrightarrow> length st = 1))"
proof -
  define h where "h = take 20 (drop 2 spk)"
  have spk: "spk = p2sh h" and h: "length h = 20" using form_p2sh [OF assms(2)] by (simp_all add: h_def)
  have cc: "IsPayToCryptoCondition spk = None" unfolding spk p2sh_def by (simp add: not_cc)
  have ft: "final_true st = Inr () \<longleftrightarrow> st \<noteq> [] \<and> CastToBool (hd st)" for st
    by (cases st) (simp_all add: final_true_def)
  have nil: "EvalScript ctx [] spk = bad_stack" using EvalScript_p2sh_empty [OF h, of ctx] spk by simp
  show ?thesis
  proof (cases "EvalScript ctx [] scriptSig")
    case (Inl f)
    then show ?thesis by (simp add: VerifyScript_def cc)
  next
    case (Inr st0)
    have sz: "length st0 \<le> 1000" using pushed.EvalScript_sound [of "[]" ctx scriptSig] Inr by simp
    show ?thesis
    proof (cases st0)
      case Nil
      then show ?thesis using Inr nil by (simp add: VerifyScript_def cc)
    next
      case (Cons redeem rest)
      have ev: "EvalScript ctx st0 spk = (if length rest = 999 then fail SCRIPT_ERR_STACK_SIZE
          else Inr (bool_vch (hash160_spec redeem = h) # rest))"
        using EvalScript_p2sh [OF h, of rest ctx redeem] sz Cons spk by simp
      show ?thesis
        using Inr Cons ev sz unfolding VerifyScript_def h_def [symmetric]
        by (cases "hash160_spec redeem = h"; cases "EvalScript ctx rest redeem")
          (auto simp: cc Let_def assms ft final_true_def [of "bool_vch _ # _"] split: if_splits)
    qed
  qed
qed

text \<open>A result that is a value or an error of the script, neither an escaped exception nor a failed assertion.\<close>

definition regular :: "'a result \<Rightarrow> bool" where
  "regular r = (case r of Inl f \<Rightarrow> (case f of ScriptErr _ \<Rightarrow> True | _ \<Rightarrow> False) | Inr _ \<Rightarrow> True)"

lemma regular_simps [simp]: "regular (Inr x)" "regular (fail e)" "\<not> regular (Inl Aborted)"
  by (simp_all add: regular_def)

lemma regular_err: "regular r \<Longrightarrow> r = Inl f \<Longrightarrow> \<exists>e. f = ScriptErr e"
  by (auto simp: regular_def split: fault.splits)

lemma regular_bind: "regular x \<Longrightarrow> (\<And>y. x = Inr y \<Longrightarrow> regular (f y)) \<Longrightarrow> regular (bindE x f)"
  by (cases x) (auto simp: regular_def)

lemma regular_final_true: "regular (final_true st)"
  by (simp add: final_true_def split: list.splits)

lemma regular_EvalScript:
  assumes "small MAX_SCRIPT_CRYPTOCONDITION_FULFILLMENT_SIZE st" and "length st \<le> 1000"
  shows "regular (EvalScript ctx st scr)"
  using fulfilled.EvalScript_sound [OF assms, of ctx scr] by (auto simp: regular_def split: sum.splits)

lemma regular_first:
  fixes ctx scriptSig spk
  defines "r \<equiv> (if ccEnabled ctx \<and> IsPayToCryptoCondition spk \<noteq> None then EvalCryptoConditionSig [] scriptSig
    else EvalScript ctx [] scriptSig)"
  shows "regular r" and "r = Inr st \<Longrightarrow> small MAX_SCRIPT_CRYPTOCONDITION_FULFILLMENT_SIZE st \<and> length st \<le> 1000"
  using fulfilled.EvalScript_sound [of "[]" ctx scriptSig] unfolding r_def EvalCryptoConditionSig_def
  by (auto simp: regular_EvalScript split: prod.splits if_splits)

text \<open>
  C21: \<^verbatim>\<open>VerifyScript\<close> never aborts and never lets an exception escape, as long as a clean stack is only required together
  with pay to script hash: in particular the stack that the assertion before the redeem script asks for is never empty.
\<close>

theorem VerifyScript_safe:
  assumes "has_flag ctx SCRIPT_VERIFY_CLEANSTACK \<longrightarrow> has_flag ctx SCRIPT_VERIFY_P2SH"
  shows "VerifyScript ctx scriptSig spk = Inr () \<or> (\<exists>e. VerifyScript ctx scriptSig spk = fail e)"
proof -
  have ne: "st \<noteq> []" if "IsPayToScriptHash spk" "EvalScript ctx st spk = Inr st1" for st st1
    using form_p2sh [OF that(1)] EvalScript_p2sh_empty [of "take 20 (drop 2 spk)" ctx] that(2) by auto
  have "regular (VerifyScript ctx scriptSig spk)"
    unfolding VerifyScript_def Let_def
    using regular_first [of ctx spk scriptSig] assms ne
    by (auto intro!: regular_bind regular_final_true regular_EvalScript simp del: not_None_eq split: list.splits)
      fastforce+
  then show ?thesis by (cases "VerifyScript ctx scriptSig spk") (auto dest: regular_err)
qed

section \<open>The properties at concrete inputs\<close>

text \<open>A context for examples: pay to script hash and no other rule, and a signature is good for the key it equals.\<close>

definition echo_ctx :: script_ctx where
  "echo_ctx = \<lparr>vflags = SCRIPT_VERIFY_P2SH,
     checker = \<lparr>chkSig = (\<lambda>v k _ _. v = k), chkLockTime = (\<lambda>_. True), chkCryptoCondition = (\<lambda>_ _ _ _. 0)\<rparr>,
     branchId = 0, lowS = (\<lambda>_. True), ccEnabled = False\<rparr>"

lemma echo_flags [simp]: "has_flag echo_ctx SCRIPT_VERIFY_P2SH" "\<not> has_flag echo_ctx SCRIPT_VERIFY_CLEANSTACK"
  "\<not> has_flag echo_ctx SCRIPT_VERIFY_STRICTENC" "\<not> has_flag echo_ctx SCRIPT_VERIFY_NULLDUMMY" "\<not> has_flag echo_ctx SCRIPT_VERIFY_MINIMALDATA"
  by (simp_all add: has_flag_def echo_ctx_def SCRIPT_VERIFY_P2SH_def SCRIPT_VERIFY_CLEANSTACK_def
      SCRIPT_VERIFY_STRICTENC_def SCRIPT_VERIFY_NULLDUMMY_def SCRIPT_VERIFY_MINIMALDATA_def)

lemma echo_one: "eval_loop echo_ctx [0x51] [0x51] (start []) = Inr (start [[1]])"
proof -
  have "OP_1 \<notin> set disabled_opcodes" by (simp add: disabled_opcodes_def)
  then show ?thesis
    by (subst eval_loop_step)
      (simp_all add: exec_step_def GetOp2_def exec_op_def op_table_def on_stack_def op_push_value_def start_def
        eval_loop_Nil MAX_SCRIPT_ELEMENT_SIZE_def serialize_def abs_bytes.simps)
qed

lemma EvalScript_one: "EvalScript echo_ctx [] [0x51] = Inr [[1]]"
  by (simp add: EvalScript_start echo_one catch_all_def) (simp add: start_def MAX_SCRIPT_SIZE_def)

theorem EvalScript_limits_witness:
  "length (stk (start [[1]])) + length (altstk (start [[1]])) \<le> 1000 \<and>
    list_all (\<lambda>v. length v \<le> MAX_SCRIPT_ELEMENT_SIZE) (stk (start [[1]]) @ altstk (start [[1]])) \<and>
    nOpCount (start [[1]]) \<le> 201 \<and> int (length (vfExec (start [[1]]))) \<le> nOpCount (start [[1]])"
  using EvalScript_limits [OF _ _ eval_loop_runs [OF echo_one]] by simp

theorem EvalScript_safe_witness:
  "(\<exists>e. EvalScript echo_ctx [[1], [2, 3]] [0x93] = fail e) \<or>
    (\<exists>st'. EvalScript echo_ctx [[1], [2, 3]] [0x93] = Inr st' \<and> length st' \<le> 1000 \<and>
      list_all (\<lambda>v. length v \<le> MAX_SCRIPT_ELEMENT_SIZE) st')"
  by (rule EvalScript_safe) (simp_all add: MAX_SCRIPT_ELEMENT_SIZE_def)

theorem EvalScript_wellformed_witness:
  "\<exists>ops. instrs [0x51] = Some ops \<and> set ops \<inter> set disabled_opcodes = {} \<and> nesting ops 0 = Some 0 \<and>
    length [0x51 :: byte] \<le> MAX_SCRIPT_SIZE"
  using EvalScript_wellformed [OF EvalScript_one] .

theorem VerifyScript_p2pkh_witness:
  "VerifyScript echo_ctx (push_data (push_data [] [7, 7]) [8, 8]) (p2pkh (hash160_spec [8, 8])) =
     bindE (CheckSignatureEncoding echo_ctx [7, 7]) (\<lambda>_. fail SCRIPT_ERR_EVAL_FALSE)"
proof -
  have "take 20 (drop 3 (p2pkh (hash160_spec [8, 8]))) = hash160_spec [8, 8]" by (simp add: p2pkh_def)
  then show ?thesis
    using VerifyScript_p2pkh [OF p2pkh_form [OF length_hash160_spec], of "[7, 7]" "[8, 8]" echo_ctx "[8, 8]"]
    by (simp add: CheckPubKeyEncoding_def) (simp add: echo_ctx_def)
qed

theorem checkmultisig_matches_witness:
  "op_checkmultisig echo_ctx [] OP_CHECKMULTISIG (start [serialize 2, [1], [2], serialize 1, [], [9]]) =
     Inr ((start [bool_vch (matches (\<lambda>v k. v = k) [[]] [[1 :: byte], [2]])])\<lparr>nOpCount := 2\<rparr>)"
  using checkmultisig_matches [of "start [serialize 2, [1], [2], serialize 1, [], [9]]" 2 "[[1], [2]]" 1 "[[]]" "[9]" "[]" echo_ctx "[]"]
  by (simp add: start_def CheckSignatureEncoding_def CheckPubKeyEncoding_def) (simp add: echo_ctx_def)

theorem VerifyScript_p2sh_witness: "VerifyScript echo_ctx [1, 0x51] (p2sh (hash160_spec [0x51])) = Inr ()"
proof -
  let ?spk = "p2sh (hash160_spec [0x51])"
  have form: "IsPayToScriptHash ?spk" by (simp add: IsPayToScriptHash_def p2sh_def nth_append)
  have push: "IsPushOnly [1, 0x51]" by (subst IsPushOnly.simps) (simp add: GetOp2_def IsPushOnly.simps)
  have ev: "EvalScript echo_ctx [] [1, 0x51] = Inr [[0x51]]"
    using eval_push [of "[0x51]" 1 "start []" echo_ctx "[1, 0x51]" "[]"]
    by (simp add: EvalScript_start start_def eval_loop_Nil catch_all_def MAX_SCRIPT_SIZE_def fRequireMinimal_def)
  show ?thesis
    using VerifyScript_p2sh [OF echo_flags(1) form, of "[1, 0x51]"] push ev EvalScript_one
    by (simp add: p2sh_def)
qed

theorem VerifyScript_safe_witness:
  "VerifyScript echo_ctx [0x51] [0x93] = Inr () \<or> (\<exists>e. VerifyScript echo_ctx [0x51] [0x93] = fail e)"
  by (rule VerifyScript_safe) simp

end
