(* ===== verification/SigHash.thy ===== *)
theory SigHash
  imports TransactionCodec Spends
begin

text \<open>
  The hash that a signature signs and the checks of a transaction's inputs, after the second half of
  \<^verbatim>\<open>src/src/script/interpreter.cpp\<close>, with \<^verbatim>\<open>src/src/pubkey.h\<close> and the lock times of \<^verbatim>\<open>src/src/main.cpp\<close>. BLAKE2b with a personalization
  and the verification of signatures are library code and arguments of the definitions.
\<close>

section \<open>Signature hashes\<close>

definition NOT_AN_INPUT :: nat where "NOT_AN_INPUT = 2 ^ 32 - 1"

text \<open>
  What \<^verbatim>\<open>SignatureHash\<close> throws: its own logic errors, a failure of the serialization of a join-split, and the access to an
  input that does not exist.
\<close>

datatype sighash_fault = LogicError | SerFailure | NoSuchInput

definition any_one_can_pay :: "u32 \<Rightarrow> bool" where
  "any_one_can_pay ht \<longleftrightarrow> ht AND word_of_nat SIGHASH_ANYONECANPAY \<noteq> 0"

definition hash_single :: "u32 \<Rightarrow> bool" where
  "hash_single ht \<longleftrightarrow> ht AND 0x1f = word_of_nat SIGHASH_SINGLE"

definition hash_none :: "u32 \<Rightarrow> bool" where
  "hash_none ht \<longleftrightarrow> ht AND 0x1f = word_of_nat SIGHASH_NONE"

definition SerializeScriptCode :: "script \<Rightarrow> bytes" where
  "SerializeScriptCode scr = WriteCompactSize (length scr) @ scr"

definition SerializeInput :: "'a CMutableTransaction_scheme \<Rightarrow> script \<Rightarrow> nat \<Rightarrow> u32 \<Rightarrow> nat \<Rightarrow> bytes" where
  "SerializeInput txTo scr nIn ht nInput0 =
     (let nInput = (if any_one_can_pay ht then nIn else nInput0)
      in COutPoint_Serialize (prevout (vin txTo ! nInput)) @
         (if nInput \<noteq> nIn then Serialize_bytes [] else SerializeScriptCode scr) @
         (if nInput \<noteq> nIn \<and> (hash_single ht \<or> hash_none ht) then Serialize_int32 0
          else ser_writedata32 (nSequence (vin txTo ! nInput))))"

definition SerializeOutput :: "'a CMutableTransaction_scheme \<Rightarrow> nat \<Rightarrow> u32 \<Rightarrow> nat \<Rightarrow> bytes" where
  "SerializeOutput txTo nIn ht nOutput =
     (if hash_single ht \<and> nOutput \<noteq> nIn then CTxOut_Serialize CTxOut_SetNull else CTxOut_Serialize (vout txTo ! nOutput))"

definition SignatureSerializer :: "'a CMutableTransaction_scheme \<Rightarrow> script \<Rightarrow> nat \<Rightarrow> u32 \<Rightarrow> bytes option" where
  "SignatureSerializer txTo scr nIn ht =
     (let nInputs = (if any_one_can_pay ht then 1 else length (vin txTo));
          nOutputs = (if hash_none ht then 0 else if hash_single ht then nIn + 1 else length (vout txTo))
      in do {
        js \<leftarrow> (if 2 \<le> nVersion txTo then JoinSplits_Serialize 0 (vjoinsplit txTo) else Some []);
        Some (Serialize_int32 (nVersion txTo) @
          WriteCompactSize nInputs @ concat (map (SerializeInput txTo scr nIn ht) [0..<nInputs]) @
          WriteCompactSize nOutputs @ concat (map (SerializeOutput txTo nIn ht) [0..<nOutputs]) @
          ser_writedata32 (nLockTime txTo) @ js @
          (if 2 \<le> nVersion txTo \<and> vjoinsplit txTo \<noteq> [] then joinSplitPubKey txTo @ replicate 64 0 else []))
      })"

text \<open>The personalizations.\<close>

definition ascii :: "string \<Rightarrow> bytes" where
  "ascii str = map (\<lambda>c. word_of_nat (of_char c)) str"

definition ZCASH_PREVOUTS_HASH_PERSONALIZATION :: bytes where "ZCASH_PREVOUTS_HASH_PERSONALIZATION = ascii ''ZcashPrevoutHash''"
definition ZCASH_SEQUENCE_HASH_PERSONALIZATION :: bytes where "ZCASH_SEQUENCE_HASH_PERSONALIZATION = ascii ''ZcashSequencHash''"
definition ZCASH_OUTPUTS_HASH_PERSONALIZATION :: bytes where "ZCASH_OUTPUTS_HASH_PERSONALIZATION = ascii ''ZcashOutputsHash''"
definition ZCASH_JOINSPLITS_HASH_PERSONALIZATION :: bytes where "ZCASH_JOINSPLITS_HASH_PERSONALIZATION = ascii ''ZcashJSplitsHash''"
definition ZCASH_SHIELDED_SPENDS_HASH_PERSONALIZATION :: bytes where "ZCASH_SHIELDED_SPENDS_HASH_PERSONALIZATION = ascii ''ZcashSSpendsHash''"
definition ZCASH_SHIELDED_OUTPUTS_HASH_PERSONALIZATION :: bytes where "ZCASH_SHIELDED_OUTPUTS_HASH_PERSONALIZATION = ascii ''ZcashSOutputHash''"

text \<open>A BLAKE2b writer: the personalization and what was written to it give the hash.\<close>

type_synonym blake = "bytes \<Rightarrow> bytes \<Rightarrow> bytes"

definition GetPrevoutHash :: "blake \<Rightarrow> 'a CMutableTransaction_scheme \<Rightarrow> bytes" where
  "GetPrevoutHash B txTo = B ZCASH_PREVOUTS_HASH_PERSONALIZATION (concat (map (\<lambda>i. COutPoint_Serialize (prevout i)) (vin txTo)))"

definition GetSequenceHash :: "blake \<Rightarrow> 'a CMutableTransaction_scheme \<Rightarrow> bytes" where
  "GetSequenceHash B txTo = B ZCASH_SEQUENCE_HASH_PERSONALIZATION (concat (map (\<lambda>i. ser_writedata32 (nSequence i)) (vin txTo)))"

definition GetOutputsHash :: "blake \<Rightarrow> 'a CMutableTransaction_scheme \<Rightarrow> bytes" where
  "GetOutputsHash B txTo = B ZCASH_OUTPUTS_HASH_PERSONALIZATION (concat (map CTxOut_Serialize (vout txTo)))"

definition GetJoinSplitsHash :: "blake \<Rightarrow> 'a CMutableTransaction_scheme \<Rightarrow> bytes option" where
  "GetJoinSplitsHash B txTo = do {
     ps \<leftarrow> those (map (JSDescription_Serialize (useGroth (GetHeader txTo))) (vjoinsplit txTo));
     Some (B ZCASH_JOINSPLITS_HASH_PERSONALIZATION (concat ps @ joinSplitPubKey txTo))
   }"

text \<open>A shielded spend without the signature that authorises it.\<close>

definition spend_parts :: "SpendDescription \<Rightarrow> bytes" where
  "spend_parts d = sp_cv d @ sp_anchor d @ sp_nullifier d @ rk d @ sp_zkproof d"

definition GetShieldedSpendsHash :: "blake \<Rightarrow> 'a CMutableTransaction_scheme \<Rightarrow> bytes" where
  "GetShieldedSpendsHash B txTo = B ZCASH_SHIELDED_SPENDS_HASH_PERSONALIZATION (concat (map spend_parts (vShieldedSpend txTo)))"

definition GetShieldedOutputsHash :: "blake \<Rightarrow> 'a CMutableTransaction_scheme \<Rightarrow> bytes" where
  "GetShieldedOutputsHash B txTo = B ZCASH_SHIELDED_OUTPUTS_HASH_PERSONALIZATION
     (concat (map OutputDescription_Serialize (vShieldedOutput txTo)))"

record PrecomputedTransactionData =
  hashPrevouts :: bytes
  hashSequence :: bytes
  hashOutputs :: bytes
  hashJoinSplits :: bytes
  hashShieldedSpends :: bytes
  hashShieldedOutputs :: bytes

definition PrecomputedTransactionData_init :: "blake \<Rightarrow> 'a CMutableTransaction_scheme \<Rightarrow> PrecomputedTransactionData option" where
  "PrecomputedTransactionData_init B txTo = do {
     js \<leftarrow> GetJoinSplitsHash B txTo;
     Some \<lparr>hashPrevouts = GetPrevoutHash B txTo, hashSequence = GetSequenceHash B txTo, hashOutputs = GetOutputsHash B txTo,
           hashJoinSplits = js, hashShieldedSpends = GetShieldedSpendsHash B txTo,
           hashShieldedOutputs = GetShieldedOutputsHash B txTo\<rparr>
   }"

datatype SigVersion = SIGVERSION_SPROUT | SIGVERSION_OVERWINTER | SIGVERSION_SAPLING

definition SignatureHashVersion :: "'a CMutableTransaction_scheme \<Rightarrow> SigVersion" where
  "SignatureHashVersion txTo =
     (if fOverwintered txTo
      then if nVersionGroupId txTo = SAPLING_VERSION_GROUP_ID then SIGVERSION_SAPLING else SIGVERSION_OVERWINTER
      else SIGVERSION_SPROUT)"

text \<open>
  The six hashes that the newer formats sign instead of the parts: zero where the hash type or the transaction leaves
  a part out, from the cache where there is one.
\<close>

abbreviation null256 :: bytes where
  "null256 \<equiv> replicate 32 0"

definition part_hashes ::
  "blake \<Rightarrow> 'a CMutableTransaction_scheme \<Rightarrow> nat \<Rightarrow> u32 \<Rightarrow> PrecomputedTransactionData option \<Rightarrow> PrecomputedTransactionData option" where
  "part_hashes B txTo nIn ht cache =
     (let cached = (\<lambda>f g. case cache of Some c \<Rightarrow> f c | None \<Rightarrow> g);
          one_of = hash_single ht \<or> hash_none ht
      in do {
        js \<leftarrow> (if vjoinsplit txTo \<noteq> [] then (case cache of Some c \<Rightarrow> Some (hashJoinSplits c) | None \<Rightarrow> GetJoinSplitsHash B txTo)
              else Some null256);
        Some \<lparr>
          hashPrevouts = (if \<not> any_one_can_pay ht then cached hashPrevouts (GetPrevoutHash B txTo) else null256),
          hashSequence = (if \<not> any_one_can_pay ht \<and> \<not> one_of then cached hashSequence (GetSequenceHash B txTo) else null256),
          hashOutputs = (if \<not> one_of then cached hashOutputs (GetOutputsHash B txTo)
                         else if hash_single ht \<and> nIn < length (vout txTo)
                         then B ZCASH_OUTPUTS_HASH_PERSONALIZATION (CTxOut_Serialize (vout txTo ! nIn)) else null256),
          hashJoinSplits = js,
          hashShieldedSpends = (if vShieldedSpend txTo \<noteq> [] then cached hashShieldedSpends (GetShieldedSpendsHash B txTo) else null256),
          hashShieldedOutputs = (if vShieldedOutput txTo \<noteq> [] then cached hashShieldedOutputs (GetShieldedOutputsHash B txTo) else null256)\<rparr>
      })"

definition overwinter_preimage ::
  "script \<Rightarrow> 'a CMutableTransaction_scheme \<Rightarrow> nat \<Rightarrow> u32 \<Rightarrow> int \<Rightarrow> PrecomputedTransactionData \<Rightarrow> bytes" where
  "overwinter_preimage scr txTo nIn ht amount h =
     ser_writedata32 (GetHeader txTo) @ ser_writedata32 (nVersionGroupId txTo) @
     hashPrevouts h @ hashSequence h @ hashOutputs h @ hashJoinSplits h @
     (if SignatureHashVersion txTo = SIGVERSION_SAPLING then hashShieldedSpends h @ hashShieldedOutputs h else []) @
     ser_writedata32 (nLockTime txTo) @ ser_writedata32 (nExpiryHeight txTo) @
     (if SignatureHashVersion txTo = SIGVERSION_SAPLING then Serialize_int64 (valueBalance txTo) else []) @
     ser_writedata32 ht @
     (if nIn \<noteq> NOT_AN_INPUT
      then COutPoint_Serialize (prevout (vin txTo ! nIn)) @ Serialize_bytes scr @ Serialize_int64 amount @
        ser_writedata32 (nSequence (vin txTo ! nIn)) else [])"

definition SignatureHash ::
  "blake \<Rightarrow> script \<Rightarrow> 'a CMutableTransaction_scheme \<Rightarrow> nat \<Rightarrow> u32 \<Rightarrow> int \<Rightarrow> u32 \<Rightarrow> PrecomputedTransactionData option \<Rightarrow> sighash_fault + bytes" where
  "SignatureHash B scr txTo nIn ht amount consensusBranchId cache =
     (if length (vin txTo) \<le> nIn \<and> nIn \<noteq> NOT_AN_INPUT then Inl LogicError
      else if SignatureHashVersion txTo \<noteq> SIGVERSION_SPROUT
      then case part_hashes B txTo nIn ht cache of
             None \<Rightarrow> Inl SerFailure
           | Some h \<Rightarrow>
               Inr (B (ascii ''ZcashSigHash'' @ WriteLE32 consensusBranchId) (overwinter_preimage scr txTo nIn ht amount h))
      else if hash_single ht \<and> length (vout txTo) \<le> nIn then Inl LogicError
      else if any_one_can_pay ht \<and> length (vin txTo) \<le> nIn then Inl NoSuchInput
      else case SignatureSerializer txTo scr nIn ht of
             None \<Rightarrow> Inl SerFailure
           | Some p \<Rightarrow> (case CHash256_Finalize (CHash256_Write (CHash256_Write CSHA256_init p) (ser_writedata32 ht)) of
                         None \<Rightarrow> Inl SerFailure | Some h \<Rightarrow> Inr h))"

section \<open>Public keys\<close>

definition GetLen :: "byte \<Rightarrow> nat" where
  "GetLen chHeader = (if chHeader = 2 \<or> chHeader = 3 then 33 else if chHeader = 4 \<or> chHeader = 6 \<or> chHeader = 7 then 65 else 0)"

definition ValidSize :: "bytes \<Rightarrow> bool" where
  "ValidSize vch \<longleftrightarrow> 0 < length vch \<and> GetLen (hd vch) = length vch"

text \<open>The bytes that a \<^verbatim>\<open>CPubKey\<close> keeps: those of a key, or the single byte that marks it as invalid.\<close>

definition CPubKey_Set :: "bytes \<Rightarrow> bytes" where
  "CPubKey_Set p = (let len = (if p = [] then 0 else GetLen (hd p)) in if len \<noteq> 0 \<and> len = length p then p else [0xFF])"

definition CPubKey_size :: "bytes \<Rightarrow> nat" where
  "CPubKey_size key = GetLen (hd key)"

definition CPubKey_IsValid :: "bytes \<Rightarrow> bool" where
  "CPubKey_IsValid key \<longleftrightarrow> 0 < CPubKey_size key"

definition CPubKey_IsCompressed :: "bytes \<Rightarrow> bool" where
  "CPubKey_IsCompressed key \<longleftrightarrow> CPubKey_size key = 33"

definition CPubKey_GetID :: "bytes \<Rightarrow> bytes option" where
  "CPubKey_GetID key = Hash160 (take (CPubKey_size key) key)"

text \<open>The calls of the library that \<^verbatim>\<open>CPubKey::Verify\<close> makes.\<close>

record 'p secp =
  pubkey_parse :: "bytes \<Rightarrow> 'p option"
  sig_parse_der :: "bytes \<Rightarrow> bytes option"
  sig_normalize :: "bytes \<Rightarrow> bytes"
  ecdsa_verify :: "bytes \<Rightarrow> bytes \<Rightarrow> 'p \<Rightarrow> bool"

definition CPubKey_Verify :: "'p secp \<Rightarrow> bytes \<Rightarrow> bytes \<Rightarrow> bytes \<Rightarrow> bool" where
  "CPubKey_Verify L key hash vchSig =
     (if \<not> CPubKey_IsValid key then False
      else case pubkey_parse L (take (CPubKey_size key) key) of
             None \<Rightarrow> False
           | Some pubkey \<Rightarrow>
               if vchSig = [] then False
               else case sig_parse_der L vchSig of
                      None \<Rightarrow> False
                    | Some sig \<Rightarrow> ecdsa_verify L (sig_normalize L sig) hash pubkey)"

section \<open>The transaction's signature checker\<close>

definition CheckSig ::
  "'p secp \<Rightarrow> blake \<Rightarrow> 'a CMutableTransaction_scheme \<Rightarrow> nat \<Rightarrow> int \<Rightarrow> PrecomputedTransactionData option \<Rightarrow>
   bytes \<Rightarrow> bytes \<Rightarrow> script \<Rightarrow> u32 \<Rightarrow> sighash_fault + bool" where
  "CheckSig L B txTo nIn amount txdata vchSigIn vchPubKey scriptCode consensusBranchId =
     (let pubkey = CPubKey_Set vchPubKey
      in if \<not> CPubKey_IsValid pubkey then Inr False
         else if vchSigIn = [] then Inr False
         else let nHashType = ucast (last vchSigIn); vchSig = butlast vchSigIn
              in case SignatureHash B scriptCode txTo nIn nHashType amount consensusBranchId txdata of
                   Inl LogicError \<Rightarrow> Inr False
                 | Inl e \<Rightarrow> Inl e
                 | Inr sighash \<Rightarrow> Inr (CPubKey_Verify L pubkey sighash vchSig))"

text \<open>The calls of the crypto-conditions library.\<close>

record 'c cclib =
  cc_read :: "bytes \<Rightarrow> 'c option"
  cc_supported :: "'c \<Rightarrow> bool"
  cc_signed :: "'c \<Rightarrow> bool"
  cc_pubkey :: "'c \<Rightarrow> script"
  cc_check :: "'c \<Rightarrow> bytes \<Rightarrow> bytes \<Rightarrow> int"

definition CheckCryptoCondition ::
  "'c cclib \<Rightarrow> blake \<Rightarrow> 'a CMutableTransaction_scheme \<Rightarrow> nat \<Rightarrow> int \<Rightarrow> PrecomputedTransactionData option \<Rightarrow>
   bytes \<Rightarrow> bytes \<Rightarrow> u32 \<Rightarrow> sighash_fault + int" where
  "CheckCryptoCondition C B txTo nIn amount txdata condBin ffillBin consensusBranchId =
     (if ffillBin = [] then Inr 0
      else case cc_read C (butlast ffillBin) of
             None \<Rightarrow> Inr (- 1)
           | Some cond \<Rightarrow>
               if \<not> cc_supported C cond then Inr 0
               else if \<not> cc_signed C cond then Inr 0
               else case SignatureHash B (cc_pubkey C cond) txTo nIn (ucast (last ffillBin)) amount consensusBranchId txdata of
                      Inl LogicError \<Rightarrow> Inr 0
                    | Inl e \<Rightarrow> Inl e
                    | Inr sighash \<Rightarrow> Inr (cc_check C cond sighash condBin))"

definition CheckLockTime :: "'a CMutableTransaction_scheme \<Rightarrow> nat \<Rightarrow> int \<Rightarrow> bool" where
  "CheckLockTime txTo nIn nLock =
     (let lock = uint (nLockTime txTo)
      in if \<not> ((lock < LOCKTIME_THRESHOLD \<and> nLock < LOCKTIME_THRESHOLD) \<or> (LOCKTIME_THRESHOLD \<le> lock \<and> LOCKTIME_THRESHOLD \<le> nLock))
         then False
         else if lock < nLock then False
         else if CTxIn_IsFinal (vin txTo ! nIn) then False
         else True)"

text \<open>
  The checker that a script runs with. A failure of the serialization would end the script; on transactions that were
  read from a stream it does not occur.
\<close>

definition TransactionSignatureChecker ::
  "'p secp \<Rightarrow> 'c cclib \<Rightarrow> blake \<Rightarrow> 'a CMutableTransaction_scheme \<Rightarrow> nat \<Rightarrow> int \<Rightarrow> PrecomputedTransactionData option \<Rightarrow> sig_checker" where
  "TransactionSignatureChecker L C B txTo nIn amount txdata =
     \<lparr>chkSig = (\<lambda>sig key scr branch. CheckSig L B txTo nIn amount txdata sig key scr branch = Inr True),
      chkLockTime = CheckLockTime txTo nIn,
      chkCryptoCondition = (\<lambda>cond ffill scr branch. case CheckCryptoCondition C B txTo nIn amount txdata cond ffill branch of
                              Inr out \<Rightarrow> out | Inl _ \<Rightarrow> 0)\<rparr>"

section \<open>Lock times and expiry\<close>

definition nStakedDecemberHardforkTimestamp :: u32 where "nStakedDecemberHardforkTimestamp = 1576840000"
definition nDecemberHardforkHeight :: int where "nDecemberHardforkHeight = 1670000"

text \<open>The chain that the node runs, as far as the hard fork depends on it: \<^verbatim>\<open>chainName.isKMD()\<close> and \<^verbatim>\<open>chainActive.Height()\<close>.\<close>

record active_chain =
  on_KMD :: bool
  active_height :: int

definition komodo_hardfork_active :: "active_chain \<Rightarrow> u32 \<Rightarrow> bool" where
  "komodo_hardfork_active ch time \<longleftrightarrow>
     on_KMD ch \<and> nDecemberHardforkHeight < active_height ch \<or> \<not> on_KMD ch \<and> nStakedDecemberHardforkTimestamp < time"

definition IsFinalTx :: "active_chain \<Rightarrow> 'a CMutableTransaction_scheme \<Rightarrow> int \<Rightarrow> int \<Rightarrow> bool" where
  "IsFinalTx ch tx nBlockHeight nBlockTime =
     (let lock = uint (nLockTime tx);
          hardfork = komodo_hardfork_active ch (word_of_int nBlockTime);
          reached = (\<lambda>le. (LOCKTIME_THRESHOLD \<le> lock \<and> le lock nBlockTime) \<or> (lock < LOCKTIME_THRESHOLD \<and> le lock nBlockHeight))
      in if lock = 0 then True
         else if lock < (if lock < LOCKTIME_THRESHOLD then nBlockHeight else nBlockTime) then True
         else list_all (\<lambda>txin.
           if \<not> hardfork \<and> nSequence txin = 0xfffffffe \<and> reached (\<lambda>a b. b < a) then True
           else if hardfork \<and> nSequence txin = 0xfffffffe \<and> reached (\<lambda>a b. a \<le> b) then True
           else CTxIn_IsFinal txin) (vin tx))"

definition IsExpiredTx :: "'a CMutableTransaction_scheme \<Rightarrow> int \<Rightarrow> bool" where
  "IsExpiredTx tx nBlockHeight =
     (if nExpiryHeight tx = 0 \<or> IsCoinBase tx then False else nExpiryHeight tx < word_of_int nBlockHeight)"

section \<open>The legacy hash as the hash of a changed copy\<close>

text \<open>
  The original description of the legacy signature hash: copy the transaction, remove the other inputs' scripts and
  put the script code in place of the signed one, drop what the hash type leaves out, and serialize the copy.
\<close>

definition copied_input :: "script \<Rightarrow> nat \<Rightarrow> u32 \<Rightarrow> nat \<Rightarrow> CTxIn \<Rightarrow> CTxIn" where
  "copied_input scr nIn ht i txin =
     (if i = nIn then txin\<lparr>txin_script := scr\<rparr>
      else txin\<lparr>txin_script := [], nSequence := (if hash_single ht \<or> hash_none ht then 0 else nSequence txin)\<rparr>)"

definition legacy_copy :: "'a CMutableTransaction_scheme \<Rightarrow> script \<Rightarrow> nat \<Rightarrow> u32 \<Rightarrow> 'a CMutableTransaction_scheme" where
  "legacy_copy tx scr nIn ht =
     (let ins = map (\<lambda>i. copied_input scr nIn ht i (vin tx ! i)) [0..<length (vin tx)]
      in tx\<lparr>vin := (if any_one_can_pay ht then [ins ! nIn] else ins),
            vout := (if hash_none ht then [] else if hash_single ht then replicate nIn CTxOut_SetNull @ [vout tx ! nIn] else vout tx),
            joinSplitSig := replicate 64 0\<rparr>)"

lemma SerializeInput_copy:
  assumes "nIn < length (vin tx)" and "j < length (vin tx)"
  shows "SerializeInput tx scr nIn ht j = CTxIn_Serialize (copied_input scr nIn ht (if any_one_can_pay ht then nIn else j)
    (vin tx ! (if any_one_can_pay ht then nIn else j)))"
  by (simp add: SerializeInput_def CTxIn_Serialize_def copied_input_def SerializeScriptCode_def Serialize_bytes_def Serialize_int32_def)

lemma Serialize_header: "\<not> fOverwintered tx \<Longrightarrow> ser_writedata32 (GetHeader tx) = Serialize_int32 (nVersion tx)"
  by (simp add: GetHeader_def Serialize_int32_def)

lemma useGroth_low: "\<not> bit v 31 \<Longrightarrow> \<not> useGroth v"
  by (simp add: useGroth_def flip: drop31)

lemma useGroth_legacy: "known_format tx \<Longrightarrow> \<not> fOverwintered tx \<Longrightarrow> \<not> useGroth (GetHeader tx)"
  using header_write(1) [of tx] by (simp add: useGroth_def known_format_def)

lemma useGroth_0 [simp]: "\<not> useGroth 0"
  by (simp add: useGroth_def)

lemma JoinSplits_total:
  assumes "wf_tx tx" and "\<not> fOverwintered tx"
  obtains d where "JoinSplits_Serialize 0 (vjoinsplit tx) = Some d" and "JoinSplits_Serialize (GetHeader tx) (vjoinsplit tx) = Some d"
proof -
  have kf: "known_format tx" and js: "list_all (wf_JSDescription (useGroth (GetHeader tx))) (vjoinsplit tx)"
    using assms(1) by (simp_all add: wf_tx_def wf_parts_def)
  have g: "useGroth (GetHeader tx) = useGroth 0" using useGroth_legacy [OF kf assms(2)] by simp
  have "list_all (\<lambda>x. \<exists>d. JSDescription_Serialize (useGroth 0) x = Some d) (vjoinsplit tx)"
    using js JSDescription_total unfolding g by (auto simp: list_all_iff)
  from those_total [OF this] that show ?thesis by (simp add: JoinSplits_Serialize_def g)
qed

lemma SignatureSerializer_total: "wf_tx tx \<Longrightarrow> \<not> fOverwintered tx \<Longrightarrow> \<exists>p. SignatureSerializer tx scr nIn ht = Some p"
  by (erule (1) JoinSplits_total) (simp add: SignatureSerializer_def Let_def)

lemma SignatureSerializer_copy:
  assumes "wf_tx tx" and "\<not> fOverwintered tx" and "nIn < length (vin tx)" and "hash_single ht \<Longrightarrow> nIn < length (vout tx)"
  shows "\<exists>p. SignatureSerializer tx scr nIn ht = Some p \<and> tx_Serialize (legacy_copy tx scr nIn ht) = Some p"
proof -
  let ?c = "legacy_copy tx scr nIn ht"
  obtain d where d: "JoinSplits_Serialize 0 (vjoinsplit tx) = Some d" and d': "JoinSplits_Serialize (GetHeader tx) (vjoinsplit tx) = Some d"
    using JoinSplits_total [OF assms(1,2)] .
  have same: "fOverwintered ?c = False" "nVersion ?c = nVersion tx" "vjoinsplit ?c = vjoinsplit tx" "nLockTime ?c = nLockTime tx"
      "joinSplitPubKey ?c = joinSplitPubKey tx" "joinSplitSig ?c = replicate 64 0" "GetHeader ?c = GetHeader tx"
      "isOverwinterV3 ?c = False" "isSaplingV4 ?c = False"
    using assms(2) by (simp_all add: legacy_copy_def Let_def GetHeader_def isOverwinterV3_def isSaplingV4_def)
  have ins: "Serialize_vec CTxIn_Serialize (vin ?c) = (let n = if any_one_can_pay ht then 1 else length (vin tx) in
      WriteCompactSize n @ concat (map (SerializeInput tx scr nIn ht) [0..<n]))"
  proof (cases "any_one_can_pay ht")
    case True
    have "0 < length (vin tx)" using assms(3) by auto
    then show ?thesis using True assms(3) SerializeInput_copy [OF assms(3), of 0 scr ht] by (simp add: legacy_copy_def Serialize_vec_def)
  next
    case False
    then have "concat (map (SerializeInput tx scr nIn ht) [0..<length (vin tx)]) =
        concat (map (\<lambda>i. CTxIn_Serialize (copied_input scr nIn ht i (vin tx ! i))) [0..<length (vin tx)])"
      using SerializeInput_copy [OF assms(3), of _ scr ht] by (intro arg_cong [where f = concat]) simp
    with False show ?thesis by (simp add: legacy_copy_def Serialize_vec_def Let_def comp_def)
  qed
  have outs: "Serialize_vec CTxOut_Serialize (vout ?c) =
      (let n = if hash_none ht then 0 else if hash_single ht then nIn + 1 else length (vout tx) in
      WriteCompactSize n @ concat (map (SerializeOutput tx nIn ht) [0..<n]))"
  proof -
    have "map (SerializeOutput tx nIn ht) [0..<nIn] = replicate nIn (CTxOut_Serialize CTxOut_SetNull)" if "hash_single ht"
      by (rule nth_equalityI) (use that in \<open>auto simp: SerializeOutput_def\<close>)
    moreover have "map (SerializeOutput tx nIn ht) [0..<length (vout tx)] = map CTxOut_Serialize (vout tx)" if "\<not> hash_single ht"
      by (rule nth_equalityI) (use that in \<open>auto simp: SerializeOutput_def\<close>)
    ultimately show ?thesis
      by (auto simp: legacy_copy_def Serialize_vec_def Let_def SerializeOutput_def)
  qed
  show ?thesis
    unfolding SignatureSerializer_def tx_Serialize_def same ins outs
    using assms(2) Serialize_header [of tx] by (auto simp: d d' Let_def)
qed

text \<open>
  C26: for every hash type, the legacy signature hash, which serializes in place, is the double SHA-256 of the hash type
  after the serialization of the copy of the transaction that the original description makes.
\<close>

theorem SignatureHash_legacy:
  assumes "wf_tx tx" and "\<not> fOverwintered tx" and "nIn < length (vin tx)" and "nIn \<noteq> NOT_AN_INPUT"
    and "hash_single ht \<Longrightarrow> nIn < length (vout tx)"
  shows "\<exists>p. tx_Serialize (legacy_copy tx scr nIn ht) = Some p \<and>
    SignatureHash B scr tx nIn ht amount branch cache = Inr (double_sha256 (p @ ser_writedata32 ht))"
proof -
  obtain p where p: "SignatureSerializer tx scr nIn ht = Some p" "tx_Serialize (legacy_copy tx scr nIn ht) = Some p"
    using SignatureSerializer_copy [OF assms(1-3,5)] by blast
  have "CHash256_Finalize (CHash256_Write (CHash256_Write CSHA256_init p) (ser_writedata32 ht)) = Some (double_sha256 (p @ ser_writedata32 ht))"
    unfolding CHash256_Write_def by (rule CHash256_Finalize_fed) (rule fed_write [OF fed_first])
  then show ?thesis using p assms by (auto simp: SignatureHash_def SignatureHashVersion_def)
qed

section \<open>The cached hashes\<close>

text \<open>With the hashes that were computed in advance for a transaction every signature hash is the same as without them.\<close>

lemma SignatureHash_cached:
  assumes "PrecomputedTransactionData_init B tx = Some c"
  shows "SignatureHash B scr tx nIn ht amount branch (Some c) = SignatureHash B scr tx nIn ht amount branch None"
proof -
  have "part_hashes B tx n ht (Some c) = part_hashes B tx n ht None" for n
    using assms by (auto simp: part_hashes_def PrecomputedTransactionData_init_def Let_def split: bind_splits)
  then show ?thesis by (simp add: SignatureHash_def)
qed

section \<open>Lock times\<close>

lemma CheckLockTime_final:
  assumes "0 \<le> lock" and "CheckLockTime tx nIn lock" and "nIn < length (vin tx)" and "IsFinalTx ch tx nBlockHeight nBlockTime" and "0 \<le> nBlockHeight"
    and "komodo_hardfork_active ch (word_of_int nBlockTime)"
  shows "if lock < LOCKTIME_THRESHOLD then lock \<le> nBlockHeight else lock \<le> nBlockTime"
proof -
  let ?l = "uint (nLockTime tx)"
  have k: "lock \<le> ?l" "?l < LOCKTIME_THRESHOLD \<longleftrightarrow> lock < LOCKTIME_THRESHOLD" "\<not> CTxIn_IsFinal (vin tx ! nIn)"
    using assms(2) by (auto simp: CheckLockTime_def Let_def split: if_splits)
  have "?l = 0 \<or> ?l < (if ?l < LOCKTIME_THRESHOLD then nBlockHeight else nBlockTime) \<or>
      LOCKTIME_THRESHOLD \<le> ?l \<and> ?l \<le> nBlockTime \<or> ?l < LOCKTIME_THRESHOLD \<and> ?l \<le> nBlockHeight"
    using assms(3,4,6) k(3) by (auto simp: IsFinalTx_def Let_def list_all_length split: if_splits)
  then show ?thesis using assms(1,5) k(1,2) by (auto simp: LOCKTIME_THRESHOLD_def split: if_splits)
qed

lemma EvalScript_cltv:
  assumes "EvalScript ctx st (word_of_nat (length v) # v @ 0xb1 # rest) = Inr st'" and "has_flag ctx SCRIPT_VERIFY_CHECKLOCKTIMEVERIFY"
    and "2 \<le> length v" and "length v < OP_PUSHDATA1" and "length st < 1000"
  shows "\<exists>lock. CScriptNum v (fRequireMinimal ctx) 5 = Inr lock \<and> 0 \<le> lock \<and> chkLockTime (checker ctx) lock"
proof -
  let ?b = "word_of_nat (length v) :: byte" and ?scr = "word_of_nat (length v) # v @ 0xb1 # rest"
  have b: "unat ?b = length v" using assms(4) by (simp add: unat_of_nat)
  have "eval_loop ctx ?scr ?scr (start st) = eval_loop ctx ?scr (0xb1 # rest) ((start st)\<lparr>stk := v # st\<rparr>)"
    by (subst eval_push) (use assms(3-5) b in \<open>auto simp: start_def\<close>)
  also have "\<dots> = bindE (exec_op ctx ?scr True OP_CHECKLOCKTIMEVERIFY ((start st)\<lparr>stk := v # st, nOpCount := 1\<rparr>)) (\<lambda>m'.
    if length (stk m') + length (altstk m') \<le> 1000 then eval_loop ctx ?scr rest m' else fail SCRIPT_ERR_STACK_SIZE)"
    by (subst eval_op) (simp_all add: start_def disabled_opcodes_def)
  finally have "\<exists>m. exec_op ctx ?scr True OP_CHECKLOCKTIMEVERIFY ((start st)\<lparr>stk := v # st, nOpCount := 1\<rparr>) = Inr m"
    using assms(1) by (auto simp: EvalScript_start catch_all_def bindE_def split: if_splits sum.splits)
  then have "\<exists>s. op_cltv ctx (v # st) = Inr s"
    by (auto simp: exec_op_def op_table_def on_stack_def bindE_def split: sum.splits)
  then show ?thesis using assms(2) by (auto simp: op_cltv_def bindE_def split: sum.splits if_splits)
qed

text \<open>
  C28: after the hard fork a transaction that spends an output whose script starts with a lock and
  \<^verbatim>\<open>OP_CHECKLOCKTIMEVERIFY\<close> can be final for a block only when the lock has been reached: the block's height is at least a
  lock below the threshold, the block's time at least any other lock.
\<close>

theorem cltv_enforced:
  assumes "EvalScript ctx st (word_of_nat (length v) # v @ 0xb1 # rest) = Inr st'" and "has_flag ctx SCRIPT_VERIFY_CHECKLOCKTIMEVERIFY"
    and "2 \<le> length v" and "length v < OP_PUSHDATA1" and "length st < 1000"
    and "checker ctx = TransactionSignatureChecker L C B tx nIn amount txdata" and "nIn < length (vin tx)"
    and "IsFinalTx ch tx nBlockHeight nBlockTime" and "0 \<le> nBlockHeight" and "komodo_hardfork_active ch (word_of_int nBlockTime)"
  shows "\<exists>lock. CScriptNum v (fRequireMinimal ctx) 5 = Inr lock \<and>
    (if lock < LOCKTIME_THRESHOLD then lock \<le> nBlockHeight else lock \<le> nBlockTime)"
proof -
  obtain lock where l: "CScriptNum v (fRequireMinimal ctx) 5 = Inr lock" "0 \<le> lock" "CheckLockTime tx nIn lock"
    using EvalScript_cltv [OF assms(1-5)] assms(6) by (auto simp: TransactionSignatureChecker_def)
  show ?thesis using l(1) CheckLockTime_final [OF l(2,3) assms(7-10)] by blast
qed

text \<open>
  Before the hard fork the rule was the opposite one: an input with the sequence number below the largest counts as final
  just when the lock has not been reached, so a lock can be passed at once.
\<close>

lemma cltv_before_hardfork:
  assumes "nLockTime tx = 100" and "vin tx = [txin]" and "nSequence txin = 0xfffffffe" and "\<not> komodo_hardfork_active ch (word_of_int nBlockTime)"
  shows "CheckLockTime tx 0 100" and "IsFinalTx ch tx 5 nBlockTime"
  using assms by (simp_all add: CheckLockTime_def IsFinalTx_def LOCKTIME_THRESHOLD_def CTxIn_IsFinal_def)

end
