(* ===== verification/SigCommit.thy ===== *)
theory SigCommit
  imports SigHash
begin

text \<open>
  What the signature hash of the newer formats commits to, under the hypothesis that BLAKE2b has no collision on the
  inputs that it is given, and the instances of the properties of the signature hashes.
\<close>

section \<open>What a signature commits to\<close>

text \<open>The parts that the newer formats hash, each with its personalization; a part that is left out has a zero hash.\<close>

definition opt_hash :: "blake \<Rightarrow> (bytes \<times> bytes) option \<Rightarrow> bytes" where
  "opt_hash B x = (case x of None \<Rightarrow> null256 | Some (p, d) \<Rightarrow> B p d)"

definition prevouts_data :: "'a CMutableTransaction_scheme \<Rightarrow> u32 \<Rightarrow> (bytes \<times> bytes) option" where
  "prevouts_data tx ht = (if any_one_can_pay ht then None
     else Some (ZCASH_PREVOUTS_HASH_PERSONALIZATION, concat (map COutPoint_Serialize (map prevout (vin tx)))))"

definition sequence_data :: "'a CMutableTransaction_scheme \<Rightarrow> u32 \<Rightarrow> (bytes \<times> bytes) option" where
  "sequence_data tx ht = (if any_one_can_pay ht \<or> hash_single ht \<or> hash_none ht then None
     else Some (ZCASH_SEQUENCE_HASH_PERSONALIZATION, concat (map ser_writedata32 (map nSequence (vin tx)))))"

definition signed_outputs :: "'a CMutableTransaction_scheme \<Rightarrow> nat \<Rightarrow> u32 \<Rightarrow> CTxOut list option" where
  "signed_outputs tx nIn ht = (if hash_single ht then if nIn < length (vout tx) then Some [vout tx ! nIn] else None
     else if hash_none ht then None else Some (vout tx))"

definition outputs_data :: "'a CMutableTransaction_scheme \<Rightarrow> nat \<Rightarrow> u32 \<Rightarrow> (bytes \<times> bytes) option" where
  "outputs_data tx nIn ht =
     map_option (\<lambda>os. (ZCASH_OUTPUTS_HASH_PERSONALIZATION, concat (map CTxOut_Serialize os))) (signed_outputs tx nIn ht)"

definition joinsplits_data :: "'a CMutableTransaction_scheme \<Rightarrow> (bytes \<times> bytes) option" where
  "joinsplits_data tx = (if vjoinsplit tx = [] then None else Some (ZCASH_JOINSPLITS_HASH_PERSONALIZATION,
     concat (map (\<lambda>js. the (JSDescription_Serialize (useGroth (GetHeader tx)) js)) (vjoinsplit tx)) @ joinSplitPubKey tx))"

definition spends_data :: "'a CMutableTransaction_scheme \<Rightarrow> (bytes \<times> bytes) option" where
  "spends_data tx = (if vShieldedSpend tx = [] then None
     else Some (ZCASH_SHIELDED_SPENDS_HASH_PERSONALIZATION, concat (map spend_parts (vShieldedSpend tx))))"

definition shielded_outputs_data :: "'a CMutableTransaction_scheme \<Rightarrow> (bytes \<times> bytes) option" where
  "shielded_outputs_data tx = (if vShieldedOutput tx = [] then None
     else Some (ZCASH_SHIELDED_OUTPUTS_HASH_PERSONALIZATION, concat (map OutputDescription_Serialize (vShieldedOutput tx))))"

lemma part_hashes_data:
  assumes "wf_tx tx"
  shows "part_hashes B tx nIn ht None = Some
    \<lparr>hashPrevouts = opt_hash B (prevouts_data tx ht), hashSequence = opt_hash B (sequence_data tx ht),
     hashOutputs = opt_hash B (outputs_data tx nIn ht), hashJoinSplits = opt_hash B (joinsplits_data tx),
     hashShieldedSpends = opt_hash B (spends_data tx), hashShieldedOutputs = opt_hash B (shielded_outputs_data tx)\<rparr>"
proof -
  have "those (map (JSDescription_Serialize (useGroth (GetHeader tx))) (vjoinsplit tx)) =
      Some (map (\<lambda>js. the (JSDescription_Serialize (useGroth (GetHeader tx)) js)) (vjoinsplit tx))"
    by (rule those_total) (use assms JSDescription_total in \<open>auto simp: wf_tx_def wf_parts_def list_all_iff\<close>)
  moreover have "\<not> (hash_single ht \<and> hash_none ht)"
    by (simp add: hash_single_def hash_none_def SIGHASH_SINGLE_def SIGHASH_NONE_def)
  ultimately show ?thesis
    by (auto simp: part_hashes_def opt_hash_def prevouts_data_def sequence_data_def outputs_data_def signed_outputs_def
        joinsplits_data_def spends_data_def shielded_outputs_data_def GetPrevoutHash_def GetSequenceHash_def GetOutputsHash_def
        GetJoinSplitsHash_def GetShieldedSpendsHash_def GetShieldedOutputsHash_def comp_def Let_def)
qed

text \<open>
  The inputs that the hash of one signature gives to BLAKE2b, and what it is for BLAKE2b to have no collision on them.
\<close>

definition preimage_data :: "blake \<Rightarrow> script \<Rightarrow> 'a CMutableTransaction_scheme \<Rightarrow> nat \<Rightarrow> u32 \<Rightarrow> int \<Rightarrow> u32 \<Rightarrow> (bytes \<times> bytes) option" where
  "preimage_data B scr tx nIn ht amount branch =
     map_option (\<lambda>h. (ascii ''ZcashSigHash'' @ WriteLE32 branch, overwinter_preimage scr tx nIn ht amount h)) (part_hashes B tx nIn ht None)"

definition somes :: "'a option list \<Rightarrow> 'a list" where
  "somes xs = concat (map (\<lambda>x. case x of None \<Rightarrow> [] | Some y \<Rightarrow> [y]) xs)"

lemma set_somes: "set (somes xs) = \<Union> (set (map set_option xs))"
  by (induction xs) (auto simp: somes_def split: option.splits)

definition sighash_inputs :: "blake \<Rightarrow> script \<Rightarrow> 'a CMutableTransaction_scheme \<Rightarrow> nat \<Rightarrow> u32 \<Rightarrow> int \<Rightarrow> u32 \<Rightarrow> (bytes \<times> bytes) list" where
  "sighash_inputs B scr tx nIn ht amount branch =
     somes [prevouts_data tx ht, sequence_data tx ht, outputs_data tx nIn ht, joinsplits_data tx,
       spends_data tx, shielded_outputs_data tx, preimage_data B scr tx nIn ht amount branch]"

definition collision_free :: "blake \<Rightarrow> (bytes \<times> bytes) list \<Rightarrow> bool" where
  "collision_free B xs \<longleftrightarrow>
     list_all (\<lambda>x. length (B (fst x) (snd x)) = 32 \<and> B (fst x) (snd x) \<noteq> null256) xs \<and>
     list_all (\<lambda>x. list_all (\<lambda>y. B (fst x) (snd x) = B (fst y) (snd y) \<longrightarrow> x = y) xs) xs"

text \<open>What a signature of a hash type commits to.\<close>

record signed_view =
  sv_branch :: u32
  sv_header :: u32
  sv_group :: u32
  sv_prevouts :: "COutPoint list option"
  sv_sequences :: "u32 list option"
  sv_outputs :: "CTxOut list option"
  sv_joinsplits :: "JSDescription list"
  sv_pubkey :: bytes
  sv_spends :: "SpendDescription list"
  sv_shielded :: "OutputDescription list"
  sv_locktime :: u32
  sv_expiry :: u32
  sv_balance :: int
  sv_hashtype :: u32
  sv_prevout :: COutPoint
  sv_script :: script
  sv_amount :: int
  sv_sequence :: u32

definition signed_view_of :: "script \<Rightarrow> 'a CMutableTransaction_scheme \<Rightarrow> nat \<Rightarrow> u32 \<Rightarrow> int \<Rightarrow> u32 \<Rightarrow> signed_view" where
  "signed_view_of scr tx nIn ht amount branch =
     \<lparr>sv_branch = branch, sv_header = GetHeader tx, sv_group = nVersionGroupId tx,
      sv_prevouts = (if any_one_can_pay ht then None else Some (map prevout (vin tx))),
      sv_sequences = (if any_one_can_pay ht \<or> hash_single ht \<or> hash_none ht then None else Some (map nSequence (vin tx))),
      sv_outputs = signed_outputs tx nIn ht,
      sv_joinsplits = vjoinsplit tx, sv_pubkey = joinSplitPubKey tx,
      sv_spends = map (\<lambda>d. d\<lparr>spendAuthSig := replicate 64 0\<rparr>) (vShieldedSpend tx), sv_shielded = vShieldedOutput tx,
      sv_locktime = nLockTime tx, sv_expiry = nExpiryHeight tx, sv_balance = valueBalance tx, sv_hashtype = ht,
      sv_prevout = prevout (vin tx ! nIn), sv_script = scr, sv_amount = amount, sv_sequence = nSequence (vin tx ! nIn)\<rparr>"

lemma opt_hash_length:
  assumes "collision_free B xs" and "set_option x \<subseteq> set xs"
  shows "length (opt_hash B x) = 32"
  using assms by (fastforce simp: collision_free_def opt_hash_def list_all_iff split: option.splits)

lemma opt_hash_inj:
  assumes "collision_free B xs" and "set_option x \<subseteq> set xs" and "set_option y \<subseteq> set xs" and "opt_hash B x = opt_hash B y"
  shows "x = y"
  using assms by (fastforce simp: collision_free_def opt_hash_def list_all_iff split: option.splits)

lemma opt_hash_chain:
  assumes "collision_free B xs" and "set_option x \<subseteq> set xs" and "set_option y \<subseteq> set xs"
    and "opt_hash B x @ r = opt_hash B y @ r'"
  shows "x = y \<and> r = r'"
  using assms opt_hash_length [OF assms(1)] opt_hash_inj [OF assms(1-3)] by simp

lemma writers_nonempty [simp]: "ser_writedata32 w \<noteq> []" "Serialize_int64 v \<noteq> []"
  by (simp_all add: ser_writedata32_def WriteLE32_def Serialize_int64_def ser_writedata64_def WriteLE64_def)

lemma prevouts_data_inj:
  assumes "prevouts_data tx ht = prevouts_data tx' ht" and "wf_parts tx" and "wf_parts tx'" and "\<not> any_one_can_pay ht"
  shows "map prevout (vin tx) = map prevout (vin tx')"
  using assms outpoint.concat_prefix_free [of "map prevout (vin tx)" "map prevout (vin tx')" "[]" "[]"]
  by (auto simp: prevouts_data_def wf_parts_def wf_CTxIn_def list_all_iff COutPoint_Serialize_def)

lemma sequence_data_inj:
  assumes "sequence_data tx ht = sequence_data tx' ht" and "\<not> (any_one_can_pay ht \<or> hash_single ht \<or> hash_none ht)"
  shows "map nSequence (vin tx) = map nSequence (vin tx')"
  using assms le32.concat_prefix_free [of "map nSequence (vin tx)" "map nSequence (vin tx')" "[]" "[]"]
  by (auto simp: sequence_data_def list_all_iff)

lemma signed_outputs_wf:
  assumes "signed_outputs tx nIn ht = Some os" and "wf_parts tx"
  shows "list_all (\<lambda>out. wf_CTxOut out \<and> CTxOut_Serialize out \<noteq> []) os"
  using assms by (auto simp: signed_outputs_def wf_parts_def list_all_iff CTxOut_Serialize_def split: if_splits)

lemma outputs_data_inj:
  assumes "outputs_data tx nIn ht = outputs_data tx' nIn' ht" and "wf_parts tx" and "wf_parts tx'"
  shows "signed_outputs tx nIn ht = signed_outputs tx' nIn' ht"
  using assms signed_outputs_wf [of tx nIn ht] signed_outputs_wf [of tx' nIn' ht] txout.concat_prefix_free [of _ _ "[]" "[]"]
  by (auto simp: outputs_data_def map_option_case split: option.splits)

lemma joinsplits_data_inj:
  assumes "joinsplits_data tx = joinsplits_data tx'" and "wf_tx tx" and "wf_tx tx'" and "GetHeader tx = GetHeader tx'"
  shows "vjoinsplit tx = vjoinsplit tx' \<and> joinSplitPubKey tx = joinSplitPubKey tx'"
proof -
  let ?g = "useGroth (GetHeader tx')"
  have "the (JSDescription_Serialize ?g js) \<noteq> []" if "wf_JSDescription ?g js" for js
    using JSDescription_total [OF that]
    by (auto simp: JSDescription_Serialize_def split: bind_splits)
  then show ?thesis
    using assms jsd.concat_prefix_free [of ?g "vjoinsplit tx" "vjoinsplit tx'" "joinSplitPubKey tx" "joinSplitPubKey tx'"]
    by (auto simp: joinsplits_data_def wf_tx_def wf_parts_def no_extras_def list_all_iff split: if_splits)
qed

lemma map_eq_transfer:
  "map f xs = map f ys \<Longrightarrow> (\<And>x y. x \<in> set xs \<Longrightarrow> y \<in> set ys \<Longrightarrow> f x = f y \<Longrightarrow> g x = g y) \<Longrightarrow> map g xs = map g ys"
  by (induction xs arbitrary: ys) (auto simp: Cons_eq_map_conv)

lemma spends_data_inj:
  assumes "spends_data tx = spends_data tx'" and "wf_parts tx" and "wf_parts tx'"
  shows "map (\<lambda>d. d\<lparr>spendAuthSig := replicate 64 0\<rparr>) (vShieldedSpend tx) = map (\<lambda>d. d\<lparr>spendAuthSig := replicate 64 0\<rparr>) (vShieldedSpend tx')"
proof (rule map_eq_transfer [where f = spend_parts])
  let ?w = "\<lambda>t. list_all wf_SpendDescription (vShieldedSpend t)"
  have w: "?w tx" "?w tx'" using assms(2,3) by (simp_all add: wf_parts_def)
  have len: "length (spend_parts d) = 320" if "wf_SpendDescription d" for d
    using that by (simp add: wf_SpendDescription_def spend_parts_def GROTH_PROOF_SIZE_def)
  have "concat (map (\<lambda>v. v) (map spend_parts (vShieldedSpend tx))) = concat (map (\<lambda>v. v) (map spend_parts (vShieldedSpend tx')))"
    using assms(1) by (auto simp: spends_data_def split: if_splits)
  moreover have "list_all (\<lambda>v. length v = 320 \<and> v \<noteq> []) (map spend_parts (vShieldedSpend t))" if "?w t" for t
    using that len by (fastforce simp: list_all_iff)
  note chunks = this
  ultimately show "map spend_parts (vShieldedSpend tx) = map spend_parts (vShieldedSpend tx')"
    using chunks [OF w(1)] chunks [OF w(2)] blob.concat_prefix_free [of 320 "map spend_parts (vShieldedSpend tx)" "map spend_parts (vShieldedSpend tx')" "[]" "[]"] by simp
  show "x\<lparr>spendAuthSig := replicate 64 0\<rparr> = y\<lparr>spendAuthSig := replicate 64 0\<rparr>"
    if "x \<in> set (vShieldedSpend tx)" "y \<in> set (vShieldedSpend tx')" "spend_parts x = spend_parts y" for x y
  proof -
    have "wf_SpendDescription x" "wf_SpendDescription y" using that(1,2) w by (auto simp: list_all_iff)
    then show ?thesis using that(3) by (cases x; cases y) (simp add: spend_parts_def wf_SpendDescription_def)
  qed
qed

lemma shielded_outputs_data_inj:
  assumes "shielded_outputs_data tx = shielded_outputs_data tx'" and "wf_parts tx" and "wf_parts tx'"
  shows "vShieldedOutput tx = vShieldedOutput tx'"
proof -
  have "OutputDescription_Serialize d \<noteq> []" if "wf_OutputDescription d" for d
    using that by (auto simp: OutputDescription_Serialize_def wf_OutputDescription_def)
  then show ?thesis
    using assms shout.concat_prefix_free [of "vShieldedOutput tx" "vShieldedOutput tx'" "[]" "[]"]
    by (auto simp: shielded_outputs_data_def wf_parts_def list_all_iff split: if_splits)
qed


lemma preimage_inj:
  assumes "overwinter_preimage scr tx nIn ht amount h = overwinter_preimage scr' tx' nIn' ht' amount' h'"
    and "fOverwintered tx" and "fOverwintered tx'" and "nIn < length (vin tx)" and "nIn' < length (vin tx')"
    and "wf_parts tx" and "wf_parts tx'" and "nIn \<noteq> NOT_AN_INPUT" and "nIn' \<noteq> NOT_AN_INPUT"
    and "length scr \<le> MAX_SIZE" and "length scr' \<le> MAX_SIZE" and "is_int64 amount" and "is_int64 amount'"
    and "list_all (\<lambda>f. length (f h) = 32 \<and> length (f h') = 32)
      [hashPrevouts, hashSequence, hashOutputs, hashJoinSplits, hashShieldedSpends, hashShieldedOutputs]"
  shows "GetHeader tx = GetHeader tx'" and "nVersionGroupId tx = nVersionGroupId tx'"
    and "hashPrevouts h = hashPrevouts h'" and "hashSequence h = hashSequence h'" and "hashOutputs h = hashOutputs h'"
    and "hashJoinSplits h = hashJoinSplits h'"
    and "SignatureHashVersion tx = SIGVERSION_SAPLING \<Longrightarrow> hashShieldedSpends h = hashShieldedSpends h' \<and>
      hashShieldedOutputs h = hashShieldedOutputs h' \<and> valueBalance tx = valueBalance tx'"
    and "nLockTime tx = nLockTime tx'" and "nExpiryHeight tx = nExpiryHeight tx'" and "ht = ht'"
    and "prevout (vin tx ! nIn) = prevout (vin tx' ! nIn')" and "scr = scr'" and "amount = amount'"
    and "nSequence (vin tx ! nIn) = nSequence (vin tx' ! nIn')"
proof -
  have wf: "wf_COutPoint (prevout (vin tx ! nIn))" "wf_COutPoint (prevout (vin tx' ! nIn'))" "is_int64 (valueBalance tx)" "is_int64 (valueBalance tx')"
    using assms(4-7) by (auto simp: wf_parts_def wf_CTxIn_def list_all_length)
  show hg: "GetHeader tx = GetHeader tx'" "nVersionGroupId tx = nVersionGroupId tx'"
    using assms(1) unfolding overwinter_preimage_def by (auto dest!: le32.prefix_free [OF TrueI TrueI])
  have v: "SignatureHashVersion tx' = SignatureHashVersion tx" using hg assms(2,3) by (simp add: SignatureHashVersion_def)
  note p = assms(1) [unfolded overwinter_preimage_def hg v]
  show "hashPrevouts h = hashPrevouts h'" "hashSequence h = hashSequence h'" "hashOutputs h = hashOutputs h'" "hashJoinSplits h = hashJoinSplits h'"
    using p assms(14) by simp_all
  have q: "(if SignatureHashVersion tx = SIGVERSION_SAPLING then hashShieldedSpends h @ hashShieldedOutputs h else []) @
      ser_writedata32 (nLockTime tx) @ ser_writedata32 (nExpiryHeight tx) @
      (if SignatureHashVersion tx = SIGVERSION_SAPLING then Serialize_int64 (valueBalance tx) else []) @
      ser_writedata32 ht @ COutPoint_Serialize (prevout (vin tx ! nIn)) @ Serialize_bytes scr @ Serialize_int64 amount @
        ser_writedata32 (nSequence (vin tx ! nIn)) @ [] =
     (if SignatureHashVersion tx = SIGVERSION_SAPLING then hashShieldedSpends h' @ hashShieldedOutputs h' else []) @
      ser_writedata32 (nLockTime tx') @ ser_writedata32 (nExpiryHeight tx') @
      (if SignatureHashVersion tx = SIGVERSION_SAPLING then Serialize_int64 (valueBalance tx') else []) @
      ser_writedata32 ht' @ COutPoint_Serialize (prevout (vin tx' ! nIn')) @ Serialize_bytes scr' @ Serialize_int64 amount' @
        ser_writedata32 (nSequence (vin tx' ! nIn')) @ []"
    using p assms(8,9,14) by simp
  show "SignatureHashVersion tx = SIGVERSION_SAPLING \<Longrightarrow> hashShieldedSpends h = hashShieldedSpends h' \<and>
      hashShieldedOutputs h = hashShieldedOutputs h' \<and> valueBalance tx = valueBalance tx'"
    "nLockTime tx = nLockTime tx'" "nExpiryHeight tx = nExpiryHeight tx'" "ht = ht'"
    "prevout (vin tx ! nIn) = prevout (vin tx' ! nIn')" "scr = scr'" "amount = amount'"
    "nSequence (vin tx ! nIn) = nSequence (vin tx' ! nIn')"
    using q assms(10-14) wf
    by (auto split: if_splits dest!: le32.prefix_free [OF TrueI TrueI] i64.prefix_free [rotated 2] outpoint.prefix_free [rotated 2]
        vbytes.prefix_free [rotated 2] le32.wr_inj [OF TrueI TrueI])
qed


lemma WriteLE32_inj: "WriteLE32 x = WriteLE32 y \<Longrightarrow> x = y"
  by (metis read_write(2))

text \<open>
  C27: when BLAKE2b has no collision on the inputs of two signature hashes of the newer formats, equal hashes mean that
  the two signatures commit to the same: the same format, branch, hash type, lock time, expiry, signed input with its
  script and amount, shielded parts, and the inputs and outputs that the hash type covers.
\<close>

theorem SignatureHash_commits:
  assumes "wf_tx tx" and "wf_tx tx'" and "fOverwintered tx" and "fOverwintered tx'"
    and "nIn < length (vin tx)" and "nIn' < length (vin tx')" and "length scr \<le> MAX_SIZE" and "length scr' \<le> MAX_SIZE"
    and "is_int64 amount" and "is_int64 amount'"
    and "collision_free B (sighash_inputs B scr tx nIn ht amount branch @ sighash_inputs B scr' tx' nIn' ht' amount' branch')"
    and "SignatureHash B scr tx nIn ht amount branch None = SignatureHash B scr' tx' nIn' ht' amount' branch' None"
  shows "signed_view_of scr tx nIn ht amount branch = signed_view_of scr' tx' nIn' ht' amount' branch'"
proof -
  let ?S = "sighash_inputs B scr tx nIn ht amount branch @ sighash_inputs B scr' tx' nIn' ht' amount' branch'"
  note cf = assms(11)
  have wf: "wf_parts tx" "wf_parts tx'" "nIn \<noteq> NOT_AN_INPUT" "nIn' \<noteq> NOT_AN_INPUT" "no_extras tx" "no_extras tx'"
    using assms(1,2,5,6) by (auto simp: wf_tx_def wf_parts_def NOT_AN_INPUT_def MAX_SIZE_def)
  have v: "SignatureHashVersion tx \<noteq> SIGVERSION_SPROUT" "SignatureHashVersion tx' \<noteq> SIGVERSION_SPROUT"
    using assms(3,4) by (simp_all add: SignatureHashVersion_def)
  have sub: "set_option x \<subseteq> set ?S"
    if "x \<in> set [prevouts_data tx ht, sequence_data tx ht, outputs_data tx nIn ht, joinsplits_data tx, spends_data tx, shielded_outputs_data tx,
      preimage_data B scr tx nIn ht amount branch, prevouts_data tx' ht', sequence_data tx' ht', outputs_data tx' nIn' ht', joinsplits_data tx',
      spends_data tx', shielded_outputs_data tx', preimage_data B scr' tx' nIn' ht' amount' branch']" for x
    using that by (auto simp: sighash_inputs_def set_somes)
  note inj = opt_hash_inj [OF cf sub sub] and len = opt_hash_length [OF cf sub]
  have "opt_hash B (preimage_data B scr tx nIn ht amount branch) = opt_hash B (preimage_data B scr' tx' nIn' ht' amount' branch')"
    using assms(5,6,12) v wf(3,4) part_hashes_data [OF assms(1)] part_hashes_data [OF assms(2)]
    by (simp add: SignatureHash_def preimage_data_def opt_hash_def)
  then have "preimage_data B scr tx nIn ht amount branch = preimage_data B scr' tx' nIn' ht' amount' branch'"
    by (rule inj [rotated 2]) simp_all
  then have br: "WriteLE32 branch = WriteLE32 branch'" and eq: "overwinter_preimage scr tx nIn ht amount (the (part_hashes B tx nIn ht None)) =
      overwinter_preimage scr' tx' nIn' ht' amount' (the (part_hashes B tx' nIn' ht' None))"
    using part_hashes_data [OF assms(1)] part_hashes_data [OF assms(2)] by (simp_all add: preimage_data_def)
  have "list_all (\<lambda>x. length (opt_hash B x) = 32) [prevouts_data tx ht, prevouts_data tx' ht', sequence_data tx ht, sequence_data tx' ht',
      outputs_data tx nIn ht, outputs_data tx' nIn' ht', joinsplits_data tx, joinsplits_data tx', spends_data tx, spends_data tx',
      shielded_outputs_data tx, shielded_outputs_data tx']"
    by (simp add: len)
  note parts = preimage_inj [OF eq assms(3,4,5,6) wf(1-4) assms(7-10), unfolded part_hashes_data [OF assms(1)] part_hashes_data [OF assms(2)],
      simplified, OF this [simplified]]
  have d: "prevouts_data tx ht = prevouts_data tx' ht'" "sequence_data tx ht = sequence_data tx' ht'"
      "outputs_data tx nIn ht = outputs_data tx' nIn' ht'" "joinsplits_data tx = joinsplits_data tx'"
    by (rule inj, simp, simp, rule parts(3), rule inj, simp, simp, rule parts(4), rule inj, simp, simp, rule parts(5),
        rule inj, simp, simp, rule parts(6))
  have e: "spends_data tx = spends_data tx' \<and> shielded_outputs_data tx = shielded_outputs_data tx' \<and> valueBalance tx = valueBalance tx'"
  proof (cases "SignatureHashVersion tx = SIGVERSION_SAPLING")
    case True
    note f = parts(7) [OF True]
    have "spends_data tx = spends_data tx'" by (rule inj, simp, simp) (use f in simp)
    moreover have "shielded_outputs_data tx = shielded_outputs_data tx'" by (rule inj, simp, simp) (use f in simp)
    ultimately show ?thesis using f by simp
  next
    case False
    then have "\<not> isSaplingV4 tx" "\<not> isSaplingV4 tx'" using parts(2) assms(3) by (auto simp: SignatureHashVersion_def isSaplingV4_def)
    then show ?thesis using wf(5,6) by (simp add: no_extras_def spends_data_def shielded_outputs_data_def)
  qed
  show ?thesis
    using parts(1,2,8-14) d e prevouts_data_inj [of tx ht tx'] sequence_data_inj [of tx ht tx'] outputs_data_inj [of tx nIn ht tx' nIn']
      joinsplits_data_inj [of tx tx'] spends_data_inj [of tx tx'] shielded_outputs_data_inj [of tx tx'] assms(1,2) wf(1,2) br WriteLE32_inj
    by (auto simp: signed_view_of_def)
qed

section \<open>Every hash is one\<close>

lemma PrecomputedTransactionData_total: "wf_tx tx \<Longrightarrow> \<exists>c. PrecomputedTransactionData_init B tx = Some c"
proof -
  assume "wf_tx tx"
  then have "those (map (JSDescription_Serialize (useGroth (GetHeader tx))) (vjoinsplit tx)) =
      Some (map (\<lambda>js. the (JSDescription_Serialize (useGroth (GetHeader tx)) js)) (vjoinsplit tx))"
    by (intro those_total) (use JSDescription_total in \<open>auto simp: wf_tx_def wf_parts_def list_all_iff\<close>)
  then show ?thesis by (simp add: PrecomputedTransactionData_init_def GetJoinSplitsHash_def)
qed

text \<open>
  C29: what \<^verbatim>\<open>SignatureHash\<close> gives on a well-formed transaction, on every branch. An index past the inputs that is not
  \<^verbatim>\<open>NOT_AN_INPUT\<close> is a logic error. In the newer formats every other call gives 32 bytes, also for \<^verbatim>\<open>SIGHASH_SINGLE\<close> without a matching
  output. In the legacy format \<^verbatim>\<open>SIGHASH_SINGLE\<close> without a matching output is a logic error, \<^verbatim>\<open>NOT_AN_INPUT\<close> with
  \<^verbatim>\<open>SIGHASH_ANYONECANPAY\<close> reads an input that does not exist, and everything else gives 32 bytes. The hashes of the
  transaction may have been computed in advance.
\<close>

theorem SignatureHash_typed:
  assumes "wf_tx tx" and "\<And>p d. length (B p d) = 32" and "cache = None \<or> cache = PrecomputedTransactionData_init B tx"
  shows "let result = SignatureHash B scr tx nIn ht amount branch cache in
    if length (vin tx) \<le> nIn \<and> nIn \<noteq> NOT_AN_INPUT then result = Inl LogicError
    else if \<not> fOverwintered tx \<and> hash_single ht \<and> length (vout tx) \<le> nIn then result = Inl LogicError
    else if \<not> fOverwintered tx \<and> any_one_can_pay ht \<and> length (vin tx) \<le> nIn then result = Inl NoSuchInput
    else \<exists>h. result = Inr h \<and> length h = 32"
proof -
  have c: "SignatureHash B scr tx nIn ht amount branch cache = SignatureHash B scr tx nIn ht amount branch None"
    using assms(3) PrecomputedTransactionData_total [OF assms(1), of B] SignatureHash_cached by auto
  show ?thesis
  proof (cases "fOverwintered tx")
    case True
    then show ?thesis unfolding c using assms(2) part_hashes_data [OF assms(1)] by (auto simp: SignatureHash_def SignatureHashVersion_def Let_def)
  next
    case False
    obtain p where "SignatureSerializer tx scr nIn ht = Some p" using SignatureSerializer_total [OF assms(1) False] by blast
    moreover have "CHash256_Finalize (CHash256_Write (CHash256_Write CSHA256_init p) (ser_writedata32 ht)) = Some (double_sha256 (p @ ser_writedata32 ht))"
      unfolding CHash256_Write_def by (rule CHash256_Finalize_fed) (rule fed_write [OF fed_first])
    ultimately show ?thesis unfolding c using False by (auto simp: SignatureHash_def SignatureHashVersion_def Let_def length_double_sha256)
  qed
qed

section \<open>Instances\<close>

definition spent_input :: "nat \<Rightarrow> CTxIn" where
  "spent_input n = \<lparr>prevout = \<lparr>outp_hash = replicate 32 7, outp_n = word_of_nat n\<rparr>, txin_script = [], nSequence = 0xfffffffe\<rparr>"

definition legacy_tx :: CMutableTransaction where
  "legacy_tx = CMutableTransaction_init\<lparr>nVersion := 1, vin := [spent_input 0, spent_input 1],
     vout := [\<lparr>nValue = 5, txout_script = [0x51]\<rparr>], nLockTime := 100\<rparr>"

definition sapling_tx :: "CTxIn list \<Rightarrow> CTxOut list \<Rightarrow> CMutableTransaction" where
  "sapling_tx ins outs = CMutableTransaction_init\<lparr>fOverwintered := True, nVersion := SAPLING_TX_VERSION,
     nVersionGroupId := SAPLING_VERSION_GROUP_ID, vin := ins, vout := outs\<rparr>"

lemma wf_spent_input: "wf_CTxIn (spent_input n)"
  by (simp add: wf_CTxIn_def spent_input_def)

lemma wf_legacy_tx: "wf_tx legacy_tx"
  by (simp add: legacy_tx_def wf_spent_input CMutableTransaction_init_def wf_tx_def known_format_def wf_parts_def no_extras_def
      wf_CTxOut_def is_int64_def MAX_SIZE_def isOverwinterV3_def isSaplingV4_def)

lemma wf_sapling_tx:
  assumes "length ins \<le> MAX_SIZE" and "length outs \<le> MAX_SIZE" and "list_all wf_CTxIn ins" and "list_all wf_CTxOut outs"
  shows "wf_tx (sapling_tx ins outs)"
  using assms by (simp add: sapling_tx_def CMutableTransaction_init_def wf_tx_def known_format_def wf_parts_def no_extras_def
      is_int64_def isOverwinterV3_def isSaplingV4_def SAPLING_TX_VERSION_def)

lemma single_2: "\<not> hash_single 0x82" "hash_none 0x82" "any_one_can_pay 0x82" "\<not> hash_single 1"
  by (simp_all add: hash_single_def hash_none_def any_one_can_pay_def SIGHASH_SINGLE_def SIGHASH_NONE_def SIGHASH_ANYONECANPAY_def)

theorem SignatureHash_legacy_witness:
  "\<exists>p. tx_Serialize (legacy_copy legacy_tx [0x51] 1 1) = Some p \<and>
    SignatureHash (\<lambda>p d. []) [0x51] legacy_tx 1 1 5 0 None = Inr (double_sha256 (p @ ser_writedata32 1))"
  using SignatureHash_legacy [OF wf_legacy_tx, of 1 1 "[0x51]" "\<lambda>p d. []" 5 0 None]
  by (simp add: single_2 NOT_AN_INPUT_def) (simp add: legacy_tx_def CMutableTransaction_init_def)

definition any_secp :: "unit secp" where
  "any_secp = \<lparr>pubkey_parse = (\<lambda>_. Some ()), sig_parse_der = Some, sig_normalize = id, ecdsa_verify = (\<lambda>_ _ _. True)\<rparr>"

definition any_cclib :: "unit cclib" where
  "any_cclib = \<lparr>cc_read = (\<lambda>_. Some ()), cc_supported = (\<lambda>_. True), cc_signed = (\<lambda>_. True), cc_pubkey = (\<lambda>_. []), cc_check = (\<lambda>_ _ _. 1)\<rparr>"

definition locking_ctx :: "CMutableTransaction \<Rightarrow> script_ctx" where
  "locking_ctx tx = \<lparr>vflags = SCRIPT_VERIFY_CHECKLOCKTIMEVERIFY,
     checker = TransactionSignatureChecker any_secp any_cclib (\<lambda>p d. []) tx 0 0 None,
     branchId = 0, lowS = (\<lambda>_. True), ccEnabled = False\<rparr>"

lemma locking_flag: "has_flag (locking_ctx tx) SCRIPT_VERIFY_CHECKLOCKTIMEVERIFY"
  by (simp add: has_flag_def locking_ctx_def SCRIPT_VERIFY_CHECKLOCKTIMEVERIFY_def)

lemma locking_number: "CScriptNum [100, 0] False 5 = Inr 100" "fRequireMinimal (locking_ctx tx) = False"
  by (simp_all add: CScriptNum_def set_vch_val num_val_def, simp add: fRequireMinimal_def has_flag_def locking_ctx_def
      SCRIPT_VERIFY_CHECKLOCKTIMEVERIFY_def SCRIPT_VERIFY_MINIMALDATA_def)

lemma locking_script: "EvalScript (locking_ctx legacy_tx) [] [2, 100, 0, 0xb1] = Inr [[100, 0]]"
proof -
  let ?c = "locking_ctx legacy_tx" and ?scr = "[2, 100, 0, 0xb1] :: script"
  have "op_cltv ?c [[100, 0]] = Inr [[100, 0]]"
    by (simp add: op_cltv_def locking_flag locking_number)
      (simp add: locking_ctx_def TransactionSignatureChecker_def CheckLockTime_def legacy_tx_def LOCKTIME_THRESHOLD_def spent_input_def CTxIn_IsFinal_def)
  then have "eval_loop ?c ?scr [0xb1] (start [[100, 0]]) = Inr ((start [[100, 0]])\<lparr>nOpCount := 1\<rparr>)"
    by (subst eval_op) (simp_all add: start_def disabled_opcodes_def exec_op_def op_table_def on_stack_def eval_loop_Nil)
  moreover have "eval_loop ?c ?scr ?scr (start []) = eval_loop ?c ?scr [0xb1] (start [[100, 0]])"
    using eval_push [of "[100, 0]" 2 "start []" ?c ?scr "[0xb1]"] by (simp add: start_def)
  ultimately show ?thesis by (simp add: EvalScript_start catch_all_def) (simp add: start_def MAX_SCRIPT_SIZE_def)
qed

theorem cltv_enforced_witness:
  "\<exists>lock. CScriptNum [100, 0] (fRequireMinimal (locking_ctx legacy_tx)) 5 = Inr lock \<and>
    (if lock < LOCKTIME_THRESHOLD then lock \<le> 100 else lock \<le> 7)"
proof (rule cltv_enforced [where st = "[]" and rest = "[]" and v = "[100, 0]" and nIn = 0 and tx = legacy_tx and ctx = "locking_ctx legacy_tx"
      and ch = "\<lparr>on_KMD = True, active_height = 1670001\<rparr>"])
  show "EvalScript (locking_ctx legacy_tx) [] (word_of_nat (length [100, 0 :: byte]) # [100, 0] @ [0xb1]) = Inr [[100, 0]]"
    using locking_script by simp
  show "checker (locking_ctx legacy_tx) = TransactionSignatureChecker any_secp any_cclib (\<lambda>p d. []) legacy_tx 0 0 None"
    by (simp add: locking_ctx_def)
qed (simp_all add: locking_flag legacy_tx_def CMutableTransaction_init_def IsFinalTx_def LOCKTIME_THRESHOLD_def
    spent_input_def CTxIn_IsFinal_def komodo_hardfork_active_def nDecemberHardforkHeight_def)

theorem SignatureHash_typed_witness:
  "(\<exists>h. SignatureHash (\<lambda>p d. replicate 32 1) [] (sapling_tx [spent_input 3] []) 0 3 5 7 None = Inr h \<and> length h = 32) \<and>
   SignatureHash (\<lambda>p d. replicate 32 1) [] legacy_tx 1 3 5 7 None = Inl LogicError \<and>
   SignatureHash (\<lambda>p d. replicate 32 1) [] legacy_tx NOT_AN_INPUT 0x81 5 7 None = Inl NoSuchInput"
proof (intro conjI)
  show "\<exists>h. SignatureHash (\<lambda>p d. replicate 32 1) [] (sapling_tx [spent_input 3] []) 0 3 5 7 None = Inr h \<and> length h = 32"
    using SignatureHash_typed [OF wf_sapling_tx [of "[spent_input 3]" "[]"], where B = "\<lambda>p d. replicate 32 1" and cache = None and scr = "[]" and nIn = 0 and ht = 3 and amount = 5 and branch = 7]
    by (simp add: wf_spent_input MAX_SIZE_def Let_def) (simp add: sapling_tx_def)
  show "SignatureHash (\<lambda>p d. replicate 32 1) [] legacy_tx 1 3 5 7 None = Inl LogicError"
    using SignatureHash_typed [OF wf_legacy_tx, where B = "\<lambda>p d. replicate 32 1" and cache = None and scr = "[]" and nIn = 1 and ht = 3 and amount = 5 and branch = 7]
    by (simp add: Let_def legacy_tx_def CMutableTransaction_init_def hash_single_def SIGHASH_SINGLE_def)
  show "SignatureHash (\<lambda>p d. replicate 32 1) [] legacy_tx NOT_AN_INPUT 0x81 5 7 None = Inl NoSuchInput"
    using SignatureHash_typed [OF wf_legacy_tx, where B = "\<lambda>p d. replicate 32 1" and cache = None and scr = "[]" and nIn = NOT_AN_INPUT and ht = "0x81" and amount = 5 and branch = 7]
    by (simp add: Let_def legacy_tx_def CMutableTransaction_init_def hash_single_def any_one_can_pay_def SIGHASH_SINGLE_def SIGHASH_ANYONECANPAY_def NOT_AN_INPUT_def)
qed

text \<open>A signature of an input only, which does not change when another input and an output are added.\<close>

abbreviation ones :: blake where "ones \<equiv> \<lambda>p d. replicate 32 1"

theorem SignatureHash_commits_witness:
  "signed_view_of [0x51] (sapling_tx [spent_input 3] []) 0 0x82 5 7 =
   signed_view_of [0x51] (sapling_tx [spent_input 4, spent_input 3] [\<lparr>nValue = 5, txout_script = []\<rparr>]) 1 0x82 5 7"
proof (rule SignatureHash_commits [where B = ones])
  show "wf_tx (sapling_tx [spent_input 3] [])"
    by (rule wf_sapling_tx) (simp_all add: wf_spent_input MAX_SIZE_def)
  show "wf_tx (sapling_tx [spent_input 4, spent_input 3] [\<lparr>nValue = 5, txout_script = []\<rparr>])"
    by (rule wf_sapling_tx) (simp_all add: wf_spent_input MAX_SIZE_def wf_CTxOut_def is_int64_def)
qed (simp_all add: sapling_tx_def CMutableTransaction_init_def collision_free_def sighash_inputs_def somes_def single_2 prevouts_data_def sequence_data_def
    outputs_data_def signed_outputs_def joinsplits_data_def spends_data_def shielded_outputs_data_def preimage_data_def part_hashes_def
    Let_def overwinter_preimage_def SignatureHashVersion_def GetHeader_def NOT_AN_INPUT_def MAX_SIZE_def is_int64_def SignatureHash_def)

end
