(* ===== verification/CheckQueue.thy ===== *)
theory CheckQueue
  imports Prelude "HOL-Library.Multiset"
begin

text \<open>
  The queue of checks that the threads of script verification share, after \<^verbatim>\<open>src/src/checkqueue.h\<close>. A critical section
  under the queue's mutex is one step; the threads' steps are interleaved in every order. The checks are values of a type
  with a function that gives their result.
\<close>

section \<open>The queue\<close>

record 'c check_queue =
  cqueue :: "'c list"
  nIdle :: int
  nTotal :: int
  fAllOk :: bool
  nTodo :: u32
  fQuit :: bool
  nBatchSize :: u32

definition CCheckQueue_init :: "u32 \<Rightarrow> 'c check_queue" where
  "CCheckQueue_init nBatchSizeIn =
     \<lparr>cqueue = [], nIdle = 0, nTotal = 0, fAllOk = True, nTodo = 0, fQuit = False, nBatchSize = nBatchSizeIn\<rparr>"

text \<open>The clean-up of the previous run of the loop, and whether the master is notified.\<close>

definition Loop_cleanup :: "bool \<Rightarrow> nat \<Rightarrow> bool \<Rightarrow> 'c check_queue \<Rightarrow> 'c check_queue \<times> bool" where
  "Loop_cleanup fMaster nNow fOk q =
     (if nNow \<noteq> 0
      then let q' = q\<lparr>fAllOk := fAllOk q \<and> fOk, nTodo := nTodo q - word_of_nat nNow\<rparr>
           in (q', nTodo q' = 0 \<and> \<not> fMaster)
      else (q\<lparr>nTotal := nTotal q + 1\<rparr>, False))"

definition Loop_nNow :: "'c check_queue \<Rightarrow> nat" where
  "Loop_nNow q = nat (max 1 (min (uint (nBatchSize q)) (int (length (cqueue q)) div (nTotal q + nIdle q + 1))))"

text \<open>What a thread does after the mutex: return, wait on its condition, or execute a batch.\<close>

datatype 'c outcome = Returns bool | Waits | Executes "'c list" bool

definition Loop_section :: "bool \<Rightarrow> 'c check_queue \<Rightarrow> 'c outcome \<times> 'c check_queue" where
  "Loop_section fMaster q =
     (if cqueue q = []
      then if (fMaster \<or> fQuit q) \<and> nTodo q = 0
           then (Returns (fAllOk q), q\<lparr>nTotal := nTotal q - 1, fAllOk := (if fMaster then True else fAllOk q)\<rparr>)
           else (Waits, q\<lparr>nIdle := nIdle q + 1\<rparr>)
      else let nNow = Loop_nNow q
           in (Executes (take nNow (rev (cqueue q))) (fAllOk q), q\<lparr>cqueue := take (length (cqueue q) - nNow) (cqueue q)\<rparr>))"

definition CCheckQueue_Add :: "'c list \<Rightarrow> 'c check_queue \<Rightarrow> 'c check_queue" where
  "CCheckQueue_Add vChecks q = q\<lparr>cqueue := cqueue q @ vChecks, nTodo := nTodo q + word_of_nat (length vChecks)\<rparr>"

section \<open>The threads\<close>

text \<open>
  Where a thread is: not in the loop, before its first critical section, waiting on its condition (and whether it has
  been notified), or executing a batch, of which the first \<open>k\<close> checks are done. The first thread is the master.
\<close>

datatype 'c thread = Away | Entering | Waiting bool | Working "'c list" nat bool

text \<open>\<open>added\<close> and \<open>finished\<close> record the checks of the current round and those whose result has been accounted for.\<close>

record 'c system =
  pool :: "'c check_queue"
  threads :: "'c thread list"
  added :: "'c list"
  finished :: "'c list"

definition notify :: "'c thread \<Rightarrow> 'c thread" where
  "notify th = (case th of Waiting _ \<Rightarrow> Waiting True | _ \<Rightarrow> th)"

definition notify_master :: "bool \<Rightarrow> 'c thread list \<Rightarrow> 'c thread list" where
  "notify_master b ths = (if b then ths[0 := notify (ths ! 0)] else ths)"

text \<open>The wake-ups that \<^verbatim>\<open>Add\<close> may cause: none for no check, at most one worker for one check, every worker for more.\<close>

definition worker_wakeups :: "nat \<Rightarrow> 'c thread list \<Rightarrow> 'c thread list list" where
  "worker_wakeups n ths =
     (if n = 0 then [ths]
      else if n = 1
      then let ws = filter (\<lambda>i. 0 < i \<and> ths ! i = Waiting False) [0..<length ths]
           in if ws = [] then [ths] else map (\<lambda>i. ths[i := Waiting True]) ws
      else [take 1 ths @ map notify (drop 1 ths)])"

text \<open>A thread after its critical section, and the result if it has left the loop.\<close>

definition after_section :: "'c outcome \<Rightarrow> 'c thread" where
  "after_section out = (case out of Returns _ \<Rightarrow> Away | Waits \<Rightarrow> Waiting False | Executes vChecks fOk \<Rightarrow> Working vChecks 0 fOk)"

datatype 'c event = EAdd "'c list" | EWait | ERun nat | ESpurious nat | EReturn nat bool

definition event_of :: "nat \<Rightarrow> 'c outcome \<Rightarrow> 'c event" where
  "event_of i out = (case out of Returns r \<Rightarrow> EReturn i r | _ \<Rightarrow> ERun i)"

definition start_round :: "nat \<Rightarrow> 'c outcome \<Rightarrow> 'c system \<Rightarrow> 'c system" where
  "start_round i out s = (case out of Returns _ \<Rightarrow> if i = 0 then s\<lparr>added := [], finished := []\<rparr> else s | _ \<Rightarrow> s)"

text \<open>One critical section of thread \<open>i\<close> with the clean-up of a batch of size \<open>nNow\<close>.\<close>

definition loop_step :: "nat \<Rightarrow> nat \<Rightarrow> bool \<Rightarrow> 'c system \<Rightarrow> 'c event \<times> 'c system" where
  "loop_step i nNow fOk s =
     (let (q1, note) = Loop_cleanup (i = 0) nNow fOk (pool s);
          (out, q2) = Loop_section (i = 0) q1
      in (event_of i out, start_round i out (s\<lparr>pool := q2, threads := (notify_master note (threads s))[i := after_section out]\<rparr>)))"

definition wake_step :: "nat \<Rightarrow> 'c system \<Rightarrow> 'c event \<times> 'c system" where
  "wake_step i s =
     (let q1 = (pool s)\<lparr>nIdle := nIdle (pool s) - 1\<rparr>;
          (out, q2) = Loop_section (i = 0) q1
      in (event_of i out, start_round i out (s\<lparr>pool := q2, threads := (threads s)[i := after_section out]\<rparr>)))"

text \<open>
  The steps. \<^verbatim>\<open>Add\<close> and \<^verbatim>\<open>Wait\<close> are called by the master while it is not in the loop, and there are never more checks in
  a round than an \<^verbatim>\<open>unsigned int\<close> holds.
\<close>

inductive step :: "('c \<Rightarrow> bool) \<Rightarrow> 'c system \<Rightarrow> 'c event \<Rightarrow> 'c system \<Rightarrow> bool" for check where
  add: "threads s ! 0 = Away \<Longrightarrow> length (added s) + length vs < 2 ^ 32 \<Longrightarrow> ths \<in> set (worker_wakeups (length vs) (threads s)) \<Longrightarrow>
    step check s (EAdd vs) (s\<lparr>pool := CCheckQueue_Add vs (pool s), threads := ths, added := added s @ vs\<rparr>)"
| wait: "threads s ! 0 = Away \<Longrightarrow> step check s EWait (s\<lparr>threads := (threads s)[0 := Entering]\<rparr>)"
| enter: "i < length (threads s) \<Longrightarrow> threads s ! i = Entering \<Longrightarrow> loop_step i 0 True s = (e, s') \<Longrightarrow> step check s e s'"
| exec: "i < length (threads s) \<Longrightarrow> threads s ! i = Working vs k fOk \<Longrightarrow> k < length vs \<Longrightarrow>
    step check s (ERun i) (s\<lparr>threads := (threads s)[i := Working vs (k + 1) (fOk \<and> check (vs ! k))]\<rparr>)"
| finish: "i < length (threads s) \<Longrightarrow> threads s ! i = Working vs k fOk \<Longrightarrow> k = length vs \<Longrightarrow>
    loop_step i (length vs) fOk (s\<lparr>finished := finished s @ vs\<rparr>) = (e, s') \<Longrightarrow> step check s e s'"
| wake: "i < length (threads s) \<Longrightarrow> threads s ! i = Waiting True \<Longrightarrow> wake_step i s = (e, s') \<Longrightarrow> step check s e s'"
| spurious: "i < length (threads s) \<Longrightarrow> threads s ! i = Waiting False \<Longrightarrow> wake_step i s = (e, s') \<Longrightarrow>
    step check s (case e of ERun j \<Rightarrow> ESpurious j | _ \<Rightarrow> e) s'"

definition initial :: "u32 \<Rightarrow> nat \<Rightarrow> 'c system" where
  "initial batch workers = \<lparr>pool = CCheckQueue_init batch, threads = Away # replicate workers Entering, added = [], finished = []\<rparr>"

inductive reachable :: "('c \<Rightarrow> bool) \<Rightarrow> u32 \<Rightarrow> nat \<Rightarrow> 'c system \<Rightarrow> bool" for check batch workers where
  init: "reachable check batch workers (initial batch workers)"
| next_step: "reachable check batch workers s \<Longrightarrow> step check s e s' \<Longrightarrow> reachable check batch workers s'"

inductive run :: "('c \<Rightarrow> bool) \<Rightarrow> 'c system \<Rightarrow> 'c event list \<Rightarrow> 'c system \<Rightarrow> bool" for check where
  stop: "run check s [] s"
| more: "step check s e s1 \<Longrightarrow> run check s1 es s' \<Longrightarrow> run check s (e # es) s'"

section \<open>The invariant\<close>

primrec flight :: "'c thread \<Rightarrow> 'c list" where
  "flight Away = []" | "flight Entering = []" | "flight (Waiting b) = []" | "flight (Working vs k fOk) = vs"

primrec in_loop :: "'c thread \<Rightarrow> int" where
  "in_loop Away = 0" | "in_loop Entering = 0" | "in_loop (Waiting b) = 1" | "in_loop (Working vs k fOk) = 1"

primrec is_waiting :: "'c thread \<Rightarrow> int" where
  "is_waiting Away = 0" | "is_waiting Entering = 0" | "is_waiting (Waiting b) = 1" | "is_waiting (Working vs k fOk) = 0"

abbreviation inflight :: "'c thread list \<Rightarrow> 'c multiset" where
  "inflight ths \<equiv> (\<Sum>th\<leftarrow>ths. mset (flight th))"

text \<open>A thread's batch is not empty; its result is that of the checks done so far, or false because some check of the round fails.\<close>

definition thread_ok :: "('c \<Rightarrow> bool) \<Rightarrow> 'c list \<Rightarrow> 'c thread \<Rightarrow> bool" where
  "thread_ok check round th = (case th of
     Working vs k fOk \<Rightarrow> vs \<noteq> [] \<and> k \<le> length vs \<and> (if fOk then list_all check (take k vs) else \<not> list_all check round)
   | _ \<Rightarrow> True)"

definition core :: "('c \<Rightarrow> bool) \<Rightarrow> 'c system \<Rightarrow> bool" where
  "core check s \<longleftrightarrow> mset (added s) = mset (cqueue (pool s)) + inflight (threads s) + mset (finished s) \<and> length (added s) < 2 ^ 32 \<and>
     nTodo (pool s) = word_of_nat (length (cqueue (pool s)) + size (inflight (threads s))) \<and>
     (if fAllOk (pool s) then list_all check (finished s) else \<not> list_all check (added s)) \<and>
     list_all (thread_ok check (added s)) (threads s) \<and> \<not> fQuit (pool s)"

definition counts :: "int \<Rightarrow> 'c system \<Rightarrow> bool" where
  "counts k s \<longleftrightarrow> nTotal (pool s) = k + (\<Sum>th\<leftarrow>threads s. in_loop th) \<and> nIdle (pool s) = (\<Sum>th\<leftarrow>threads s. is_waiting th)"

text \<open>The master waits only for batches that others execute, or it has been notified.\<close>

definition master_ok :: "'c system \<Rightarrow> bool" where
  "master_ok s \<longleftrightarrow> (case threads s ! 0 of Waiting b \<Rightarrow> cqueue (pool s) = [] \<and> (b \<or> inflight (threads s) \<noteq> {#}) | _ \<Rightarrow> True)"

definition queue_inv :: "('c \<Rightarrow> bool) \<Rightarrow> 'c system \<Rightarrow> bool" where
  "queue_inv check s \<longleftrightarrow> core check s \<and> counts 0 s \<and> master_ok s \<and> threads s \<noteq> []"

lemma sum_list_change: "i < length xs \<Longrightarrow> (\<Sum>x\<leftarrow>xs[i := y]. f x) + f (xs ! i) = (\<Sum>x\<leftarrow>xs. f x) + (f y :: 'a::comm_monoid_add)"
  by (induction xs arbitrary: i) (auto split: nat.split simp: ac_simps)

lemma sum_same: "i < length xs \<Longrightarrow> f y = f (xs ! i) \<Longrightarrow> (\<Sum>x\<leftarrow>xs[i := y]. f x) = (\<Sum>x\<leftarrow>xs. f x :: 'a::cancel_comm_monoid_add)"
  using sum_list_change [of i xs f y] by simp

lemma list_all_update: "list_all P xs \<Longrightarrow> P y \<Longrightarrow> list_all P (xs[i := y])"
  by (auto simp: list_all_iff dest: set_update_subset_insert [THEN subsetD])

lemma counts_nonneg: "0 \<le> (\<Sum>th\<leftarrow>ths. in_loop th)" "0 \<le> (\<Sum>th\<leftarrow>ths. is_waiting th)"
  by (rule sum_list_nonneg; auto; case_tac xa; simp)+

text \<open>A batch takes at least one check and never more than there are.\<close>

lemma Loop_nNow_bounds:
  assumes "cqueue q \<noteq> []" and "0 \<le> nTotal q" and "0 \<le> nIdle q"
  shows "1 \<le> Loop_nNow q" and "Loop_nNow q \<le> length (cqueue q)"
proof -
  have "int (length (cqueue q)) div (nTotal q + nIdle q + 1) \<le> int (length (cqueue q))"
    using zdiv_mono2 [of "int (length (cqueue q))" 1 "nTotal q + nIdle q + 1"] assms(2,3) by simp
  moreover have "1 \<le> int (length (cqueue q))" using assms(1) by (cases "cqueue q") auto
  ultimately show "1 \<le> Loop_nNow q" "Loop_nNow q \<le> length (cqueue q)" by (auto simp: Loop_nNow_def)
qed

lemma mset_batch: "n \<le> length xs \<Longrightarrow> mset (take n (rev xs)) + mset (take (length xs - n) xs) = mset xs"
  by (metis add.commute append_take_drop_id mset_append mset_rev take_rev rev_rev_ident)


text \<open>
  The critical section of thread \<open>i\<close>, which stands at the mutex: \<open>Entering\<close> is its place in the list of threads meanwhile.
  It preserves the invariant, and the master returns whether all checks of the round are passed.
\<close>

lemma unat_word_of_nat_less: "n < 2 ^ 32 \<Longrightarrow> unat (word_of_nat n :: u32) = n"
  by (simp add: unat_of_nat)

lemma todo_zero:
  assumes "core check s" and "nTodo (pool s) = 0"
  shows "cqueue (pool s) = [] \<and> inflight (threads s) = {#}"
proof -
  let ?n = "length (cqueue (pool s)) + size (inflight (threads s))"
  have "size (mset (added s)) = ?n + size (mset (finished s))" using assms(1) by (simp add: core_def del: size_mset) (simp add: ac_simps)
  then have "?n < 2 ^ 32" using assms(1) by (simp add: core_def)
  moreover have "nTodo (pool s) = word_of_nat ?n" using assms(1) unfolding core_def by blast
  ultimately have "unat (nTodo (pool s)) = ?n" by (simp only: unat_word_of_nat_less)
  then show ?thesis using assms(2) by simp
qed

lemma idle_threads: "inflight ths = {#} \<Longrightarrow> list_all (thread_ok check r) ths \<Longrightarrow> list_all (thread_ok check r') ths"
  by (induction ths) (auto simp: thread_ok_def split: thread.splits)

lemma section_inv:
  assumes "core check s" and "counts 1 s" and "master_ok s" and "i < length (threads s)" and "threads s ! i = Entering"
    and "Loop_section (i = 0) (pool s) = (out, q')"
  shows "queue_inv check (start_round i out (s\<lparr>pool := q', threads := (threads s)[i := after_section out]\<rparr>)) \<and>
    (\<forall>r. out = Returns r \<longrightarrow> i = 0 \<and> (r \<longleftrightarrow> list_all check (added s)))"
proof (cases out)
  case (Returns r)
  let ?ths = "(threads s)[i := Away]"
  have r: "cqueue (pool s) = []" "i = 0" "nTodo (pool s) = 0" "r = fAllOk (pool s)" "q' = (pool s)\<lparr>nTotal := nTotal (pool s) - 1, fAllOk := True\<rparr>"
    using assms(1,6) Returns by (auto simp: Loop_section_def core_def Let_def split: if_splits)
  have fl: "inflight (threads s) = {#}" using todo_zero [OF assms(1) r(3)] by simp
  have m: "mset (added s) = mset (finished s)" using assms(1) fl r(1) by (simp add: core_def)
  then have "list_all check (added s) = list_all check (finished s)" by (metis list_all_iff set_mset_mset)
  then have res: "r \<longleftrightarrow> list_all check (added s)" using assms(1) r(4) by (auto simp: core_def split: if_splits)
  have "inflight ?ths = inflight (threads s)" "(\<Sum>th\<leftarrow>?ths. in_loop th) = (\<Sum>th\<leftarrow>threads s. in_loop th)"
      "(\<Sum>th\<leftarrow>?ths. is_waiting th) = (\<Sum>th\<leftarrow>threads s. is_waiting th)"
    using assms(4,5) by (simp_all add: sum_same)
  moreover have "list_all (thread_ok check []) ?ths"
    using idle_threads [OF fl, of check "added s" "[]"] assms(1) by (intro list_all_update) (auto simp: core_def thread_ok_def)
  ultimately show ?thesis using Returns r res fl assms(1,2,4)
    by (auto simp: queue_inv_def core_def counts_def master_ok_def start_round_def after_section_def)
next
  case Waits
  let ?ths = "(threads s)[i := Waiting False]"
  have r: "cqueue (pool s) = []" "i = 0 \<longrightarrow> nTodo (pool s) \<noteq> 0" "q' = (pool s)\<lparr>nIdle := nIdle (pool s) + 1\<rparr>"
    using assms(6) Waits by (auto simp: Loop_section_def Let_def split: if_splits)
  have fl: "inflight ?ths = inflight (threads s)" using assms(4,5) by (simp add: sum_same)
  have "inflight (threads s) \<noteq> {#}" if "i = 0" using assms(1) r(1,2) that by (auto simp: core_def)
  moreover have "(\<Sum>th\<leftarrow>?ths. in_loop th) = (\<Sum>th\<leftarrow>threads s. in_loop th) + 1" "(\<Sum>th\<leftarrow>?ths. is_waiting th) = (\<Sum>th\<leftarrow>threads s. is_waiting th) + 1"
    using sum_list_change [OF assms(4), of in_loop "Waiting False"] sum_list_change [OF assms(4), of is_waiting "Waiting False"] assms(5)
    by simp_all
  ultimately show ?thesis using Waits r fl assms(1-5) list_all_update [of "thread_ok check (added s)" "threads s" "Waiting False" i]
    by (auto simp: queue_inv_def core_def counts_def master_ok_def start_round_def after_section_def thread_ok_def nth_list_update split: thread.splits)
next
  case (Executes vs ok)
  let ?n = "Loop_nNow (pool s)" and ?q = "cqueue (pool s)" and ?ths = "(threads s)[i := Working vs 0 ok]"
  have r: "?q \<noteq> []" "vs = take ?n (rev ?q)" "ok = fAllOk (pool s)" "q' = (pool s)\<lparr>cqueue := take (length ?q - ?n) ?q\<rparr>"
    using assms(6) Executes by (auto simp: Loop_section_def Let_def split: if_splits)
  have n: "1 \<le> ?n" "?n \<le> length ?q"
    by (rule Loop_nNow_bounds [OF r(1)]; use assms(2) counts_nonneg [of "threads s"] in \<open>simp add: counts_def\<close>)+
  have b: "mset vs + mset (take (length ?q - ?n) ?q) = mset ?q" "vs \<noteq> []" using mset_batch [OF n(2)] n r(1,2) by auto
  have fl: "inflight ?ths = inflight (threads s) + mset vs" "(\<Sum>th\<leftarrow>?ths. in_loop th) = (\<Sum>th\<leftarrow>threads s. in_loop th) + 1"
      "(\<Sum>th\<leftarrow>?ths. is_waiting th) = (\<Sum>th\<leftarrow>threads s. is_waiting th)"
    using sum_list_change [OF assms(4), of "\<lambda>th. mset (flight th)" "Working vs 0 ok"] sum_list_change [OF assms(4), of in_loop "Working vs 0 ok"]
      sum_list_change [OF assms(4), of is_waiting "Working vs 0 ok"] assms(5)
    by simp_all
  have ok: "thread_ok check (added s) (Working vs 0 ok)" using b(2) assms(1) r(3) by (simp add: thread_ok_def core_def split: if_splits)
  have "length ?q + size (inflight (threads s)) = length (take (length ?q - ?n) ?q) + size (inflight ?ths)"
    using n(2) arg_cong [OF r(2), of length] by (simp add: fl)
  moreover have "mset ?q + inflight (threads s) = mset (take (length ?q - ?n) ?q) + inflight ?ths"
    by (simp add: fl(1) ac_simps flip: b(1))
  ultimately have "core check (s\<lparr>pool := q', threads := ?ths\<rparr>)"
    using assms(1) list_all_update [of "thread_ok check (added s)" "threads s", OF _ ok, of i] unfolding core_def r(4) by simp
  moreover have "master_ok (s\<lparr>pool := q', threads := ?ths\<rparr>)"
    using assms(3,4) r(1) by (cases "i = 0") (auto simp: master_ok_def split: thread.splits)
  ultimately show ?thesis using Executes assms(2,4) fl r(4)
    by (auto simp: queue_inv_def counts_def start_round_def after_section_def)
qed


section \<open>Preservation\<close>

lemma notify_flight [simp]: "flight (notify th) = flight th" "in_loop (notify th) = in_loop th" "is_waiting (notify th) = is_waiting th"
  "thread_ok check r (notify th) = thread_ok check r th"
  by (auto simp: notify_def thread_ok_def split: thread.splits)

lemma notify_master_sums:
  assumes "ths \<noteq> []"
  shows "inflight (notify_master b ths) = inflight ths" "(\<Sum>th\<leftarrow>notify_master b ths. in_loop th) = (\<Sum>th\<leftarrow>ths. in_loop th)"
    "(\<Sum>th\<leftarrow>notify_master b ths. is_waiting th) = (\<Sum>th\<leftarrow>ths. is_waiting th)" "length (notify_master b ths) = length ths"
    "list_all (thread_ok check r) ths \<Longrightarrow> list_all (thread_ok check r) (notify_master b ths)"
  using assms by (auto simp: notify_master_def sum_same hd_conv_nth list_all_iff dest!: set_update_subset_insert [THEN subsetD])

text \<open>What a step of the loop preserves, and what a result of the master means.\<close>

definition sound_step :: "('c \<Rightarrow> bool) \<Rightarrow> 'c system \<Rightarrow> 'c event \<Rightarrow> 'c system \<Rightarrow> bool" where
  "sound_step check s e s' \<longleftrightarrow> queue_inv check s' \<and> length (threads s') = length (threads s) \<and>
     (case e of EReturn i r \<Rightarrow> i = 0 \<and> (r \<longleftrightarrow> list_all check (added s)) | _ \<Rightarrow> True)"

lemma section_sound:
  assumes "core check s1" and "counts 1 s1" and "master_ok s1" and "i < length (threads s1)" and "threads s1 ! i = Entering"
    and "Loop_section (i = 0) (pool s1) = (out, q')" and "added s1 = added s" and "length (threads s1) = length (threads s)"
    and "e = event_of i out" and "s' = start_round i out (s1\<lparr>pool := q', threads := (threads s1)[i := after_section out]\<rparr>)"
  shows "sound_step check s e s'"
  using section_inv [OF assms(1-6)] assms(7-10)
  by (auto simp: sound_step_def event_of_def start_round_def split: outcome.splits event.splits)

lemma enter_sound:
  assumes "queue_inv check s" and "i < length (threads s)" and "threads s ! i = Entering" and "loop_step i 0 True s = (e, s')"
  shows "sound_step check s e s'"
proof -
  let ?s1 = "s\<lparr>pool := (pool s)\<lparr>nTotal := nTotal (pool s) + 1\<rparr>\<rparr>"
  obtain out q' where o: "Loop_section (i = 0) (pool ?s1) = (out, q')" by fastforce
  show ?thesis
    by (rule section_sound [where ?s1.0 = ?s1 and i = i and out = out and q' = q'])
      (use assms o in \<open>simp_all add: queue_inv_def core_def counts_def master_ok_def loop_step_def Loop_cleanup_def notify_master_def split: thread.splits\<close>)
qed

lemma wake_sound:
  assumes "queue_inv check s" and "i < length (threads s)" and "threads s ! i = Waiting b" and "wake_step i s = (e, s')"
  shows "sound_step check s e s'"
proof -
  let ?s1 = "s\<lparr>pool := (pool s)\<lparr>nIdle := nIdle (pool s) - 1\<rparr>, threads := (threads s)[i := Entering]\<rparr>"
  obtain out q' where o: "Loop_section (i = 0) (pool ?s1) = (out, q')" by fastforce
  have "inflight ((threads s)[i := Entering]) = inflight (threads s)" using assms(2,3) by (simp add: sum_same)
  moreover have "(\<Sum>th\<leftarrow>(threads s)[i := Entering]. in_loop th) + 1 = (\<Sum>th\<leftarrow>threads s. in_loop th)"
      "(\<Sum>th\<leftarrow>(threads s)[i := Entering]. is_waiting th) + 1 = (\<Sum>th\<leftarrow>threads s. is_waiting th)"
    using sum_list_change [OF assms(2), of in_loop Entering] sum_list_change [OF assms(2), of is_waiting Entering] assms(3)
    by simp_all
  ultimately have "core check ?s1 \<and> counts 1 ?s1 \<and> master_ok ?s1"
    using assms(1,2) list_all_update [of "thread_ok check (added s)" "threads s" Entering i]
    by (cases "i = 0") (auto simp: queue_inv_def core_def counts_def master_ok_def thread_ok_def split: thread.splits)
  then show ?thesis
    by (intro section_sound [where ?s1.0 = ?s1 and i = i and out = out and q' = q'])
      (use assms o in \<open>simp_all add: wake_step_def\<close>)
qed

lemma finish_sound:
  assumes "queue_inv check s" and "i < length (threads s)" and "threads s ! i = Working vs (length vs) ok"
    and "loop_step i (length vs) ok (s\<lparr>finished := finished s @ vs\<rparr>) = (e, s')"
  shows "sound_step check s e s'"
proof -
  let ?q1 = "(pool s)\<lparr>fAllOk := fAllOk (pool s) \<and> ok, nTodo := nTodo (pool s) - word_of_nat (length vs)\<rparr>"
  obtain nt where nt: "nt \<longleftrightarrow> nTodo ?q1 = 0 \<and> i \<noteq> 0" by blast
  obtain ths where ths: "ths = (notify_master nt (threads s))[i := Entering]" by blast
  let ?s1 = "s\<lparr>pool := ?q1, threads := ths, finished := finished s @ vs\<rparr>"
  obtain out q' where o: "Loop_section (i = 0) (pool ?s1) = (out, q')" by fastforce
  have inv: "core check s" "counts 0 s" "master_ok s" "threads s \<noteq> []" using assms(1) by (simp_all add: queue_inv_def)
  have nm: "notify_master nt (threads s) ! i = threads s ! i" using nt by (auto simp: notify_master_def nth_list_update)
  note sums = notify_master_sums [OF inv(4), where b = nt]
  have i': "i < length (notify_master nt (threads s))" using assms(2) sums(4) by simp
  have fl: "inflight ths + mset vs = inflight (threads s)" "(\<Sum>th\<leftarrow>ths. in_loop th) + 1 = (\<Sum>th\<leftarrow>threads s. in_loop th)"
      "(\<Sum>th\<leftarrow>ths. is_waiting th) = (\<Sum>th\<leftarrow>threads s. is_waiting th)"
    using sum_list_change [OF i', of "\<lambda>th. mset (flight th)" Entering] sum_list_change [OF i', of in_loop Entering]
      sum_list_change [OF i', of is_waiting Entering] assms(3)
    unfolding nm sums ths by simp_all
  have "size (inflight (threads s)) = size (inflight ths) + length vs" using arg_cong [OF fl(1), of size] by simp
  then have todo: "nTodo ?q1 = word_of_nat (length (cqueue (pool s)) + size (inflight ths))" using inv(1) by (simp add: core_def)
  have "thread_ok check (added s) (Working vs (length vs) ok)"
    using inv(1) assms(2,3) unfolding core_def list_all_length by metis
  then have ok: "vs \<noteq> []" "if ok then list_all check vs else \<not> list_all check (added s)" by (auto simp: thread_ok_def split: if_splits)
  have "list_all (thread_ok check (added s)) ths"
    unfolding ths using inv(1) by (intro list_all_update sums(5)) (simp_all add: core_def thread_ok_def)
  then have "core check ?s1" using inv(1) ok(2) todo unfolding core_def fl(1) [symmetric]
    by (auto simp: ac_simps split: if_splits)
  moreover have "counts 1 ?s1" using inv(2) fl(2,3) by (simp add: counts_def)
  moreover have "master_ok ?s1"
  proof (cases "i = 0")
    case True
    then show ?thesis using i' by (simp add: master_ok_def ths)
  next
    case False
    then have "ths ! 0 = (if nt then notify (threads s ! 0) else threads s ! 0)" using inv(4) by (simp add: ths notify_master_def)
    then show ?thesis using inv(3) todo nt False by (auto simp: master_ok_def notify_def split: thread.splits if_splits)
  qed
  ultimately show ?thesis
    by (rule section_sound) (use assms o ok(1) i' sums(4) nt in \<open>auto simp: loop_step_def Loop_cleanup_def Let_def ths\<close>)
qed

text \<open>A notification changes only whether waiting threads have been notified.\<close>

definition woken :: "'c thread \<Rightarrow> 'c thread \<Rightarrow> bool" where
  "woken th' th \<longleftrightarrow> th' = th \<or> (\<exists>b. th = Waiting b \<and> th' = Waiting True)"

lemma worker_wakeups_woken:
  assumes "ths' \<in> set (worker_wakeups n ths)"
  shows "list_all2 woken ths' ths \<and> (ths \<noteq> [] \<longrightarrow> ths' ! 0 = ths ! 0)"
proof -
  consider "ths' = ths" | i where "0 < i" "i < length ths" "ths ! i = Waiting False" "ths' = ths[i := Waiting True]"
    | "ths' = take 1 ths @ map notify (drop 1 ths)"
    using assms by (auto simp: worker_wakeups_def Let_def split: if_splits)
  then show ?thesis
  proof cases
    case 1
    then show ?thesis by (simp add: list_all2_same woken_def)
  next
    case 2
    then show ?thesis by (auto simp: list_all2_conv_all_nth nth_list_update woken_def)
  next
    case 3
    have "woken (notify th) th" for th :: "'a thread" by (auto simp: woken_def notify_def split: thread.splits)
    then have "list_all2 woken (map notify xs) xs" for xs :: "'a thread list" by (simp add: list.rel_map list_all2_same)
    then show ?thesis using 3 by (cases ths) (auto simp: woken_def)
  qed
qed

lemma woken_map: "list_all2 woken ths' ths \<Longrightarrow> (\<And>b. f (Waiting b) = f (Waiting True)) \<Longrightarrow> map f ths' = map f ths"
  by (induction rule: list_all2_induct) (auto simp: woken_def, metis)

lemma add_sound:
  assumes "queue_inv check s" and "threads s ! 0 = Away" and "length (added s) + length vs < 2 ^ 32"
    and "ths \<in> set (worker_wakeups (length vs) (threads s))"
  shows "sound_step check s (EAdd vs) (s\<lparr>pool := CCheckQueue_Add vs (pool s), threads := ths, added := added s @ vs\<rparr>)"
proof -
  have ne: "threads s \<noteq> []" using assms(1) by (simp add: queue_inv_def)
  have w: "list_all2 woken ths (threads s)" "ths ! 0 = threads s ! 0" using worker_wakeups_woken [OF assms(4)] ne by simp_all
  have fl: "inflight ths = inflight (threads s)" "(\<Sum>th\<leftarrow>ths. in_loop th) = (\<Sum>th\<leftarrow>threads s. in_loop th)"
    "(\<Sum>th\<leftarrow>ths. is_waiting th) = (\<Sum>th\<leftarrow>threads s. is_waiting th)" "length ths = length (threads s)"
    using woken_map [OF w(1), of "\<lambda>th. mset (flight th)"] woken_map [OF w(1), of in_loop] woken_map [OF w(1), of is_waiting] list_all2_lengthD [OF w(1)]
    by simp_all
  have "list_all (thread_ok check (added s)) (threads s) \<Longrightarrow> list_all (thread_ok check (added s @ vs)) ths"
    using w(1) by (rotate_tac, induction rule: list_all2_induct) (auto simp: woken_def thread_ok_def split: thread.splits if_splits)
  then show ?thesis using assms(1-3) w(2) fl ne
    by (auto simp: sound_step_def queue_inv_def core_def counts_def master_ok_def CCheckQueue_Add_def ac_simps)
qed

lemma wait_sound:
  assumes "queue_inv check s" and "threads s ! 0 = Away"
  shows "sound_step check s EWait (s\<lparr>threads := (threads s)[0 := Entering]\<rparr>)"
  using assms list_all_update [of "thread_ok check (added s)" "threads s" Entering 0]
  by (auto simp: sound_step_def queue_inv_def core_def counts_def master_ok_def sum_same thread_ok_def)

lemma flight_subset: "th \<in> set ths \<Longrightarrow> set (flight th) \<subseteq> set_mset (inflight ths)"
  by (induction ths) auto

lemma exec_sound:
  assumes "queue_inv check s" and "i < length (threads s)" and "threads s ! i = Working vs k ok" and "k < length vs"
  shows "sound_step check s (ERun i) (s\<lparr>threads := (threads s)[i := Working vs (k + 1) (ok \<and> check (vs ! k))]\<rparr>)"
proof -
  let ?th = "Working vs (k + 1) (ok \<and> check (vs ! k))"
  have inv: "core check s" using assms(1) by (simp add: queue_inv_def)
  have t: "thread_ok check (added s) (Working vs k ok)"
    using inv assms(2,3) unfolding core_def list_all_length by metis
  have "set vs \<subseteq> set_mset (inflight (threads s))" using flight_subset [of "Working vs k ok" "threads s"] assms(2,3) by (metis flight.simps(4) nth_mem)
  moreover have "set_mset (inflight (threads s)) \<subseteq> set (added s)"
    using inv unfolding core_def by (metis set_mset_mset set_mset_union sup_ge1 sup_ge2 order_trans)
  ultimately have "vs ! k \<in> set (added s)" using assms(4) by (meson nth_mem subsetD)
  then have "thread_ok check (added s) ?th"
    using t assms(4) by (auto simp: thread_ok_def take_Suc_conv_app_nth list_all_iff)
  then show ?thesis using assms list_all_update [of "thread_ok check (added s)" "threads s" ?th i]
    by (auto simp: sound_step_def queue_inv_def core_def counts_def master_ok_def sum_same nth_list_update split: thread.splits)
qed

lemma step_sound: "step check s e s' \<Longrightarrow> queue_inv check s \<Longrightarrow> sound_step check s e s'"
proof (induction rule: step.induct)
  case (spurious i s e s')
  then have "sound_step check s e s'" by (blast intro: wake_sound)
  then show ?case by (auto simp: sound_step_def split: event.splits)
qed (blast intro: add_sound wait_sound enter_sound exec_sound finish_sound wake_sound)+

lemma sum_empty: "sum_list (replicate n {#}) = {#}"
  by (induction n) auto

lemma initial_inv: "queue_inv check (initial batch workers)"
  by (simp add: queue_inv_def core_def counts_def master_ok_def initial_def CCheckQueue_init_def list_all_iff thread_ok_def
      map_replicate_const sum_list_replicate sum_empty)

lemma reachable_inv: "reachable check batch workers s \<Longrightarrow> queue_inv check s \<and> length (threads s) = workers + 1"
proof (induction rule: reachable.induct)
  case init
  then show ?case using initial_inv [of check batch workers] by (simp add: initial_def)
next
  case (next_step s e s')
  then show ?case using step_sound [of check s e s'] by (simp add: sound_step_def)
qed

section \<open>The result\<close>

text \<open>
  C34: whatever the interleaving of the threads, the batches they take and the notifications, \<^verbatim>\<open>Wait\<close> returns true exactly
  when every check that was added since the previous \<^verbatim>\<open>Wait\<close> is passed, and only the master leaves the loop.
\<close>

theorem Wait_result:
  assumes "reachable check batch workers s" and "step check s (EReturn i r) s'"
  shows "i = 0 \<and> (r \<longleftrightarrow> list_all check (added s)) \<and> added s' = [] \<and> cqueue (pool s') = [] \<and> nTodo (pool s') = 0 \<and> fAllOk (pool s')"
proof -
  have "sound_step check s (EReturn i r) s'" using step_sound [OF assms(2)] reachable_inv [OF assms(1)] by blast
  then have r: "queue_inv check s'" "i = 0" "r \<longleftrightarrow> list_all check (added s)" by (auto simp: sound_step_def)
  have "added s' = [] \<and> cqueue (pool s') = [] \<and> fAllOk (pool s')"
    using assms(2) r(2) by (cases rule: step.cases)
      (auto simp: loop_step_def wake_step_def event_of_def start_round_def Loop_section_def Let_def split: prod.splits outcome.splits event.splits if_splits)
  moreover from this have "inflight (threads s') = {#}" using r(1) by (simp add: queue_inv_def core_def)
  ultimately show ?thesis using r by (simp add: queue_inv_def core_def)
qed

section \<open>Progress\<close>

text \<open>The work that is left: more for a check that is queued than for one that is executed, and for a thread that has to run.\<close>

primrec weight :: "'c thread \<Rightarrow> nat" where
  "weight Away = 0" | "weight Entering = 1" | "weight (Waiting b) = (if b then 1 else 0)" | "weight (Working vs k fOk) = 2 + (length vs - k)"

definition work :: "'c system \<Rightarrow> nat" where
  "work s = 4 * length (cqueue (pool s)) + (\<Sum>th\<leftarrow>threads s. weight th)"

text \<open>A step of a thread in the loop; a spurious wake-up is no progress.\<close>

primrec progress :: "'c event \<Rightarrow> bool" where
  "progress (EAdd vs) = False" | "progress EWait = False" | "progress (ERun i) = True" | "progress (ESpurious i) = False" | "progress (EReturn i r) = True"

lemma section_work:
  assumes "Loop_section m q = (out, q')" and "0 \<le> nTotal q" and "0 \<le> nIdle q"
  shows "4 * length (cqueue q') + weight (after_section out) \<le> 4 * length (cqueue q) \<and> (cqueue q = [] \<longrightarrow> weight (after_section out) = 0)"
proof (cases "cqueue q = []")
  case False
  have "1 \<le> Loop_nNow q" "Loop_nNow q \<le> length (cqueue q)" by (rule Loop_nNow_bounds [OF False assms(2,3)])+
  then show ?thesis using assms(1) False by (auto simp: Loop_section_def Let_def after_section_def)
qed (use assms in \<open>auto simp: Loop_section_def after_section_def split: if_splits\<close>)

lemma weight_change: "i < length ths \<Longrightarrow> (\<Sum>th\<leftarrow>ths[i := th']. weight th) + weight (ths ! i) = (\<Sum>th\<leftarrow>ths. weight th) + weight th'"
  by (rule sum_list_change)

lemma work_start_round: "work (start_round i out s) = work s"
  by (simp add: work_def start_round_def split: outcome.splits)

lemma wake_work:
  assumes "queue_inv check s" and "i < length (threads s)" and "threads s ! i = Waiting b" and "wake_step i s = (e, s')"
  shows "work s' + weight (Waiting b :: 'c thread) \<le> work (s :: 'c system)"
proof -
  let ?q1 = "(pool s)\<lparr>nIdle := nIdle (pool s) - 1\<rparr>"
  obtain out q' where o: "Loop_section (i = 0) ?q1 = (out, q')" by fastforce
  have "1 \<le> nIdle (pool s)" "0 \<le> nTotal (pool s)"
    using assms(1,3) sum_list_change [OF assms(2), of is_waiting Entering] counts_nonneg(2) [of "(threads s)[i := Entering]"] counts_nonneg(1) [of "threads s"]
    by (simp_all add: queue_inv_def counts_def)
  then show ?thesis
    using section_work [OF o] weight_change [OF assms(2), of "after_section out"] assms(3,4) o
    by (auto simp: wake_step_def work_start_round) (auto simp: work_def)
qed


lemma notify_master_work: "(\<Sum>th\<leftarrow>notify_master b ths. weight th) \<le> (\<Sum>th\<leftarrow>ths. weight th) + 1"
proof (cases "b \<and> ths \<noteq> []")
  case True
  have "weight (notify (ths ! 0)) \<le> weight (ths ! 0) + 1" by (simp add: notify_def split: thread.splits)
  then show ?thesis using True weight_change [of 0 ths "notify (ths ! 0)"] by (simp add: notify_master_def)
qed (auto simp: notify_master_def)

lemma loop_step_work:
  assumes "queue_inv check s" and "i < length (threads s)" and "threads s ! i = Entering \<and> nNow = 0 \<or> (\<exists>vs. threads s ! i = Working vs nNow fOk \<and> nNow = length vs)"
    and "loop_step i nNow fOk (s\<lparr>finished := f\<rparr>) = (e, s')"
  shows "work s' < work s"
proof -
  obtain q1 b where q: "Loop_cleanup (i = 0) nNow fOk (pool s) = (q1, b)" by fastforce
  obtain out q' where o: "Loop_section (i = 0) q1 = (out, q')" by fastforce
  let ?ths = "notify_master b (threads s)"
  have same: "cqueue q1 = cqueue (pool s)" "0 \<le> nTotal q1" "0 \<le> nIdle q1"
    using q assms(1) counts_nonneg [of "threads s"] by (auto simp: Loop_cleanup_def Let_def queue_inv_def counts_def split: if_splits)
  have b: "b \<Longrightarrow> nNow \<noteq> 0 \<and> i \<noteq> 0" using q by (auto simp: Loop_cleanup_def Let_def split: if_splits)
  then have i: "?ths ! i = threads s ! i" "i < length ?ths" using assms(2) by (auto simp: notify_master_def nth_list_update)
  have "(\<Sum>th\<leftarrow>?ths. weight th) + 1 \<le> (\<Sum>th\<leftarrow>threads s. weight th) + weight (threads s ! i)"
    using assms(3) notify_master_work [of b "threads s"] b by (auto simp: notify_master_def)
  moreover have "work s' + weight (threads s ! i) = 4 * length (cqueue q') + ((\<Sum>th\<leftarrow>?ths. weight th) + weight (after_section out))"
    using assms(4) q o weight_change [OF i(2), of "after_section out"] i(1) by (auto simp: loop_step_def work_start_round) (simp add: work_def)
  ultimately show ?thesis using section_work [OF o same(2,3)] same(1) by (simp add: work_def [of s])
qed

lemma loop_event: "loop_step i n ok s = (e, s') \<Longrightarrow> progress e" "wake_step i s = (e, s') \<Longrightarrow> progress e"
  by (auto simp: loop_step_def wake_step_def event_of_def split: prod.splits outcome.splits)

lemma step_work:
  assumes "step check s e s'" and "queue_inv check s"
  shows "(\<forall>i. e = ERun i \<longrightarrow> work s' < work s) \<and> (\<forall>i. e = ESpurious i \<longrightarrow> work s' \<le> work s)"
  using assms
proof (cases rule: step.cases)
  case (enter i)
  then show ?thesis using loop_step_work [OF assms(2), of i 0 True "finished s" e s'] by simp
next
  case (exec i vs k ok)
  then show ?thesis using weight_change [of i "threads s" "Working vs (k + 1) (ok \<and> check (vs ! k))"] by (auto simp: work_def)
next
  case (finish i vs k ok)
  then show ?thesis using loop_step_work [OF assms(2), of i "length vs" ok "finished s @ vs" e s'] by simp
next
  case (wake i)
  then show ?thesis using wake_work [OF assms(2), of i True e s'] by simp
next
  case (spurious i e')
  then have "work s' \<le> work s" using wake_work [OF assms(2), of i False e' s'] by simp
  then show ?thesis using spurious loop_event(2) [of i s e' s'] by (auto split: event.splits)
qed auto

lemma thread_enabled:
  assumes "i < length (threads s)" and "threads s ! i \<noteq> Away" and "threads s ! i \<noteq> Waiting False" and "queue_inv check s"
  shows "\<exists>e s'. step check s e s' \<and> progress e"
proof (cases "threads s ! i")
  case Entering
  obtain e s' where "loop_step i 0 True s = (e, s')" by fastforce
  then show ?thesis using step.enter [OF assms(1) Entering] loop_event by blast
next
  case (Waiting b)
  obtain e s' where "wake_step i s = (e, s')" by fastforce
  moreover have b using Waiting assms(3) by (cases b) simp_all
  ultimately show ?thesis using step.wake [OF assms(1), of e s' check] Waiting loop_event(2) [of i s e s'] by auto
next
  case (Working vs k ok)
  have "k \<le> length vs"
    using assms(1,4) Working unfolding queue_inv_def core_def list_all_length thread_ok_def by fastforce
  then consider "k < length vs" | "k = length vs" by linarith
  then show ?thesis
  proof cases
    case 1
    then show ?thesis using step.exec [OF assms(1) Working] by fastforce
  next
    case 2
    obtain e s' where "loop_step i (length vs) ok (s\<lparr>finished := finished s @ vs\<rparr>) = (e, s')" by fastforce
    then show ?thesis using step.finish [OF assms(1) Working 2] loop_event by blast
  qed
qed (use assms in simp)

lemma no_flight: "\<forall>th \<in> set ths. flight th = [] \<Longrightarrow> inflight ths = {#}"
  by (induction ths) auto

lemma master_enabled:
  assumes "queue_inv check s" and "threads s ! 0 \<noteq> Away"
  shows "\<exists>e s'. step check s e s' \<and> progress e"
proof (cases "threads s ! 0 = Waiting False")
  case True
  then have "inflight (threads s) \<noteq> {#}" using assms(1) by (simp add: queue_inv_def master_ok_def)
  then obtain th where "th \<in> set (threads s)" "flight th \<noteq> []" using no_flight by blast
  then obtain j where "j < length (threads s)" "flight (threads s ! j) \<noteq> []" by (auto simp: in_set_conv_nth)
  then show ?thesis using thread_enabled [of j s check] assms(1) by (cases "threads s ! j") auto
next
  case False
  then show ?thesis using thread_enabled [of 0 s check] assms by (simp add: queue_inv_def)
qed

lemma notify_stays: "th \<noteq> Away \<Longrightarrow> notify th \<noteq> Away"
  by (simp add: notify_def split: thread.splits)

lemma section_stays:
  assumes "\<forall>r. event_of i out \<noteq> EReturn i r"
  shows "after_section out \<noteq> Away \<and> event_of i out = ERun i \<and> start_round i out s = s"
proof (cases out)
  case (Returns r)
  then have "event_of i out = EReturn i r" by (simp add: event_of_def)
  with assms show ?thesis by metis
qed (simp_all add: event_of_def after_section_def start_round_def)

lemma loop_stays:
  assumes "loop_step i n ok s = (e, s') \<or> wake_step i s = (e, s')" and "i < length (threads s)" and "threads s ! 0 \<noteq> Away" and "\<forall>r. e \<noteq> EReturn i r"
  shows "threads s' ! 0 \<noteq> Away \<and> e = ERun i"
proof -
  obtain out q b where o: "e = event_of i out" "s' = start_round i out (s\<lparr>pool := q, threads := (notify_master b (threads s))[i := after_section out]\<rparr>)"
    using assms(1)
  proof
    assume "wake_step i s = (e, s')"
    then show thesis using that [where b = False] by (auto simp: wake_step_def notify_master_def Let_def split: prod.splits)
  qed (auto simp: loop_step_def split: prod.splits)
  have "after_section out \<noteq> Away \<and> e = ERun i \<and> s' = s\<lparr>pool := q, threads := (notify_master b (threads s))[i := after_section out]\<rparr>"
    using section_stays [of i out] assms(4) o by simp
  moreover have "0 < length (threads s)" using assms(2) by linarith
  ultimately show ?thesis using assms(2,3) notify_stays [of "threads s ! 0"] by (cases "i = 0") (auto simp: notify_master_def)
qed

lemma master_stays:
  assumes "step check s e s'" and "queue_inv check s" and "threads s ! 0 \<noteq> Away" and "\<And>r. e \<noteq> EReturn 0 r"
  shows "threads s' ! 0 \<noteq> Away \<and> ((\<exists>i. e = ERun i) \<or> (\<exists>i. e = ESpurious i))"
proof -
  have ret: "e \<noteq> EReturn i r" for i r
    using step_sound [OF assms(1,2)] assms(4) [of r] by (cases "e = EReturn i r") (auto simp: sound_step_def)
  from assms(1) show ?thesis
  proof (cases rule: step.cases)
    case (enter i)
    then show ?thesis using loop_stays [of i 0 True s e s'] assms(3) ret by simp
  next
    case (exec i vs k ok)
    then show ?thesis using assms(3) by (cases "i = 0") auto
  next
    case (finish i vs k ok)
    then show ?thesis using loop_stays [of i "length vs" ok "s\<lparr>finished := finished s @ vs\<rparr>" e s'] assms(3) ret by simp
  next
    case (wake i)
    then show ?thesis using loop_stays [of i 0 True s e s'] assms(3) ret by simp
  next
    case (spurious i e')
    then have "\<forall>r. e' \<noteq> EReturn i r" using ret by (auto split: event.splits)
    then show ?thesis using loop_stays [of i 0 True s e' s'] spurious assms(3) by simp
  qed (use assms(3) in simp_all)
qed

text \<open>
  C35: once the master has called \<^verbatim>\<open>Wait\<close> it returns. As long as it has not, some thread can take a step that is no
  spurious wake-up, and there are at most \<open>work s\<close> such steps, however the threads are scheduled.
\<close>

theorem Wait_returns:
  assumes "reachable check batch workers s" and "threads s ! 0 \<noteq> Away" and "run check s es s'" and "\<forall>r. EReturn 0 r \<notin> set es"
  shows "length (filter progress es) \<le> work s \<and> (\<exists>e s''. step check s' e s'' \<and> progress e)"
proof -
  have "queue_inv check s" using reachable_inv [OF assms(1)] by blast
  with assms(3,2,4) have "length (filter progress es) \<le> work s \<and> queue_inv check s' \<and> threads s' ! 0 \<noteq> Away"
  proof (induction rule: run.induct)
    case (more s e s1 es s')
    have k: "threads s1 ! 0 \<noteq> Away" "(\<exists>i. e = ERun i) \<or> (\<exists>i. e = ESpurious i)"
      using master_stays [OF more(1,6,4)] more(5) by auto
    have "queue_inv check s1" using step_sound [OF more(1,6)] by (simp add: sound_step_def)
    then have "length (filter progress es) \<le> work s1 \<and> queue_inv check s' \<and> threads s' ! 0 \<noteq> Away" using more(3,5) k(1) by auto
    then show ?case using step_work [OF more(1,6)] k(2) by auto
  qed simp
  then show ?thesis using master_enabled by blast
qed

section \<open>Instances\<close>

text \<open>The master alone with one check that fails, just before it reports the result.\<close>

definition sample :: "nat thread \<Rightarrow> nat list \<Rightarrow> int \<Rightarrow> nat system" where
  "sample th queued k = \<lparr>pool = (CCheckQueue_init 128)\<lparr>cqueue := queued, nTotal := k, nTodo := 1\<rparr>, threads = [th], added = [3], finished = []\<rparr>"

lemma sample_reachable:
  "reachable (\<lambda>n. n < 3) 128 0 (sample Entering [3] 0)" "reachable (\<lambda>n. n < 3) 128 0 (sample (Working [3] 1 False) [] 1)"
proof -
  let ?c = "\<lambda>n :: nat. n < 3"
  have "step ?c (initial 128 0) (EAdd [3]) (sample Away [3] 0)"
    using step.add [of "initial 128 0" "[3]" "[Away]" ?c]
    by (simp add: initial_def sample_def CCheckQueue_Add_def CCheckQueue_init_def worker_wakeups_def)
  then have r1: "reachable ?c 128 0 (sample Away [3] 0)" using reachable.init reachable.next_step by blast
  have "step ?c (sample Away [3] 0) EWait (sample Entering [3] 0)"
    using step.wait [of "sample Away [3] 0" ?c] by (simp add: sample_def)
  with r1 show r2: "reachable ?c 128 0 (sample Entering [3] 0)" by (rule reachable.next_step)
  have "step ?c (sample Entering [3] 0) (ERun 0) (sample (Working [3] 0 True) [] 1)"
    by (rule step.enter [of 0]) (simp_all add: sample_def loop_step_def Loop_cleanup_def Loop_section_def Loop_nNow_def CCheckQueue_init_def
        event_of_def start_round_def after_section_def notify_master_def)
  with r2 have r3: "reachable ?c 128 0 (sample (Working [3] 0 True) [] 1)" by (rule reachable.next_step)
  have "step ?c (sample (Working [3] 0 True) [] 1) (ERun 0) (sample (Working [3] 1 False) [] 1)"
    using step.exec [of 0 "sample (Working [3] 0 True) [] 1" "[3]" 0 True ?c] by (simp add: sample_def)
  with r3 show "reachable ?c 128 0 (sample (Working [3] 1 False) [] 1)" by (rule reachable.next_step)
qed

theorem Wait_result_witness:
  "\<exists>s'. step (\<lambda>n. n < 3) (sample (Working [3] 1 False) [] 1) (EReturn 0 False) s' \<and> added s' = [] \<and> fAllOk (pool s')"
proof -
  obtain e s' where s: "loop_step 0 1 False ((sample (Working [3] 1 False) [] 1)\<lparr>finished := [3]\<rparr>) = (e, s')" by fastforce
  then have "e = EReturn 0 False"
    by (simp add: sample_def loop_step_def Loop_cleanup_def Loop_section_def CCheckQueue_init_def event_of_def)
  then have st: "step (\<lambda>n. n < 3) (sample (Working [3] 1 False) [] 1) (EReturn 0 False) s'"
    using step.finish [of 0 "sample (Working [3] 1 False) [] 1" "[3]" 1 False e s' "\<lambda>n. n < 3"] s by (simp add: sample_def)
  show ?thesis using st Wait_result [OF sample_reachable(2) st] by blast
qed

theorem Wait_returns_witness: "\<exists>e s''. step (\<lambda>n. n < 3) (sample Entering [3] 0) e s'' \<and> progress e"
  using Wait_returns [OF sample_reachable(1) _ run.stop] by (simp add: sample_def)

end
