(* ===== verification/Block.thy ===== *)
theory Block
  imports TransactionCodec
begin

text \<open>
  Block headers and blocks with their serialization, and the Merkle trees over the transactions of a block, after
  \<^verbatim>\<open>src/src/primitives/block.h\<close> and \<^verbatim>\<open>src/src/primitives/block.cpp\<close>. The default hash of a header is double SHA-256.
\<close>

section \<open>Headers and blocks\<close>

record CBlockHeader =
  hdr_nVersion :: int
  hashPrevBlock :: bytes
  hashMerkleRoot :: bytes
  hashFinalSaplingRoot :: bytes
  hdr_nTime :: u32
  hdr_nBits :: u32
  nNonce :: bytes
  nSolution :: bytes

record CBlock = CBlockHeader +
  vtx :: "CTransaction list"
  vMerkleTree :: "bytes list"

definition CBlockHeader_SetNull :: CBlockHeader where
  "CBlockHeader_SetNull = \<lparr>hdr_nVersion = 4, hashPrevBlock = replicate 32 0, hashMerkleRoot = replicate 32 0,
     hashFinalSaplingRoot = replicate 32 0, hdr_nTime = 0, hdr_nBits = 0, nNonce = replicate 32 0, nSolution = []\<rparr>"

definition CBlockHeader_IsNull :: "'a CBlockHeader_scheme \<Rightarrow> bool" where
  "CBlockHeader_IsNull h \<longleftrightarrow> hdr_nBits h = 0"

definition GetBlockTime :: "'a CBlockHeader_scheme \<Rightarrow> int" where
  "GetBlockTime h = uint (hdr_nTime h)"

text \<open>The input of Equihash: the header without the nonce and the solution.\<close>

definition CEquihashInput_Serialize :: "'a CBlockHeader_scheme \<Rightarrow> bytes" where
  "CEquihashInput_Serialize h = Serialize_int32 (hdr_nVersion h) @ hashPrevBlock h @ hashMerkleRoot h @ hashFinalSaplingRoot h @
     ser_writedata32 (hdr_nTime h) @ ser_writedata32 (hdr_nBits h)"

definition CBlockHeader_Serialize :: "'a CBlockHeader_scheme \<Rightarrow> bytes" where
  "CBlockHeader_Serialize h = Serialize_int32 (hdr_nVersion h) @ hashPrevBlock h @ hashMerkleRoot h @ hashFinalSaplingRoot h @
     ser_writedata32 (hdr_nTime h) @ ser_writedata32 (hdr_nBits h) @ nNonce h @ Serialize_bytes (nSolution h)"

definition CBlockHeader_Unserialize :: "CBlockHeader reader" where
  "CBlockHeader_Unserialize t = do {
     (version, t) \<leftarrow> ser_readdata32 t;
     (prev, t) \<leftarrow> ser_read 32 t;
     (root, t) \<leftarrow> ser_read 32 t;
     (sapling, t) \<leftarrow> ser_read 32 t;
     (time, t) \<leftarrow> ser_readdata32 t;
     (bits, t) \<leftarrow> ser_readdata32 t;
     (nonce, t) \<leftarrow> ser_read 32 t;
     (solution, t) \<leftarrow> Unserialize_bytes t;
     Some (\<lparr>hdr_nVersion = sint version, hashPrevBlock = prev, hashMerkleRoot = root, hashFinalSaplingRoot = sapling,
            hdr_nTime = time, hdr_nBits = bits, nNonce = nonce, nSolution = solution\<rparr>, t)
   }"

definition GetSHA256DHash :: "'a CBlockHeader_scheme \<Rightarrow> bytes option" where
  "GetSHA256DHash h = SerializeHash (CBlockHeader_Serialize h)"

definition GetBlockHeader :: "CBlock \<Rightarrow> CBlockHeader" where
  "GetBlockHeader b = \<lparr>hdr_nVersion = hdr_nVersion b, hashPrevBlock = hashPrevBlock b, hashMerkleRoot = hashMerkleRoot b,
     hashFinalSaplingRoot = hashFinalSaplingRoot b, hdr_nTime = hdr_nTime b, hdr_nBits = hdr_nBits b, nNonce = nNonce b,
     nSolution = nSolution b\<rparr>"

definition CBlock_of_header :: "CBlockHeader \<Rightarrow> CBlock" where
  "CBlock_of_header h = CBlockHeader.extend h \<lparr>vtx = [], vMerkleTree = []\<rparr>"

definition CBlock_SetNull :: CBlock where
  "CBlock_SetNull = CBlock_of_header CBlockHeader_SetNull"

definition CBlock_Serialize :: "CBlock \<Rightarrow> bytes option" where
  "CBlock_Serialize b = do {
     txs \<leftarrow> those (map tx_Serialize (vtx b));
     Some (CBlockHeader_Serialize b @ WriteCompactSize (length (vtx b)) @ concat txs)
   }"

text \<open>A block is read into a new object, whose tree is empty.\<close>

definition CBlock_Unserialize :: "CBlock reader" where
  "CBlock_Unserialize t = do {
     (h, t) \<leftarrow> CBlockHeader_Unserialize t;
     (txs, t) \<leftarrow> Unserialize_vec (vec_step 344) (CTransaction_Unserialize CTransaction_init) t;
     Some ((CBlock_of_header h)\<lparr>vtx := txs\<rparr>, t)
   }"

text \<open>A header as it is sent to peers, which is followed by an empty vector of transactions.\<close>

record CNetworkBlockHeader = CBlockHeader +
  compatVec :: "CTransaction list"

definition CNetworkBlockHeader_of_header :: "CBlockHeader \<Rightarrow> CNetworkBlockHeader" where
  "CNetworkBlockHeader_of_header h = CBlockHeader.extend h \<lparr>compatVec = []\<rparr>"

definition CNetworkBlockHeader_Serialize :: "CNetworkBlockHeader \<Rightarrow> bytes option" where
  "CNetworkBlockHeader_Serialize h = do {
     txs \<leftarrow> those (map tx_Serialize (compatVec h));
     Some (CBlockHeader_Serialize h @ WriteCompactSize (length (compatVec h)) @ concat txs)
   }"

text \<open>A locator. The version of the stream is written before it, and read and dropped, unless the stream computes a hash.\<close>

definition CBlockLocator_Serialize :: "bool \<Rightarrow> int \<Rightarrow> bytes list \<Rightarrow> bytes" where
  "CBlockLocator_Serialize ser_gethash version vHave = (if \<not> ser_gethash then Serialize_int32 version else []) @ Serialize_vec (\<lambda>v. v) vHave"

definition CBlockLocator_Unserialize :: "bool \<Rightarrow> bytes list reader" where
  "CBlockLocator_Unserialize ser_gethash t = do {
     (version, t) \<leftarrow> (if \<not> ser_gethash then ser_readdata32 t else Some (0, t));
     Unserialize_vec (vec_step 32) (ser_read 32) t
   }"

section \<open>The serialization of blocks\<close>

definition is_int32 :: "int \<Rightarrow> bool" where
  "is_int32 v \<longleftrightarrow> - (2 ^ 31) \<le> v \<and> v < 2 ^ 31"

lemma is_int32_sint: "is_int32 (sint (w :: u32))"
  using sint_ge [of w] sint_less [of w] by (simp add: is_int32_def)

lemma wf_int32: "is_int32 v \<Longrightarrow> sint (word_of_int v :: u32) = v"
  by (simp add: is_int32_def sint_sbintrunc' signed_take_bit_int_eq_self)

definition wf_header :: "'a CBlockHeader_scheme \<Rightarrow> bool" where
  "wf_header h \<longleftrightarrow> is_int32 (hdr_nVersion h) \<and>
     list_all (\<lambda>b. length b = 32) [hashPrevBlock h, hashMerkleRoot h, hashFinalSaplingRoot h, nNonce h] \<and> length (nSolution h) \<le> MAX_SIZE"

interpretation header: codec wf_header CBlockHeader_Serialize CBlockHeader_Unserialize
proof
  fix x t rest
  show "CBlockHeader_Unserialize (CBlockHeader_Serialize x @ rest) = Some (x, rest)" if "wf_header x"
    using that by (simp add: CBlockHeader_Unserialize_def CBlockHeader_Serialize_def wf_header_def Serialize_int32_def le32.rd_wr blob.rd_wr
        vbytes.rd_wr wf_int32)
  show "wf_header x \<and> t = CBlockHeader_Serialize x @ rest" if "CBlockHeader_Unserialize t = Some (x, rest)"
    using that unfolding CBlockHeader_Unserialize_def
    by (elim bind_pairE) (auto simp: CBlockHeader_Serialize_def wf_header_def Serialize_int32_def is_int32_sint dest!: le32.wr_rd blob.wr_rd vbytes.wr_rd)
qed

definition wf_CTransaction :: "CTransaction \<Rightarrow> bool" where
  "wf_CTransaction tx \<longleftrightarrow> wf_tx tx \<and> txid tx = double_sha256 (the (tx_Serialize tx))"

interpretation ctx: codec wf_CTransaction "\<lambda>tx. the (tx_Serialize tx)" "CTransaction_Unserialize CTransaction_init"
proof
  fix x t rest
  show "CTransaction_Unserialize CTransaction_init (the (tx_Serialize x) @ rest) = Some (x, rest)" if "wf_CTransaction x"
    using that tx_Serialize_parts [of x] by (simp add: CTransaction_Unserialize_iff wf_CTransaction_def wf_tx_def wf_parts_def)
  show "wf_CTransaction x \<and> t = the (tx_Serialize x) @ rest" if "CTransaction_Unserialize CTransaction_init t = Some (x, rest)"
    using that by (auto simp: CTransaction_Unserialize_iff wf_CTransaction_def)
qed

interpretation txs_codec: codec "\<lambda>xs. length xs \<le> MAX_SIZE \<and> list_all wf_CTransaction xs" "Serialize_vec (\<lambda>tx. the (tx_Serialize tx))"
  "Unserialize_vec (vec_step 344) (CTransaction_Unserialize CTransaction_init)"
  by (rule ctx.vec_codec) (simp add: vec_step_def)

text \<open>A block that was read: its tree is empty, its parts are well-formed.\<close>

definition wf_block :: "CBlock \<Rightarrow> bool" where
  "wf_block b \<longleftrightarrow> wf_header b \<and> length (vtx b) \<le> MAX_SIZE \<and> list_all wf_CTransaction (vtx b) \<and> vMerkleTree b = []"

lemma CBlock_Serialize_parts:
  assumes "list_all wf_CTransaction (vtx b)"
  shows "CBlock_Serialize b = Some (CBlockHeader_Serialize b @ Serialize_vec (\<lambda>tx. the (tx_Serialize tx)) (vtx b))"
proof -
  have "list_all (\<lambda>tx. \<exists>d. tx_Serialize tx = Some d) (vtx b)"
    using assms tx_Serialize_parts by (fastforce simp: list_all_iff wf_CTransaction_def wf_tx_def wf_parts_def)
  then show ?thesis by (simp add: CBlock_Serialize_def those_total Serialize_vec_def)
qed

lemma header_of_block [simp]: "CBlockHeader_Serialize (CBlock_of_header h\<lparr>vtx := txs\<rparr>) = CBlockHeader_Serialize h"
  "CBlockHeader_Serialize (GetBlockHeader b) = CBlockHeader_Serialize b" "wf_header (GetBlockHeader b) = wf_header b"
  "wf_header (CBlock_of_header h\<lparr>vtx := txs\<rparr>) = wf_header h" "GetBlockHeader (CBlock_of_header h) = h"
  by (simp_all add: CBlockHeader_Serialize_def CBlock_of_header_def GetBlockHeader_def wf_header_def CBlockHeader.defs)

interpretation block: codec wf_block "\<lambda>b. the (CBlock_Serialize b)" CBlock_Unserialize
proof
  fix x t rest
  show "CBlock_Unserialize (the (CBlock_Serialize x) @ rest) = Some (x, rest)" if "wf_block x"
  proof -
    have "CBlockHeader_Unserialize (CBlockHeader_Serialize x @ r) = Some (GetBlockHeader x, r)" for r
      using header.rd_wr [of "GetBlockHeader x" r] that by (simp add: wf_block_def)
    moreover have "CBlock_of_header (GetBlockHeader x)\<lparr>vtx := vtx x\<rparr> = x"
      using that by (cases x) (simp add: wf_block_def CBlock_of_header_def GetBlockHeader_def CBlockHeader.defs)
    ultimately show ?thesis using that txs_codec.rd_wr [of "vtx x" rest]
      by (simp add: CBlock_Unserialize_def CBlock_Serialize_parts wf_block_def)
  qed
  show "wf_block x \<and> t = the (CBlock_Serialize x) @ rest" if "CBlock_Unserialize t = Some (x, rest)"
    using that unfolding CBlock_Unserialize_def
    by (elim bind_pairE) (auto simp: wf_block_def CBlock_Serialize_parts dest!: header.wr_rd txs_codec.wr_rd,
        auto simp: CBlock_of_header_def CBlockHeader.defs)
qed

text \<open>The bytes that are sent for a header are those of a block without transactions.\<close>

lemma network_header_block: "CNetworkBlockHeader_Serialize (CNetworkBlockHeader_of_header h) = CBlock_Serialize (CBlock_of_header h)"
  by (simp add: CNetworkBlockHeader_Serialize_def CNetworkBlockHeader_of_header_def CBlock_Serialize_def CBlock_of_header_def
      CBlockHeader_Serialize_def CBlockHeader.defs)

interpretation hashes: codec "\<lambda>xs. length xs \<le> MAX_SIZE \<and> list_all (\<lambda>v. length v = 32) xs" "Serialize_vec (\<lambda>v. v)"
  "Unserialize_vec (vec_step 32) (ser_read 32)"
  by (rule blob.vec_codec) (simp add: vec_step_def)

lemma locator_roundtrip:
  "length vHave \<le> MAX_SIZE \<Longrightarrow> list_all (\<lambda>v. length v = 32) vHave \<Longrightarrow>
   CBlockLocator_Unserialize g (CBlockLocator_Serialize g v vHave @ rest) = Some (vHave, rest)"
  by (auto simp: CBlockLocator_Unserialize_def CBlockLocator_Serialize_def Serialize_int32_def le32.rd_wr hashes.rd_wr)

text \<open>
  C40: A stream is read as a block exactly when it starts with the serialization of a well-formed block: a header with its Equihash
  solution, and well-formed transactions whose ids are the hashes of their serializations. The block that is read is that block.
\<close>

theorem block_roundtrip:
  "CBlock_Unserialize t = Some (b, rest) \<longleftrightarrow> wf_block b \<and> (\<exists>d. CBlock_Serialize b = Some d \<and> t = d @ rest)"
proof
  assume "CBlock_Unserialize t = Some (b, rest)"
  then show "wf_block b \<and> (\<exists>d. CBlock_Serialize b = Some d \<and> t = d @ rest)"
    using block.wr_rd [of t b rest] CBlock_Serialize_parts [of b] by (auto simp: wf_block_def)
qed (use block.rd_wr in fastforce)

end
