(* ===== verification/Merkle.thy ===== *)
theory Merkle
  imports Block
begin

text \<open>
  Merkle trees and branches, after \<^verbatim>\<open>src/src/primitives/block.cpp\<close>: the loops over one array of all nodes, their description level
  by level, and what a root says of the leaves. That double SHA-256 has no collisions is never assumed as such: the statements
  name the finitely many pairs that were hashed and suppose that no two of those collide.
\<close>

section \<open>Merkle trees\<close>

definition merkle_hash :: "bytes \<Rightarrow> bytes \<Rightarrow> bytes" where
  "merkle_hash a b = (case Hash2 a b of Some h \<Rightarrow> h | None \<Rightarrow> [])"

text \<open>The loop over one level of \<open>nSize\<close> hashes that starts at \<open>j\<close>, and the loop over the levels.\<close>

function merkle_inner :: "nat \<Rightarrow> nat \<Rightarrow> nat \<Rightarrow> bool \<Rightarrow> bytes list \<Rightarrow> bool \<times> bytes list" where
  "merkle_inner j nSize i mutated tree =
     (if i < nSize
      then let i2 = min (i + 1) (nSize - 1);
               mutated' = (mutated \<or> (i2 = i + 1 \<and> i2 + 1 = nSize \<and> tree ! (j + i) = tree ! (j + i2)))
           in merkle_inner j nSize (i + 2) mutated' (tree @ [merkle_hash (tree ! (j + i)) (tree ! (j + i2))])
      else (mutated, tree))"
  by pat_completeness auto
termination
  by (relation "measure (\<lambda>(_, nSize, i, _, _). nSize - i)") auto

function merkle_levels :: "nat \<Rightarrow> nat \<Rightarrow> bool \<Rightarrow> bytes list \<Rightarrow> bool \<times> bytes list" where
  "merkle_levels j nSize mutated tree =
     (if 1 < nSize
      then case merkle_inner j nSize 0 mutated tree of (mutated', tree') \<Rightarrow> merkle_levels (j + nSize) ((nSize + 1) div 2) mutated' tree'
      else (mutated, tree))"
  by pat_completeness auto
termination
  by (relation "measure (\<lambda>(_, nSize, _, _). nSize)") auto

declare merkle_inner.simps [simp del] merkle_levels.simps [simp del]

text \<open>The root, whether a mutation was detected, and the tree.\<close>

definition BuildMerkleTree :: "bytes list \<Rightarrow> bytes \<times> bool \<times> bytes list" where
  "BuildMerkleTree leaves =
     (case merkle_levels 0 (length leaves) False leaves of
        (mutated, tree) \<Rightarrow> (if tree = [] then replicate 32 0 else last tree, mutated, tree))"

function branch_loop :: "nat \<Rightarrow> nat \<Rightarrow> nat \<Rightarrow> bytes list \<Rightarrow> bytes list" where
  "branch_loop j nSize nIndex tree =
     (if 1 < nSize
      then let i = min (nIndex XOR 1) (nSize - 1)
           in tree ! (j + i) # branch_loop (j + nSize) ((nSize + 1) div 2) (nIndex div 2) tree
      else [])"
  by pat_completeness auto
termination
  by (relation "measure (\<lambda>(_, nSize, _, _). nSize)") auto

declare branch_loop.simps [simp del]

definition GetMerkleBranch :: "nat \<Rightarrow> nat \<Rightarrow> bytes list \<Rightarrow> bytes list" where
  "GetMerkleBranch nIndex nLeaves tree = branch_loop 0 nLeaves nIndex tree"

fun fold_branch :: "bytes \<Rightarrow> bytes list \<Rightarrow> int \<Rightarrow> bytes" where
  "fold_branch hash [] nIndex = hash"
| "fold_branch hash (it # br) nIndex = fold_branch (if odd nIndex then merkle_hash it hash else merkle_hash hash it) br (nIndex div 2)"

definition CheckMerkleBranch :: "bytes \<Rightarrow> bytes list \<Rightarrow> int \<Rightarrow> bytes" where
  "CheckMerkleBranch hash vMerkleBranch nIndex = (if nIndex = - 1 then replicate 32 0 else fold_branch hash vMerkleBranch nIndex)"

text \<open>The members of \<^verbatim>\<open>CBlock\<close>.\<close>

definition block_BuildMerkleTree :: "CBlock \<Rightarrow> (bytes \<times> bool) \<times> CBlock" where
  "block_BuildMerkleTree b = (case BuildMerkleTree (map txid (vtx b)) of (root, mutated, tree) \<Rightarrow> ((root, mutated), b\<lparr>vMerkleTree := tree\<rparr>))"

definition block_GetMerkleBranch :: "CBlock \<Rightarrow> nat \<Rightarrow> bytes list \<times> CBlock" where
  "block_GetMerkleBranch b nIndex =
     (let b' = (if vMerkleTree b = [] then snd (block_BuildMerkleTree b) else b)
      in (GetMerkleBranch nIndex (length (vtx b')) (vMerkleTree b'), b'))"

section \<open>The tree level by level\<close>

lemma merkle_hash_spec: "merkle_hash a b = double_sha256 (a @ b)"
  by (simp add: merkle_hash_def Hash_spec)

fun next_level :: "bytes list \<Rightarrow> bytes list" where
  "next_level [] = []"
| "next_level [x] = [merkle_hash x x]"
| "next_level (x # y # xs) = merkle_hash x y # next_level xs"

lemma length_next_level: "length (next_level xs) = (length xs + 1) div 2"
  by (induction xs rule: next_level.induct) auto

lemma next_level_append: "even (length xs) \<Longrightarrow> next_level (xs @ ys) = next_level xs @ next_level ys"
  by (induction xs rule: next_level.induct) auto

lemma next_level_nth:
  "m < length (next_level xs) \<Longrightarrow> next_level xs ! m = merkle_hash (xs ! (2 * m)) (xs ! min (2 * m + 1) (length xs - 1))"
proof (induction xs arbitrary: m rule: next_level.induct)
  case (3 x y xs)
  show ?case
  proof (cases m)
    case (Suc k)
    then have "min (2 * m + 1) (length (x # y # xs) - 1) = Suc (Suc (min (2 * k + 1) (length xs - 1)))"
      using 3(2) by (auto simp: length_next_level)
    then show ?thesis using 3 Suc by simp
  qed simp
qed auto

text \<open>Two equal hashes at the end of a level of even length.\<close>

definition twin_end :: "bytes list \<Rightarrow> bool" where
  "twin_end xs \<longleftrightarrow> xs \<noteq> [] \<and> even (length xs) \<and> xs ! (length xs - 1) = xs ! (length xs - 2)"

function levels :: "bytes list \<Rightarrow> bytes list list" where
  "levels xs = (if 1 < length xs then xs # levels (next_level xs) else [xs])"
  by pat_completeness auto
termination
  by (relation "measure length") (auto simp: length_next_level)

declare levels.simps [simp del]

lemma merkle_inner_level:
  assumes "t = pre @ xs @ next_level (take i xs)" and "even i"
  shows "merkle_inner (length pre) (length xs) i m t = (m \<or> (i < length xs \<and> twin_end xs), pre @ xs @ next_level xs)"
  using assms
proof (induction "length xs - i" arbitrary: i m t rule: less_induct)
  case less
  show ?case
  proof (cases "i < length xs")
    case True
    let ?i2 = "min (i + 1) (length xs - 1)"
    have i2: "?i2 = (if i + 1 < length xs then i + 1 else i)" using True by auto
    have "?i2 < length xs" using True by auto
    then have nth: "t ! (length pre + i) = xs ! i" "t ! (length pre + ?i2) = xs ! ?i2" using True less(2) by (simp_all add: nth_append)
    have tk: "take (i + 2) xs = take i xs @ (if i + 1 < length xs then [xs ! i, xs ! (i + 1)] else [xs ! i])"
      using take_Suc_conv_app_nth [OF True] take_Suc_conv_app_nth [of "Suc i" xs] by (cases "Suc i < length xs") simp_all
    have "next_level (take (i + 2) xs) = next_level (take i xs) @ [merkle_hash (xs ! i) (xs ! ?i2)]"
      unfolding tk i2 using less(3) True by (simp add: next_level_append)
    then have "merkle_inner (length pre) (length xs) (i + 2) m' (t @ [merkle_hash (xs ! i) (xs ! ?i2)]) =
        (m' \<or> (i + 2 < length xs \<and> twin_end xs), pre @ xs @ next_level xs)" for m'
      using less(1) [of "i + 2" "t @ [merkle_hash (xs ! i) (xs ! ?i2)]" m'] True less(2,3) by simp
    moreover have "(?i2 = i + 1 \<and> ?i2 + 1 = length xs \<and> xs ! i = xs ! ?i2) \<or> (i + 2 < length xs \<and> twin_end xs) \<longleftrightarrow> twin_end xs"
    proof (cases "i + 2 = length xs")
      case True
      have "even (length xs)" using less(3) by (simp flip: True)
      moreover have "length xs - 1 = i + 1" "length xs - 2 = i" "xs \<noteq> []" using True by auto
      ultimately show ?thesis using True by (auto simp: twin_end_def)
    next
      case False
      then show ?thesis using \<open>i < length xs\<close> less(3) by (auto simp: twin_end_def min_def; presburger)
    qed
    ultimately show ?thesis using True nth by (subst merkle_inner.simps) (auto simp: Let_def)
  next
    case False
    then show ?thesis using less(2) by (subst merkle_inner.simps) simp
  qed
qed

lemma merkle_levels_tree:
  "merkle_levels (length pre) (length xs) m (pre @ xs) = (m \<or> list_ex twin_end (butlast (levels xs)), pre @ concat (levels xs))"
proof (induction xs arbitrary: pre m rule: levels.induct)
  case (1 xs)
  show ?case
  proof (cases "1 < length xs")
    case True
    have "merkle_inner (length pre) (length xs) 0 m (pre @ xs) = (m \<or> twin_end xs, (pre @ xs) @ next_level xs)"
      using merkle_inner_level [of "pre @ xs" pre xs 0 m] True by auto
    moreover have "levels (next_level xs) \<noteq> []" by (subst levels.simps) simp
    ultimately show ?thesis
      using 1 [OF True, of "pre @ xs" "m \<or> twin_end xs"] True
      by (subst merkle_levels.simps) (simp add: length_next_level levels.simps [of xs])
  next
    case False
    then show ?thesis by (subst merkle_levels.simps) (simp add: levels.simps)
  qed
qed

text \<open>The root of the last level, and the tree that is built.\<close>

definition merkle_root :: "bytes list \<Rightarrow> bytes" where
  "merkle_root xs = (if xs = [] then replicate 32 0 else hd (last (levels xs)))"

lemma levels_last: "xs \<noteq> [] \<Longrightarrow> \<exists>r. last (levels xs) = [r]"
proof (induction xs rule: levels.induct)
  case (1 xs)
  have "levels (next_level xs) \<noteq> []" by (subst levels.simps) simp
  moreover have "next_level xs \<noteq> []" if "1 < length xs" using that length_next_level [of xs] by auto
  moreover have "\<exists>r. xs = [r]" if "\<not> 1 < length xs" using that 1(2) by (cases xs) auto
  ultimately show ?case using 1 by (subst levels.simps) auto
qed

lemma BuildMerkleTree_spec:
  "BuildMerkleTree leaves = (merkle_root leaves, list_ex twin_end (butlast (levels leaves)), concat (levels leaves))"
proof (cases "leaves = []")
  case True
  then show ?thesis by (simp add: BuildMerkleTree_def merkle_root_def merkle_levels.simps levels.simps)
next
  case False
  obtain r where r: "last (levels leaves) = [r]" using levels_last [OF False] by blast
  have ne: "levels leaves \<noteq> []" by (subst levels.simps) simp
  have "concat (levels leaves) = concat (butlast (levels leaves)) @ [r]"
    using arg_cong [OF append_butlast_last_id [OF ne], of concat] r by simp
  then show ?thesis using merkle_levels_tree [of "[]" leaves False] r False
    by (simp add: BuildMerkleTree_def merkle_root_def)
qed

section \<open>Branches\<close>

lemma xor_1: "(i :: nat) XOR 1 = (if odd i then i - 1 else i + 1)"
  using xor_Suc_0_eq [of i] by simp

lemma int_half: "odd (int i) = odd i" "int i div 2 = int (i div 2)"
  by (simp_all add: zdiv_int)

lemma odd_index:
  fixes i n :: nat
  shows "odd i \<Longrightarrow> i < n \<Longrightarrow> min (i XOR 1) (n - 1) = 2 * (i div 2)" "odd i \<Longrightarrow> i < n \<Longrightarrow> min (2 * (i div 2) + 1) (n - 1) = i"
  unfolding xor_1 by (auto elim!: oddE)

lemma even_index:
  fixes i n :: nat
  shows "even i \<Longrightarrow> 2 * (i div 2) = i" "even i \<Longrightarrow> min (i XOR 1) (n - 1) = min (2 * (i div 2) + 1) (n - 1)"
  unfolding xor_1 by simp_all

lemma levels_step: "1 < length xs \<Longrightarrow> levels xs = xs # levels (next_level xs)" "\<not> 1 < length xs \<Longrightarrow> levels xs = [xs]"
  by (simp_all add: levels.simps)

lemma levels_not_Nil [simp]: "levels xs \<noteq> []"
  by (subst levels.simps) simp

lemma branch_root:
  "i < length xs \<Longrightarrow> fold_branch (xs ! i) (branch_loop (length pre) (length xs) i (pre @ concat (levels xs))) (int i) = hd (last (levels xs))"
proof (induction xs arbitrary: pre i rule: levels.induct)
  case (1 xs)
  show ?case
  proof (cases "1 < length xs")
    case True
    let ?k = "min (i XOR 1) (length xs - 1)"
    have k: "?k < length xs" using True by auto
    have m: "i div 2 < length (next_level xs)" using 1(2) by (simp add: length_next_level)
    have h: "(if odd i then merkle_hash (xs ! ?k) (xs ! i) else merkle_hash (xs ! i) (xs ! ?k)) = next_level xs ! (i div 2)"
      unfolding next_level_nth [OF m] by (cases "odd i") (simp_all only: odd_index [OF _ 1(2)] even_index if_True if_False not_not not_True_eq_False not_False_eq_True)
    have "(pre @ concat (levels xs)) ! (length pre + ?k) = xs ! ?k"
      unfolding levels_step(1) [OF True] using k by (simp only: concat.simps nth_append_length_plus nth_append_left)
    then have bl: "branch_loop (length pre) (length xs) i (pre @ concat (levels xs)) =
        xs ! ?k # branch_loop (length (pre @ xs)) (length (next_level xs)) (i div 2) ((pre @ xs) @ concat (levels (next_level xs)))"
      using True by (subst branch_loop.simps) (simp only: Let_def if_True length_next_level length_append levels_step(1) [OF True] concat.simps append_assoc)
    show ?thesis unfolding bl fold_branch.simps int_half h 1(1) [OF True m, of "pre @ xs"] unfolding levels_step(1) [OF True] by simp
  next
    case False
    then have "i = 0" using 1(2) by simp
    moreover have "branch_loop (length pre) (length xs) i t = []" for t using False by (subst branch_loop.simps) simp
    moreover have "hd xs = xs ! 0" using 1(2) by (simp add: hd_conv_nth flip: length_greater_0_conv)
    ultimately show ?thesis unfolding levels_step(2) [OF False] by simp
  qed
qed

lemma branch_length: "length (branch_loop j (length xs) i t) + 1 = length (levels xs)"
proof (induction xs arbitrary: i j rule: levels.induct)
  case (1 xs)
  show ?case
  proof (cases "1 < length xs")
    case True
    then show ?thesis using 1 [OF True, of "j + length xs" "i div 2"]
      by (subst branch_loop.simps) (simp add: levels_step length_next_level Let_def)
  qed (subst branch_loop.simps, simp add: levels_step)
qed

text \<open>The pairs that are hashed, in a tree and along a branch, and what it is that no two of them collide.\<close>

fun level_pairs :: "bytes list \<Rightarrow> (bytes \<times> bytes) list" where
  "level_pairs [] = []"
| "level_pairs [x] = [(x, x)]"
| "level_pairs (x # y # xs) = (x, y) # level_pairs xs"

definition tree_pairs :: "bytes list \<Rightarrow> (bytes \<times> bytes) list" where
  "tree_pairs xs = concat (map level_pairs (butlast (levels xs)))"

fun branch_pairs :: "bytes \<Rightarrow> bytes list \<Rightarrow> nat \<Rightarrow> (bytes \<times> bytes) list" where
  "branch_pairs hash [] nIndex = []"
| "branch_pairs hash (it # br) nIndex = (let p = (if odd nIndex then (it, hash) else (hash, it)) in p # branch_pairs (merkle_hash (fst p) (snd p)) br (nIndex div 2))"

definition no_collision :: "(bytes \<times> bytes) list \<Rightarrow> bool" where
  "no_collision ps \<longleftrightarrow> list_all (\<lambda>p. list_all (\<lambda>q. merkle_hash (fst p) (snd p) = merkle_hash (fst q) (snd q) \<longrightarrow> p = q) ps) ps"

lemma no_collisionD: "no_collision ps \<Longrightarrow> p \<in> set ps \<Longrightarrow> q \<in> set ps \<Longrightarrow> merkle_hash (fst p) (snd p) = merkle_hash (fst q) (snd q) \<Longrightarrow> p = q"
  by (auto simp: no_collision_def list_all_iff)

lemma no_collision_subset: "no_collision ps \<Longrightarrow> set qs \<subseteq> set ps \<Longrightarrow> no_collision qs"
  by (auto simp: no_collision_def list_all_iff subset_iff)

lemma next_level_pairs: "next_level xs = map (\<lambda>p. merkle_hash (fst p) (snd p)) (level_pairs xs)"
  by (induction xs rule: next_level.induct) auto

lemma tree_pairs_step: "1 < length xs \<Longrightarrow> tree_pairs xs = level_pairs xs @ tree_pairs (next_level xs)"
  by (simp add: tree_pairs_def levels_step)

lemma level_pairs_nth:
  "m < length (next_level xs) \<Longrightarrow> (xs ! (2 * m), xs ! min (2 * m + 1) (length xs - 1)) \<in> set (level_pairs xs)"
proof (induction xs arbitrary: m rule: level_pairs.induct)
  case (3 x y xs)
  show ?case
  proof (cases m)
    case (Suc k)
    then have "min (2 * m + 1) (length (x # y # xs) - 1) = Suc (Suc (min (2 * k + 1) (length xs - 1)))"
      using 3(2) by (auto simp: length_next_level)
    then show ?thesis using 3 Suc by simp
  qed simp
qed auto

lemma branch_sound:
  assumes "no_collision (tree_pairs xs @ branch_pairs h br i)" and "i < length xs" and "length br + 1 = length (levels xs)"
    and "fold_branch h br (int i) = hd (last (levels xs))"
  shows "h = xs ! i"
  using assms
proof (induction xs arbitrary: h br i rule: levels.induct)
  case (1 xs)
  show ?case
  proof (cases "1 < length xs")
    case True
    note lv = levels_step(1) [OF True]
    obtain it br' where br: "br = it # br'" using 1(4) lv by (cases br) auto
    let ?p = "if odd i then (it, h) else (h, it)" and ?m = "i div 2"
    let ?h = "merkle_hash (fst ?p) (snd ?p)"
    have bp: "branch_pairs h br i = ?p # branch_pairs ?h br' ?m" by (simp add: br Let_def)
    have m: "?m < length (next_level xs)" using 1(3) by (simp add: length_next_level)
    have "no_collision (tree_pairs (next_level xs) @ branch_pairs ?h br' ?m)"
      by (rule no_collision_subset [OF 1(2)]) (auto simp: bp tree_pairs_step [OF True])
    moreover have "fold_branch ?h br' (int ?m) = hd (last (levels (next_level xs)))" using 1(5) unfolding br lv fold_branch.simps int_half by (simp split: if_splits)
    moreover have "length br' + 1 = length (levels (next_level xs))" using 1(4) unfolding br lv by simp
    ultimately have "?h = next_level xs ! ?m" by (intro 1(1) [OF True _ m])
    then have "?p = (xs ! (2 * ?m), xs ! min (2 * ?m + 1) (length xs - 1))"
      using level_pairs_nth [OF m] unfolding next_level_nth [OF m]
      by (intro no_collisionD [OF 1(2)]) (auto simp: bp tree_pairs_step [OF True])
    then show ?thesis by (cases "odd i") (simp_all only: odd_index(2) [OF _ 1(3)] even_index if_True if_False not_not not_True_eq_False not_False_eq_True prod.inject)
  next
    case False
    then have xs: "xs = [xs ! 0]" "i = 0" using 1(3) by (cases xs; simp)+
    have "br = []" "fold_branch h br (int i) = hd xs" using 1(4,5) unfolding levels_step(2) [OF False] by simp_all
    then show ?thesis using xs by (metis fold_branch.simps(1) list.sel(1))
  qed
qed

text \<open>
  C37: The branch that \<^verbatim>\<open>GetMerkleBranch\<close> takes from the tree of a block leads from every transaction to the root that
  \<^verbatim>\<open>BuildMerkleTree\<close> returns, and unless two of the hashed pairs collide no other hash has a branch of the same length that
  leads to the root at that position.
\<close>

theorem merkle_branch_correct:
  assumes "BuildMerkleTree leaves = (root, mutated, tree)" and "i < length leaves"
  shows "CheckMerkleBranch (leaves ! i) (GetMerkleBranch i (length leaves) tree) (int i) = root \<and>
    (\<forall>h br. length br = length (GetMerkleBranch i (length leaves) tree) \<and> no_collision (tree_pairs leaves @ branch_pairs h br i) \<and>
      CheckMerkleBranch h br (int i) = root \<longrightarrow> h = leaves ! i)"
proof -
  have t: "root = hd (last (levels leaves))" "tree = concat (levels leaves)" "leaves \<noteq> []"
    using assms by (auto simp: BuildMerkleTree_spec merkle_root_def)
  have "fold_branch (leaves ! i) (GetMerkleBranch i (length leaves) tree) (int i) = root"
    using branch_root [OF assms(2), of "[]"] by (simp add: GetMerkleBranch_def t)
  moreover have "h = leaves ! i" if "length br = length (GetMerkleBranch i (length leaves) tree)"
      "no_collision (tree_pairs leaves @ branch_pairs h br i)" "fold_branch h br (int i) = root" for h br
    using branch_sound [OF that(2) assms(2)] that branch_length [of 0 leaves i tree] by (simp add: GetMerkleBranch_def t(1))
  ultimately show ?thesis by (auto simp: CheckMerkleBranch_def)
qed

section \<open>Mutations\<close>

lemma twin_end_Cons2: "xs \<noteq> [] \<Longrightarrow> twin_end (x # y # xs) = twin_end xs"
  by (cases xs; cases "tl xs") (auto simp: twin_end_def nth_Cons split: nat.splits)

lemma twin_end_short: "\<not> twin_end []" "\<not> twin_end [x]" "twin_end [x, y] = (y = x)"
  by (simp_all add: twin_end_def)

lemma level_pairs_Nil: "level_pairs xs = [] \<longleftrightarrow> xs = []"
  by (cases xs rule: level_pairs.cases) auto

lemma level_pairs_inj: "level_pairs xs = level_pairs ys \<Longrightarrow> xs = ys \<or> twin_end xs \<or> twin_end ys"
proof (induction xs arbitrary: ys rule: level_pairs.induct)
  case 1
  then show ?case using level_pairs_Nil [of ys] by simp
next
  case (2 x)
  then show ?case by (cases ys rule: level_pairs.cases) (auto simp: level_pairs_Nil twin_end_short eq_commute [of "[]"])
next
  case (3 x y xs)
  show ?case
  proof (cases ys rule: level_pairs.cases)
    case (3 x' y' ys')
    then have eq: "x' = x" "y' = y" "level_pairs xs = level_pairs ys'" using "3.prems" by auto
    then show ?thesis using "3.IH" [of ys'] 3 twin_end_Cons2 [of xs x y] twin_end_Cons2 [of ys' x y] level_pairs_Nil [of xs] level_pairs_Nil [of ys']
      by (cases "xs = []") auto
  qed (use "3.prems" in \<open>auto simp: level_pairs_Nil twin_end_short\<close>)
qed

lemma levels_length: "length (levels xs) = 1 \<longleftrightarrow> \<not> 1 < length xs"
  by (cases "1 < length xs") (simp_all add: levels_step(1) levels_step(2))

lemma next_level_not_Nil: "1 < length xs \<Longrightarrow> next_level xs \<noteq> []"
  by (cases xs rule: next_level.cases) auto

lemma next_level_inj:
  assumes "no_collision ps" and "set (level_pairs xs) \<union> set (level_pairs ys) \<subseteq> set ps" and "next_level xs = next_level ys"
    and "\<not> twin_end xs" and "\<not> twin_end ys"
  shows "xs = ys"
proof -
  have "inj_on (\<lambda>p. merkle_hash (fst p) (snd p)) (set (level_pairs xs) \<union> set (level_pairs ys))"
    using no_collisionD [OF assms(1)] assms(2) by (meson inj_onI subsetD)
  then have "level_pairs xs = level_pairs ys"
    using assms(3) unfolding next_level_pairs by (rule inj_on_map_eq_map [THEN iffD1])
  then show ?thesis using level_pairs_inj assms(4,5) by blast
qed

lemma merkle_root_inj:
  assumes "no_collision (tree_pairs xs @ tree_pairs ys)" and "length (levels xs) = length (levels ys)" and "xs \<noteq> []" and "ys \<noteq> []"
    and "\<not> list_ex twin_end (butlast (levels xs))" and "\<not> list_ex twin_end (butlast (levels ys))" and "hd (last (levels xs)) = hd (last (levels ys))"
  shows "xs = ys"
  using assms
proof (induction xs arbitrary: ys rule: levels.induct)
  case (1 xs)
  show ?case
  proof (cases "1 < length xs")
    case True
    then have y: "1 < length ys" using 1(3) levels_length by metis
    note lv = levels_step(1) [OF True] levels_step(1) [OF y] and tp = tree_pairs_step [OF True] tree_pairs_step [OF y]
    note prems = 1(3,6,7,8) [unfolded lv]
    have "next_level xs = next_level ys"
    proof (rule 1(1) [OF True])
      show "no_collision (tree_pairs (next_level xs) @ tree_pairs (next_level ys))"
        by (rule no_collision_subset [OF 1(2)]) (auto simp: tp)
    qed (use prems next_level_not_Nil [OF True] next_level_not_Nil [OF y] in simp_all)
    then show ?thesis
    proof (rule next_level_inj [OF 1(2), rotated])
      show "set (level_pairs xs) \<union> set (level_pairs ys) \<subseteq> set (tree_pairs xs @ tree_pairs ys)" unfolding tp by auto
    qed (use prems(2,3) in simp_all)
  next
    case False
    then have "\<not> 1 < length ys" using 1(3) levels_length by metis
    then have "hd xs = hd ys" "length xs = 1" "length ys = 1"
      using False 1(4,5,8) levels_step(2) [OF False] levels_step(2) [of ys] by (auto simp: Suc_le_eq le_less_Suc_eq intro: le_antisym)
    then show ?thesis by (cases xs; cases ys) simp_all
  qed
qed

text \<open>
  C36: A block whose tree shows no mutation cannot be changed without changing its root: two lists of transactions whose
  trees have the same height and the same root, and for which no mutation is detected, are equal unless two of the
  hashed pairs collide. This is the detection of duplicated transactions (CVE-2012-2459).
\<close>

theorem merkle_unmutated:
  assumes "BuildMerkleTree leaves = (root, False, tree)" and "BuildMerkleTree leaves' = (root, False, tree')"
    and "length (levels leaves) = length (levels leaves')" and "leaves \<noteq> []" and "leaves' \<noteq> []"
    and "no_collision (tree_pairs leaves @ tree_pairs leaves')"
  shows "leaves = leaves'"
  using merkle_root_inj [OF assms(6,3,4,5)] assms(1,2,4,5) by (auto simp: BuildMerkleTree_spec merkle_root_def)

section \<open>Instances\<close>

lemma two_leaves: "BuildMerkleTree [a, b] = (merkle_hash a b, a = b, [a, b, merkle_hash a b])"
proof -
  have "levels [a, b] = [[a, b], [merkle_hash a b]]" by (subst levels.simps, subst levels.simps) simp
  then show ?thesis by (auto simp: BuildMerkleTree_spec merkle_root_def twin_end_short)
qed

lemma one_leaf: "levels [a] = [[a]]" "tree_pairs [a] = []" "BuildMerkleTree [a] = (a, False, [a])"
  by (simp_all add: levels_step(2) tree_pairs_def BuildMerkleTree_spec merkle_root_def)

theorem merkle_branch_correct_witness:
  "CheckMerkleBranch [2] (GetMerkleBranch 1 (length [[1 :: byte], [2]]) [[1], [2], merkle_hash [1] [2]]) (int 1) = merkle_hash [1] [2]"
  using merkle_branch_correct [OF two_leaves [of "[1]" "[2]"], of 1] by simp

theorem merkle_unmutated_witness:
  "BuildMerkleTree [[1], [2]] = (merkle_hash [1] [2], False, [[1], [2], merkle_hash [1] [2]]) \<and>
   no_collision (tree_pairs [[1], [2]] @ tree_pairs [[1], [2]]) \<and> [[1 :: byte], [2]] = [[1], [2]]"
proof -
  have t: "BuildMerkleTree [[1], [2]] = (merkle_hash [1] [2], False, [[1], [2], merkle_hash [1] [2]])" using two_leaves [of "[1]" "[2]"] by simp
  have n: "no_collision (tree_pairs [[1], [2]] @ tree_pairs [[1], [2]])" by (simp add: tree_pairs_step one_leaf no_collision_def)
  show ?thesis using t n merkle_unmutated [OF t t _ _ _ n] by simp
qed

end
