(* ===== verification/PartialMerkle.thy ===== *)
theory PartialMerkle
  imports Merkle "HOL-Library.Sublist"
begin

text \<open>
  Partial Merkle trees, after \<^verbatim>\<open>src/src/merkleblock.h\<close> and \<^verbatim>\<open>src/src/merkleblock.cpp\<close>: a proof that some transactions are in a
  block. Positions and heights are numbers; the width of a level is computed in 32 bits as in the code. The theorems bound the
  transactions of a block by \<open>2 ^ 31\<close>, and then no shifted position leaves the 32 bits it has in the code.
\<close>

section \<open>Building and reading\<close>

record CPartialMerkleTree =
  nTransactions :: u32
  vBits :: "bool list"
  vHash :: "bytes list"
  fBad :: bool

definition CalcTreeWidth :: "u32 \<Rightarrow> nat \<Rightarrow> nat" where
  "CalcTreeWidth n height = unat (drop_bit height (n + push_bit height 1 - 1))"

fun CalcHash :: "u32 \<Rightarrow> nat \<Rightarrow> nat \<Rightarrow> bytes list \<Rightarrow> bytes" where
  "CalcHash n 0 pos vTxid = vTxid ! pos"
| "CalcHash n (Suc h) pos vTxid =
     (let left = CalcHash n h (pos * 2) vTxid;
          right = (if pos * 2 + 1 < CalcTreeWidth n h then CalcHash n h (pos * 2 + 1) vTxid else left)
      in merkle_hash left right)"

definition fParentOfMatch :: "u32 \<Rightarrow> nat \<Rightarrow> nat \<Rightarrow> bool list \<Rightarrow> bool" where
  "fParentOfMatch n height pos vMatch =
     list_ex (\<lambda>p. vMatch ! p) (filter (\<lambda>p. p < unat n) [pos * 2 ^ height..<(pos + 1) * 2 ^ height])"

fun TraverseAndBuild :: "u32 \<Rightarrow> nat \<Rightarrow> nat \<Rightarrow> bytes list \<Rightarrow> bool list \<Rightarrow> bool list \<times> bytes list \<Rightarrow> bool list \<times> bytes list" where
  "TraverseAndBuild n 0 pos vTxid vMatch (bits, hashes) =
     (bits @ [fParentOfMatch n 0 pos vMatch], hashes @ [CalcHash n 0 pos vTxid])"
| "TraverseAndBuild n (Suc h) pos vTxid vMatch (bits, hashes) =
     (let f = fParentOfMatch n (Suc h) pos vMatch; bits = bits @ [f]
      in if \<not> f then (bits, hashes @ [CalcHash n (Suc h) pos vTxid])
         else let st = TraverseAndBuild n h (pos * 2) vTxid vMatch (bits, hashes)
              in if pos * 2 + 1 < CalcTreeWidth n h then TraverseAndBuild n h (pos * 2 + 1) vTxid vMatch st else st)"

text \<open>The state of the traversal: the bits and hashes used, the matches found, and the flag for invalid data.\<close>

record extraction =
  nBitsUsed :: nat
  nHashUsed :: nat
  xMatch :: "bytes list"
  xBad :: bool

definition use_bit :: "bool list \<Rightarrow> extraction \<Rightarrow> (bool \<times> extraction) option" where
  "use_bit bits x = (if length bits \<le> nBitsUsed x then None else Some (bits ! nBitsUsed x, x\<lparr>nBitsUsed := nBitsUsed x + 1\<rparr>))"

definition use_hash :: "bytes list \<Rightarrow> bool \<Rightarrow> extraction \<Rightarrow> bytes \<times> extraction" where
  "use_hash hashes matched x =
     (if length hashes \<le> nHashUsed x then (replicate 32 0, x\<lparr>xBad := True\<rparr>)
      else let hash = hashes ! nHashUsed x
           in (hash, x\<lparr>nHashUsed := nHashUsed x + 1, xMatch := xMatch x @ (if matched then [hash] else [])\<rparr>))"

fun TraverseAndExtract :: "'a CPartialMerkleTree_scheme \<Rightarrow> nat \<Rightarrow> nat \<Rightarrow> extraction \<Rightarrow> bytes \<times> extraction" where
  "TraverseAndExtract t 0 pos x =
     (case use_bit (vBits t) x of
        None \<Rightarrow> (replicate 32 0, x\<lparr>xBad := True\<rparr>)
      | Some (f, x) \<Rightarrow> use_hash (vHash t) f x)"
| "TraverseAndExtract t (Suc h) pos x =
     (case use_bit (vBits t) x of
        None \<Rightarrow> (replicate 32 0, x\<lparr>xBad := True\<rparr>)
      | Some (f, x) \<Rightarrow>
          if \<not> f then use_hash (vHash t) False x
          else case TraverseAndExtract t h (pos * 2) x of
                 (left, x) \<Rightarrow>
                   if pos * 2 + 1 < CalcTreeWidth (nTransactions t) h
                   then case TraverseAndExtract t h (pos * 2 + 1) x of
                          (right, x) \<Rightarrow> (merkle_hash left right, if right = left then x\<lparr>xBad := True\<rparr> else x)
                   else (merkle_hash left left, x))"

text \<open>The height of the tree. At height 31 the width is at most one, so the loop ends before the bound.\<close>

function tree_height :: "u32 \<Rightarrow> nat \<Rightarrow> nat" where
  "tree_height n nHeight = (if nHeight < 32 \<and> 1 < CalcTreeWidth n nHeight then tree_height n (nHeight + 1) else nHeight)"
  by pat_completeness auto
termination
  by (relation "measure (\<lambda>(_, h). 32 - h)") auto

declare tree_height.simps [simp del]

definition CPartialMerkleTree_build :: "bytes list \<Rightarrow> bool list \<Rightarrow> CPartialMerkleTree" where
  "CPartialMerkleTree_build vTxid vMatch =
     (let n = word_of_nat (length vTxid);
          (bits, hashes) = TraverseAndBuild n (tree_height n 0) 0 vTxid vMatch ([], [])
      in \<lparr>nTransactions = n, vBits = bits, vHash = hashes, fBad = False\<rparr>)"

definition CPartialMerkleTree_init :: CPartialMerkleTree where
  "CPartialMerkleTree_init = \<lparr>nTransactions = 0, vBits = [], vHash = [], fBad = True\<rparr>"

text \<open>
  The root, or zero, the matches, and the tree with its flag. The bound \<open>maxtx\<close> on the transactions of a block is
  \<^verbatim>\<open>MAX_BLOCK_SIZE(10000000) / 60\<close>, which depends on the chain.
\<close>

definition ExtractMatches :: "nat \<Rightarrow> CPartialMerkleTree \<Rightarrow> bytes \<times> bytes list \<times> CPartialMerkleTree" where
  "ExtractMatches maxtx t =
     (let n = nTransactions t
      in if n = 0 \<or> maxtx < unat n \<or> unat n < length (vHash t) \<or> length (vBits t) < length (vHash t) then (replicate 32 0, [], t)
         else case TraverseAndExtract t (tree_height n 0) 0 \<lparr>nBitsUsed = 0, nHashUsed = 0, xMatch = [], xBad = fBad t\<rparr> of
                (root, x) \<Rightarrow>
                  (if xBad x \<or> (nBitsUsed x + 7) div 8 \<noteq> (length (vBits t) + 7) div 8 \<or> nHashUsed x \<noteq> length (vHash t)
                   then replicate 32 0 else root, xMatch x, t\<lparr>fBad := xBad x\<rparr>))"

section \<open>The levels of the tree\<close>

abbreviation level :: "nat \<Rightarrow> bytes list \<Rightarrow> bytes list" where
  "level h xs \<equiv> (next_level ^^ h) xs"

lemma ceil_half: "((a :: nat) + 2 ^ h - 1) div 2 ^ h = w \<Longrightarrow> 0 < a \<Longrightarrow> (w + 1) div 2 = (a + 2 ^ Suc h - 1) div 2 ^ Suc h"
proof -
  assume w: "(a + 2 ^ h - 1) div 2 ^ h = w" and a: "0 < a"
  have "(a + 2 ^ Suc h - 1) div 2 ^ Suc h = ((a + 2 ^ h - 1) + 2 ^ h) div 2 ^ h div 2" using a by (simp add: div_mult2_eq [symmetric] mult.commute mult_2 add.assoc)
  also have "\<dots> = (w + 1) div 2" using w div_add_self2 [of "2 ^ h" "a + 2 ^ h - 1"] by (simp only: power_not_zero zero_neq_numeral) simp
  finally show ?thesis by simp
qed

lemma length_level: "xs \<noteq> [] \<Longrightarrow> length (level h xs) = (length xs + 2 ^ h - 1) div 2 ^ h"
proof (induction h)
  case (Suc h)
  then show ?case using ceil_half [of "length xs" h "length (level h xs)"] by (simp add: length_next_level)
qed simp

lemma CalcTreeWidth_level:
  assumes "xs \<noteq> []" and "length xs \<le> 2 ^ 31" and "h < 32"
  shows "CalcTreeWidth (word_of_nat (length xs)) h = length (level h xs)"
proof -
  have p: "(2 :: nat) ^ h \<le> 2 ^ 31" using assms(3) by (intro power_increasing) auto
  have "word_of_nat (length xs) + push_bit h 1 - 1 = (word_of_nat (length xs + 2 ^ h - 1) :: u32)"
    using assms(1) by (simp add: push_bit_eq_mult of_nat_diff Suc_leI)
  moreover have "unat (word_of_nat (length xs + 2 ^ h - 1) :: u32) = length xs + 2 ^ h - 1"
    using assms(2) p by (simp add: unat_of_nat)
  ultimately have "CalcTreeWidth (word_of_nat (length xs)) h = drop_bit h (length xs + 2 ^ h - 1)"
    unfolding CalcTreeWidth_def by (simp only: unat_drop_bit_eq)
  then show ?thesis using assms(1) by (simp add: drop_bit_eq_div length_level)
qed

lemma level_not_Nil: "xs \<noteq> [] \<Longrightarrow> level h xs \<noteq> []"
  by (induction h) (auto simp: length_next_level simp flip: length_greater_0_conv)

lemma tree_height_level:
  assumes "xs \<noteq> []" and "length xs \<le> 2 ^ 31" and "k < 32"
  shows "tree_height (word_of_nat (length xs)) k = k + (length (levels (level k xs)) - 1) \<and> k + (length (levels (level k xs)) - 1) < 32"
  using assms(3)
proof (induction "32 - k" arbitrary: k rule: less_induct)
  case less
  let ?ys = "level k xs"
  show ?case
  proof (cases "1 < length ?ys")
    case True
    have "k < 31"
    proof (rule ccontr)
      assume "\<not> k < 31"
      then have "k = 31" using less(2) by simp
      then show False using True assms(1,2) by (simp add: length_level div_le_dividend)
    qed
    then have k: "k + 1 < 32" by simp
    obtain m where m: "length (levels (level (k + 1) xs)) = Suc m" by (cases "levels (level (k + 1) xs)") simp_all
    then have "length (levels ?ys) = Suc (Suc m)" using True by (simp add: levels_step(1))
    then show ?thesis using less(1) [OF _ k] k m True CalcTreeWidth_level [OF assms(1,2) less(2)]
      by (subst tree_height.simps) simp
  next
    case False
    then show ?thesis using less(2) CalcTreeWidth_level [OF assms(1,2) less(2)]
      by (subst tree_height.simps) (simp add: levels_step(2))
  qed
qed

lemma last_level: "xs \<noteq> [] \<Longrightarrow> level (length (levels xs) - 1) xs = [merkle_root xs]"
proof (induction xs rule: levels.induct)
  case (1 xs)
  show ?case
  proof (cases "1 < length xs")
    case True
    obtain m where m: "length (levels (next_level xs)) = Suc m" by (cases "levels (next_level xs)") simp_all
    then have "length (levels xs) = Suc (Suc m)" using True by (simp add: levels_step(1))
    moreover have "merkle_root xs = merkle_root (next_level xs)" using 1(2) next_level_not_Nil [OF True] by (simp add: merkle_root_def levels_step(1) [OF True])
    ultimately show ?thesis using 1(1) [OF True next_level_not_Nil [OF True]] m by (simp add: funpow_Suc_right del: funpow.simps)
  next
    case False
    then show ?thesis using 1(2) by (cases xs) (auto simp: merkle_root_def levels_step(2))
  qed
qed

lemma CalcHash_level:
  assumes "xs \<noteq> []" and "length xs \<le> 2 ^ 31"
  shows "h < 32 \<Longrightarrow> pos < length (level h xs) \<Longrightarrow> CalcHash (word_of_nat (length xs)) h pos xs = level h xs ! pos"
proof (induction h arbitrary: pos)
  case (Suc h)
  let ?ys = "level h xs"
  have p: "pos < length (next_level ?ys)" using Suc(3) by simp
  then have l: "pos * 2 < length ?ys" by (simp add: length_next_level)
  then have "min (2 * pos + 1) (length ?ys - 1) = (if pos * 2 + 1 < length ?ys then pos * 2 + 1 else pos * 2)" by auto
  then show ?case using Suc(1) [of "pos * 2"] Suc(1) [of "pos * 2 + 1"] Suc(2) l next_level_nth [OF p] CalcTreeWidth_level [OF assms, of h]
    by (simp add: mult.commute Let_def)
qed simp

section \<open>What is built is read\<close>

text \<open>The leaves below a node.\<close>

definition node_leaves :: "nat \<Rightarrow> nat \<Rightarrow> nat \<Rightarrow> nat list" where
  "node_leaves n h pos = filter (\<lambda>p. p < n) [pos * 2 ^ h..<(pos + 1) * 2 ^ h]"

lemma node_leaves_Suc: "node_leaves n (Suc h) pos = node_leaves n h (pos * 2) @ node_leaves n h (pos * 2 + 1)"
proof -
  have "[pos * 2 ^ Suc h..<(pos + 1) * 2 ^ Suc h] = [pos * 2 * 2 ^ h..<(pos * 2 + 1) * 2 ^ h] @ [(pos * 2 + 1) * 2 ^ h..<(pos * 2 + 1 + 1) * 2 ^ h]"
    using upt_add_eq_append [of "pos * 2 * 2 ^ h" "(pos * 2 + 1) * 2 ^ h" "2 ^ h"] by (simp add: algebra_simps)
  then show ?thesis by (simp add: node_leaves_def)
qed

lemma node_leaves_0: "pos < n \<Longrightarrow> node_leaves n 0 pos = [pos]"
  by (simp add: node_leaves_def)

lemma node_leaves_empty: "xs \<noteq> [] \<Longrightarrow> length (level h xs) \<le> pos \<Longrightarrow> node_leaves (length xs) h pos = []"
proof -
  assume "xs \<noteq> []" "length (level h xs) \<le> pos"
  then have "(length xs + 2 ^ h - 1) div 2 ^ h \<le> pos" by (simp add: length_level)
  then have "length xs + 2 ^ h - 1 < (pos + 1) * 2 ^ h" by (simp add: less_mult_imp_div_less div_less_iff_less_mult flip: less_Suc_eq_le)
  then have "length xs \<le> pos * 2 ^ h" by simp
  then show ?thesis by (auto simp: node_leaves_def filter_empty_conv)
qed

lemma fParentOfMatch_leaves: "fParentOfMatch (word_of_nat n) h pos vm = list_ex (\<lambda>p. vm ! p) (node_leaves n h pos)" if "n \<le> 2 ^ 31"
  using that by (simp add: fParentOfMatch_def node_leaves_def unat_of_nat)

lemma TraverseAndBuild_append:
  "TraverseAndBuild n h pos xs vm (bits, hashes) =
     (bits @ fst (TraverseAndBuild n h pos xs vm ([], [])), hashes @ snd (TraverseAndBuild n h pos xs vm ([], [])))"
proof (induction h arbitrary: pos bits hashes)
  case (Suc h)
  define B H where "B p = fst (TraverseAndBuild n h p xs vm ([], []))" and "H p = snd (TraverseAndBuild n h p xs vm ([], []))" for p
  have "TraverseAndBuild n h p xs vm (b, hs) = (b @ B p, hs @ H p)" for p b hs using Suc [of p b hs] by (simp add: B_def H_def)
  then show ?case by (simp add: Let_def)
qed simp

abbreviation built_bits where "built_bits n h pos xs vm \<equiv> fst (TraverseAndBuild n h pos xs vm ([], []))"
abbreviation built_hashes where "built_hashes n h pos xs vm \<equiv> snd (TraverseAndBuild n h pos xs vm ([], []))"

lemma built_Suc:
  "built_bits n (Suc h) pos xs vm = fParentOfMatch n (Suc h) pos vm #
     (if fParentOfMatch n (Suc h) pos vm
      then built_bits n h (pos * 2) xs vm @ (if pos * 2 + 1 < CalcTreeWidth n h then built_bits n h (pos * 2 + 1) xs vm else []) else [])"
  "built_hashes n (Suc h) pos xs vm =
     (if fParentOfMatch n (Suc h) pos vm
      then built_hashes n h (pos * 2) xs vm @ (if pos * 2 + 1 < CalcTreeWidth n h then built_hashes n h (pos * 2 + 1) xs vm else [])
      else [CalcHash n (Suc h) pos xs])"
proof -
  define B H where "B p = built_bits n h p xs vm" and "H p = built_hashes n h p xs vm" for p
  have "TraverseAndBuild n h p xs vm (b, hs) = (b @ B p, hs @ H p)" for p b hs using TraverseAndBuild_append [of n h p xs vm b hs] by (simp add: B_def H_def)
  then show "built_bits n (Suc h) pos xs vm = fParentOfMatch n (Suc h) pos vm #
     (if fParentOfMatch n (Suc h) pos vm
      then built_bits n h (pos * 2) xs vm @ (if pos * 2 + 1 < CalcTreeWidth n h then built_bits n h (pos * 2 + 1) xs vm else []) else [])"
  "built_hashes n (Suc h) pos xs vm =
     (if fParentOfMatch n (Suc h) pos vm
      then built_hashes n h (pos * 2) xs vm @ (if pos * 2 + 1 < CalcTreeWidth n h then built_hashes n h (pos * 2 + 1) xs vm else [])
      else [CalcHash n (Suc h) pos xs])"
    by (simp_all add: Let_def)
qed

lemma use_bit_at: "vs = pre @ b # post \<Longrightarrow> nBitsUsed x = length pre \<Longrightarrow> use_bit vs x = Some (b, x\<lparr>nBitsUsed := length pre + 1\<rparr>)"
  by (simp add: use_bit_def)

lemma use_hash_at:
  "vs = pre @ b # post \<Longrightarrow> nHashUsed x = length pre \<Longrightarrow>
   use_hash vs f x = (b, x\<lparr>nHashUsed := length pre + 1, xMatch := xMatch x @ (if f then [b] else [])\<rparr>)"
  by (simp add: use_hash_def)

abbreviation picked :: "bytes list \<Rightarrow> bool list \<Rightarrow> nat list \<Rightarrow> bytes list" where
  "picked xs vm ps \<equiv> map (\<lambda>p. xs ! p) (filter (\<lambda>p. vm ! p) ps)"

lemma distinct_pairs: "distinct xs \<Longrightarrow> distinct (level_pairs xs) \<and> (\<forall>p \<in> set (level_pairs xs). fst p \<in> set xs)"
  by (induction xs rule: level_pairs.induct) auto

lemma distinct_next_level: "distinct xs \<Longrightarrow> no_collision ps \<Longrightarrow> set (level_pairs xs) \<subseteq> set ps \<Longrightarrow> distinct (next_level xs)"
  unfolding next_level_pairs distinct_map using distinct_pairs [of xs] no_collisionD [of ps] by (meson inj_onI subsetD)

lemma distinct_levels: "distinct xs \<Longrightarrow> no_collision (tree_pairs xs) \<Longrightarrow> h < length (levels xs) \<Longrightarrow> distinct (level h xs)"
proof (induction xs arbitrary: h rule: levels.induct)
  case (1 xs)
  show ?case
  proof (cases "1 < length xs \<and> h \<noteq> 0")
    case True
    then obtain k where k: "h = Suc k" by (cases h) auto
    have lv: "1 < length xs" using True by simp
    have "distinct (next_level xs)" using 1(2,3) by (rule distinct_next_level) (simp add: tree_pairs_step [OF lv])
    moreover have "no_collision (tree_pairs (next_level xs))" by (rule no_collision_subset [OF 1(3)]) (simp add: tree_pairs_step [OF lv])
    ultimately show ?thesis using 1(1) [OF lv, of k] 1(4) lv k by (simp add: levels_step(1) funpow_Suc_right del: funpow.simps)
  next
    case False
    then show ?thesis using 1(2,4) by (cases "h = 0") (simp_all add: levels_step(2))
  qed
qed

lemma extract_built:
  assumes "xs \<noteq> []" and "length xs \<le> 2 ^ 31" and "nTransactions t = word_of_nat (length xs)"
  shows "(\<And>k. k < h \<Longrightarrow> distinct (level k xs)) \<Longrightarrow> h < 32 \<Longrightarrow> pos < length (level h xs) \<Longrightarrow>
    vBits t = preb @ built_bits (word_of_nat (length xs)) h pos xs vm @ postb \<Longrightarrow>
    vHash t = preh @ built_hashes (word_of_nat (length xs)) h pos xs vm @ posth \<Longrightarrow>
    nBitsUsed x = length preb \<Longrightarrow> nHashUsed x = length preh \<Longrightarrow>
    TraverseAndExtract t h pos x = (level h xs ! pos,
      x\<lparr>nBitsUsed := length preb + length (built_bits (word_of_nat (length xs)) h pos xs vm),
        nHashUsed := length preh + length (built_hashes (word_of_nat (length xs)) h pos xs vm),
        xMatch := xMatch x @ picked xs vm (node_leaves (length xs) h pos)\<rparr>)"
proof (induction h arbitrary: pos preb postb preh posth x)
  case 0
  then show ?case
    using use_bit_at [OF 0(4) [simplified append_Cons append_Nil fst_conv TraverseAndBuild.simps], of x] assms(2)
    by (simp add: use_hash_at fParentOfMatch_leaves node_leaves_0)
next
  case (Suc h)
  let ?n = "word_of_nat (length xs) :: u32" and ?ys = "level h xs"
  let ?f = "fParentOfMatch ?n (Suc h) pos vm" and ?l = "pos * 2" and ?r = "pos * 2 + 1"
  have w: "CalcTreeWidth ?n h = length ?ys" using CalcTreeWidth_level [OF assms(1,2), of h] Suc(3) by simp
  have p: "pos < length (next_level ?ys)" using Suc(4) by simp
  then have l: "?l < length ?ys" by (simp add: length_next_level)
  have leaves: "node_leaves (length xs) (Suc h) pos = node_leaves (length xs) h ?l @ node_leaves (length xs) h ?r" by (rule node_leaves_Suc)
  have ub: "use_bit (vBits t) x = Some (?f, x\<lparr>nBitsUsed := length preb + 1\<rparr>)"
    using Suc(5,7) unfolding built_Suc by (intro use_bit_at) simp_all
  show ?case
  proof (cases ?f)
    case False
    then have "picked xs vm (node_leaves (length xs) (Suc h) pos) = []"
      using fParentOfMatch_leaves [OF assms(2)] by (auto simp: filter_empty_conv list_ex_iff)
    moreover have "CalcHash ?n (Suc h) pos xs = level (Suc h) xs ! pos" by (rule CalcHash_level [OF assms(1,2) Suc(3,4)])
    ultimately show ?thesis using False ub Suc(6,8) unfolding TraverseAndExtract.simps built_Suc by (simp add: use_hash_at)
  next
    case True
    let ?x1 = "x\<lparr>nBitsUsed := length preb + 1\<rparr>"
    let ?bl = "built_bits ?n h ?l xs vm" and ?hl = "built_hashes ?n h ?l xs vm" and ?br = "built_bits ?n h ?r xs vm" and ?hr = "built_hashes ?n h ?r xs vm"
    let ?x2 = "x\<lparr>nBitsUsed := length preb + 1 + length ?bl, nHashUsed := length preh + length ?hl, xMatch := xMatch x @ picked xs vm (node_leaves (length xs) h ?l)\<rparr>"
    have left: "TraverseAndExtract t h ?l ?x1 = (?ys ! ?l, ?x2)"
      using Suc.IH [of ?l "preb @ [True]" "(if ?r < length ?ys then ?br else []) @ postb" preh "(if ?r < length ?ys then ?hr else []) @ posth" ?x1]
        Suc.prems True l unfolding built_Suc by (auto simp: w)
    show ?thesis
    proof (cases "?r < length ?ys")
      case r: True
      have right: "TraverseAndExtract t h ?r ?x2 = (?ys ! ?r,
          ?x2\<lparr>nBitsUsed := length preb + 1 + length ?bl + length ?br, nHashUsed := length preh + length ?hl + length ?hr,
            xMatch := xMatch x @ picked xs vm (node_leaves (length xs) h ?l) @ picked xs vm (node_leaves (length xs) h ?r)\<rparr>)"
        using Suc.IH [of ?r "preb @ True # ?bl" postb "preh @ ?hl" posth ?x2] Suc.prems True r unfolding built_Suc by (auto simp: w)
      have "?ys ! ?r \<noteq> ?ys ! ?l" using Suc.prems(1) [of h] r l by (simp add: nth_eq_iff_index_eq)
      moreover have "level (Suc h) xs ! pos = merkle_hash (?ys ! ?l) (?ys ! ?r)"
        using next_level_nth [OF p] min_absorb1 [of ?r "length ?ys - 1"] r by (simp add: mult.commute)
      ultimately show ?thesis using True ub left right r unfolding TraverseAndExtract.simps built_Suc leaves by (simp add: assms(3) w)
    next
      case r: False
      have "length ?ys - 1 = ?l" "min (2 * pos + 1) (length ?ys - 1) = length ?ys - 1" using r l by linarith+
      then have "level (Suc h) xs ! pos = merkle_hash (?ys ! ?l) (?ys ! ?l)"
        using next_level_nth [OF p] by (simp add: mult.commute)
      moreover have "node_leaves (length xs) h ?r = []" using r by (intro node_leaves_empty [OF assms(1)]) simp
      ultimately show ?thesis using True ub left r unfolding TraverseAndExtract.simps built_Suc leaves by (simp add: assms(3) w)
    qed
  qed
qed

lemma node_leaves_not_Nil: "xs \<noteq> [] \<Longrightarrow> pos < length (level h xs) \<Longrightarrow> node_leaves (length xs) h pos \<noteq> []"
proof -
  assume "xs \<noteq> []" "pos < length (level h xs)"
  then have "Suc pos * 2 ^ h \<le> length xs + 2 ^ h - 1" by (simp add: length_level flip: Suc_le_eq) (simp add: less_eq_div_iff_mult_less_eq)
  then have "pos * 2 ^ h < length xs" using \<open>xs \<noteq> []\<close> by (auto simp: neq_Nil_conv)
  then show ?thesis by (auto simp: node_leaves_def filter_empty_conv intro!: bexI [of _ "pos * 2 ^ h"])
qed

lemma built_sizes:
  assumes "xs \<noteq> []" and "length xs \<le> 2 ^ 31"
  shows "h < 32 \<Longrightarrow> pos < length (level h xs) \<Longrightarrow>
    length (built_hashes (word_of_nat (length xs)) h pos xs vm) \<le> length (node_leaves (length xs) h pos) \<and>
    length (built_hashes (word_of_nat (length xs)) h pos xs vm) \<le> length (built_bits (word_of_nat (length xs)) h pos xs vm)"
proof (induction h arbitrary: pos)
  case (Suc h)
  have w: "CalcTreeWidth (word_of_nat (length xs)) h = length (level h xs)" using CalcTreeWidth_level [OF assms, of h] Suc(2) by simp
  have l: "pos * 2 < length (level h xs)" using Suc(3) by (simp add: length_next_level)
  have "1 \<le> length (node_leaves (length xs) h (pos * 2)) + length (node_leaves (length xs) h (pos * 2 + 1))"
    using node_leaves_not_Nil [OF assms(1) Suc(3)] by (simp add: node_leaves_Suc Suc_le_eq)
  then show ?case
    using Suc(1) [of "pos * 2"] Suc(1) [of "pos * 2 + 1"] Suc(2) l unfolding built_Suc by (auto simp: w node_leaves_Suc)
qed (simp add: node_leaves_0)

section \<open>What is read is in the tree\<close>

text \<open>The pairs that a traversal hashes.\<close>

fun extract_pairs :: "'a CPartialMerkleTree_scheme \<Rightarrow> nat \<Rightarrow> nat \<Rightarrow> extraction \<Rightarrow> (bytes \<times> bytes) list" where
  "extract_pairs t 0 pos x = []"
| "extract_pairs t (Suc h) pos x =
     (case use_bit (vBits t) x of
        None \<Rightarrow> []
      | Some (f, x) \<Rightarrow>
          if \<not> f then []
          else case TraverseAndExtract t h (pos * 2) x of
                 (left, x1) \<Rightarrow>
                   if pos * 2 + 1 < CalcTreeWidth (nTransactions t) h
                   then (left, fst (TraverseAndExtract t h (pos * 2 + 1) x1)) # extract_pairs t h (pos * 2) x @ extract_pairs t h (pos * 2 + 1) x1
                   else (left, left) # extract_pairs t h (pos * 2) x)"

lemma use_bit_same: "use_bit vs x = Some (f, x') \<Longrightarrow> xBad x' = xBad x \<and> xMatch x' = xMatch x"
  by (auto simp: use_bit_def split: if_splits)

lemma extract_bad: "TraverseAndExtract t h pos x = (r, x') \<Longrightarrow> xBad x \<Longrightarrow> xBad x'"
proof (induction h arbitrary: pos x r x')
  case (Suc h)
  then show ?case by (auto simp: use_hash_def Let_def dest: use_bit_same split: option.splits prod.splits if_splits)
qed (auto simp: use_hash_def Let_def dest: use_bit_same split: option.splits prod.splits if_splits)

lemma level_pair_nth: "pos < length (next_level ys) \<Longrightarrow> pos * 2 + 1 < length ys \<Longrightarrow> (ys ! (pos * 2), ys ! (pos * 2 + 1)) \<in> set (level_pairs ys)"
  "pos < length (next_level ys) \<Longrightarrow> \<not> pos * 2 + 1 < length ys \<Longrightarrow> (ys ! (pos * 2), ys ! (pos * 2)) \<in> set (level_pairs ys)"
proof -
  assume p: "pos < length (next_level ys)"
  then have l: "pos * 2 < length ys" by (simp add: length_next_level)
  { assume r: "pos * 2 + 1 < length ys"
    then have "min (2 * pos + 1) (length ys - 1) = pos * 2 + 1" by linarith
    then show "(ys ! (pos * 2), ys ! (pos * 2 + 1)) \<in> set (level_pairs ys)" using level_pairs_nth [OF p] by (simp add: mult.commute) }
  { assume r: "\<not> pos * 2 + 1 < length ys"
    then have "min (2 * pos + 1) (length ys - 1) = pos * 2" using l by linarith
    then show "(ys ! (pos * 2), ys ! (pos * 2)) \<in> set (level_pairs ys)" using level_pairs_nth [OF p] by (simp add: mult.commute) }
qed

lemma next_level_cases: "pos < length (next_level ys) \<Longrightarrow>
  next_level ys ! pos = merkle_hash (ys ! (pos * 2)) (ys ! (if pos * 2 + 1 < length ys then pos * 2 + 1 else pos * 2))"
proof -
  assume p: "pos < length (next_level ys)"
  then have l: "pos * 2 < length ys" by (simp add: length_next_level)
  then have "min (2 * pos + 1) (length ys - 1) = (if pos * 2 + 1 < length ys then pos * 2 + 1 else pos * 2)" by auto
  then show ?thesis using next_level_nth [OF p] by (simp add: mult.commute)
qed

lemma extract_sound:
  assumes "xs \<noteq> []" and "length xs \<le> 2 ^ 31" and "nTransactions t = word_of_nat (length xs)" and "no_collision ps"
  shows "(\<And>k. k < h \<Longrightarrow> set (level_pairs (level k xs)) \<subseteq> set ps) \<Longrightarrow> h < 32 \<Longrightarrow> pos < length (level h xs) \<Longrightarrow>
    set (extract_pairs t h pos x) \<subseteq> set ps \<Longrightarrow> TraverseAndExtract t h pos x = (level h xs ! pos, x') \<Longrightarrow> \<not> xBad x' \<Longrightarrow>
    \<exists>ms. xMatch x' = xMatch x @ ms \<and> subseq ms (map (\<lambda>p. xs ! p) (node_leaves (length xs) h pos))"
proof (induction h arbitrary: pos x x')
  case 0
  then show ?case by (auto simp: use_bit_def use_hash_def Let_def node_leaves_0 split: if_splits)
next
  case (Suc h)
  let ?ys = "level h xs" and ?l = "pos * 2" and ?r = "pos * 2 + 1"
  have w: "CalcTreeWidth (nTransactions t) h = length ?ys" using CalcTreeWidth_level [OF assms(1,2), of h] Suc(3) assms(3) by simp
  have p: "pos < length (next_level ?ys)" using Suc(4) by simp
  have l: "?l < length ?ys" using p by (simp add: length_next_level)
  have lp: "set (level_pairs ?ys) \<subseteq> set ps" by (rule Suc(2)) simp
  obtain f x1 where ub: "use_bit (vBits t) x = Some (f, x1)" using Suc(6,7) by (auto split: option.splits)
  note x1 = use_bit_same [OF ub]
  show ?case
  proof (cases f)
    case False
    then show ?thesis using Suc(6,7) ub x1 by (auto simp: use_hash_def Let_def split: if_splits)
  next
    case True
    obtain a x2 where left: "TraverseAndExtract t h ?l x1 = (a, x2)" by fastforce
    show ?thesis
    proof (cases "?r < length ?ys")
      case r: True
      obtain b x3 where right: "TraverseAndExtract t h ?r x2 = (b, x3)" by fastforce
      have e: "merkle_hash a b = level (Suc h) xs ! pos" "x' = (if b = a then x3\<lparr>xBad := True\<rparr> else x3)"
        using Suc(6) ub True left right r by (auto simp: w)
      have ep: "(a, b) \<in> set ps" "set (extract_pairs t h ?l x1) \<subseteq> set ps" "set (extract_pairs t h ?r x2) \<subseteq> set ps"
        using Suc(5) ub True left right r by (auto simp: w)
      have "(a, b) = (?ys ! ?l, ?ys ! ?r)"
        using e(1) next_level_cases [OF p] r level_pair_nth(1) [OF p r] lp ep(1) by (intro no_collisionD [OF assms(4)]) auto
      then have ab: "a = ?ys ! ?l" "b = ?ys ! ?r" by simp_all
      have x': "x' = x3" "\<not> xBad x3" using e(2) Suc(7) by (auto split: if_splits)
      then have "\<not> xBad x2" using extract_bad [OF right] by blast
      then obtain m1 m2 where "xMatch x2 = xMatch x1 @ m1" "subseq m1 (map (\<lambda>p. xs ! p) (node_leaves (length xs) h ?l))"
          "xMatch x3 = xMatch x2 @ m2" "subseq m2 (map (\<lambda>p. xs ! p) (node_leaves (length xs) h ?r))"
        using Suc.IH [of ?l x1 x2] Suc.IH [of ?r x2 x3] Suc.prems(1,2) l r ep left right ab x'(2) by (metis less_Suc_eq Suc_lessD)
      then show ?thesis using x1 x' by (auto simp: node_leaves_Suc intro!: list_emb_append_mono)
    next
      case r: False
      have e: "merkle_hash a a = level (Suc h) xs ! pos" "x' = x2" using Suc(6) ub True left r by (auto simp: w)
      have ep: "(a, a) \<in> set ps" "set (extract_pairs t h ?l x1) \<subseteq> set ps" using Suc(5) ub True left r by (auto simp: w)
      have "(a, a) = (?ys ! ?l, ?ys ! ?l)"
        using e(1) next_level_cases [OF p] r level_pair_nth(2) [OF p r] lp ep(1) by (intro no_collisionD [OF assms(4)]) auto
      then obtain m1 where "xMatch x2 = xMatch x1 @ m1" "subseq m1 (map (\<lambda>p. xs ! p) (node_leaves (length xs) h ?l))"
        using Suc.IH [of ?l x1 x2] Suc.prems(1,2) l ep(2) left e(2) Suc.prems(6) by (metis less_Suc_eq Suc_lessD prod.inject)
      moreover have "node_leaves (length xs) h ?r = []" using r by (intro node_leaves_empty [OF assms(1)]) simp
      ultimately show ?thesis using x1 e(2) by (auto simp: node_leaves_Suc)
    qed
  qed
qed

section \<open>Building, reading and the root\<close>

lemma tree_pairs_level: "k < length (levels xs) - 1 \<Longrightarrow> set (level_pairs (level k xs)) \<subseteq> set (tree_pairs xs)"
proof (induction xs arbitrary: k rule: levels.induct)
  case (1 xs)
  show ?case
  proof (cases "1 < length xs")
    case True
    show ?thesis
    proof (cases k)
      case (Suc j)
      then have "set (level_pairs (level j (next_level xs))) \<subseteq> set (tree_pairs (next_level xs))"
        using 1(1) [OF True, of j] 1(2) True by (simp add: levels_step(1) less_diff_conv)
      then show ?thesis unfolding tree_pairs_step [OF True] Suc funpow_Suc_right by auto
    qed (simp add: tree_pairs_step [OF True])
  next
    case False
    then show ?thesis using 1(2) by (simp add: levels_step(2))
  qed
qed

lemma top_level:
  assumes "xs \<noteq> []" and "length xs \<le> 2 ^ 31"
  defines "h \<equiv> tree_height (word_of_nat (length xs)) 0"
  shows "h = length (levels xs) - 1" "h < 32" "level h xs = [fst (BuildMerkleTree xs)]" "node_leaves (length xs) h 0 = [0..<length xs]"
proof -
  show h: "h = length (levels xs) - 1" "h < 32" using tree_height_level [OF assms(1,2), of 0] by (simp_all add: h_def)
  show l: "level h xs = [fst (BuildMerkleTree xs)]" using last_level [OF assms(1)] by (simp add: h(1) BuildMerkleTree_spec)
  have "(length xs + 2 ^ h - 1) div 2 ^ h = 1" using length_level [OF assms(1), of h] l by simp
  then have "length xs + 2 ^ h - 1 < 2 * 2 ^ h" using div_less_iff_less_mult [of "2 ^ h" "length xs + 2 ^ h - 1" 2] by simp
  then have "length xs \<le> 2 ^ h" by simp
  then have "[0..<2 ^ h] = [0..<length xs] @ [length xs..<2 ^ h]" by (metis le0 le_add_diff_inverse upt_add_eq_append)
  then show "node_leaves (length xs) h 0 = [0..<length xs]" by (simp add: node_leaves_def)
qed

lemma picked_all: "length vm = length xs \<Longrightarrow> picked xs vm [0..<length xs] = map fst (filter snd (zip xs vm))"
proof -
  assume "length vm = length xs"
  then have z: "zip xs vm = map (\<lambda>p. (xs ! p, vm ! p)) [0..<length xs]" by (intro nth_equalityI) simp_all
  show ?thesis unfolding z by (simp add: filter_map comp_def)
qed

definition extraction_pairs :: "CPartialMerkleTree \<Rightarrow> (bytes \<times> bytes) list" where
  "extraction_pairs t = extract_pairs t (tree_height (nTransactions t) 0) 0 \<lparr>nBitsUsed = 0, nHashUsed = 0, xMatch = [], xBad = fBad t\<rparr>"

text \<open>
  C38: When a partial tree that a peer sends claims as many transactions as a block has, at most \<open>2 ^ 31\<close>, and \<open>ExtractMatches\<close> gives the Merkle root of that block, which is not null,
  then the matches it gives are transaction ids of the block, in their order: a transaction that is not in the block cannot be proved to
  be, unless two of the hashed pairs collide.
\<close>

theorem partial_tree_sound:
  assumes "ExtractMatches maxtx t = (fst (BuildMerkleTree vTxid), ms, t')" and "fst (BuildMerkleTree vTxid) \<noteq> replicate 32 0"
    and "nTransactions t = word_of_nat (length vTxid)" and "length vTxid \<le> 2 ^ 31"
    and "no_collision (tree_pairs vTxid @ extraction_pairs t)"
  shows "subseq ms vTxid \<and> \<not> fBad t'"
proof -
  let ?x = "\<lparr>nBitsUsed = 0, nHashUsed = 0, xMatch = [], xBad = fBad t\<rparr>" and ?h = "tree_height (nTransactions t) 0"
  have ne: "vTxid \<noteq> []" using assms(1-3) by (auto simp: ExtractMatches_def)
  note top = top_level [OF ne assms(4)]
  obtain r x where tr: "TraverseAndExtract t ?h 0 ?x = (r, x)" by fastforce
  have x: "r = fst (BuildMerkleTree vTxid)" "\<not> xBad x" "ms = xMatch x" "t' = t\<lparr>fBad := xBad x\<rparr>"
    using assms(1,2) tr by (auto simp: ExtractMatches_def Let_def split: if_splits)
  have "\<exists>ms. xMatch x = xMatch ?x @ ms \<and> subseq ms (map (\<lambda>p. vTxid ! p) (node_leaves (length vTxid) ?h 0))"
  proof (rule extract_sound [OF ne assms(4,3,5) _ _ _ _ _ x(2)])
    show "set (level_pairs (level k vTxid)) \<subseteq> set (tree_pairs vTxid @ extraction_pairs t)" if "k < ?h" for k
      using tree_pairs_level [of k vTxid] that top(1) assms(3) by auto
  qed (use top assms(3) tr x(1) in \<open>auto simp: extraction_pairs_def\<close>)
  then show ?thesis using x top(4) assms(3) by (simp add: map_nth)
qed

theorem partial_tree_sound_witness:
  "ExtractMatches 10 \<lparr>nTransactions = 1, vBits = [True], vHash = [[1]], fBad = False\<rparr> =
     ([1], [[1]], \<lparr>nTransactions = 1, vBits = [True], vHash = [[1]], fBad = False\<rparr>) \<and> subseq [[1 :: byte]] [[1]]"
proof -
  let ?t = "\<lparr>nTransactions = 1, vBits = [True], vHash = [[1]], fBad = False\<rparr>"
  have h: "tree_height 1 0 = 0" by (subst tree_height.simps) (simp add: CalcTreeWidth_def)
  have e: "ExtractMatches 10 ?t = (fst (BuildMerkleTree [[1]]), [[1]], ?t)" by (simp add: ExtractMatches_def h use_bit_def use_hash_def one_leaf Let_def)
  have "extraction_pairs ?t = []" by (simp add: extraction_pairs_def h)
  then show ?thesis using partial_tree_sound [OF e] e by (simp add: one_leaf no_collision_def)
qed

lemma four_leaves: "fst (BuildMerkleTree [a, b, c, d]) = merkle_hash (merkle_hash a b) (merkle_hash c d)"
proof -
  have "levels [a, b, c, d] = [[a, b, c, d], [merkle_hash a b, merkle_hash c d], [merkle_hash (merkle_hash a b) (merkle_hash c d)]]"
    by (subst levels.simps, subst levels.simps, subst levels.simps) simp
  then show ?thesis by (auto simp: BuildMerkleTree_spec merkle_root_def)
qed

text \<open>
  The number of transactions that a partial tree claims has to be that of the block. For every block of four transactions whose two inner nodes
  differ, the tree that claims two transactions and gives the inner nodes as their ids passes \<open>ExtractMatches\<close> with the root of
  the block, and the match it gives is an inner node instead of a transaction id.
\<close>

lemma partial_tree_wrong_count:
  fixes a b c d :: bytes
  defines "t \<equiv> \<lparr>nTransactions = 2, vBits = [True, True, False], vHash = [merkle_hash a b, merkle_hash c d], fBad = False\<rparr>"
  shows "merkle_hash a b = merkle_hash c d \<or>
    ExtractMatches (n + 2) t = (fst (BuildMerkleTree [a, b, c, d]), [merkle_hash a b], t)"
proof -
  have w: "CalcTreeWidth 2 0 = 2" "CalcTreeWidth 2 (Suc 0) = 1" by (simp_all add: CalcTreeWidth_def)
  have h: "tree_height 2 0 = Suc 0" by (subst tree_height.simps, subst tree_height.simps) (simp add: w)
  show ?thesis by (auto simp: t_def ExtractMatches_def h use_bit_def use_hash_def four_leaves Let_def w)
qed

section \<open>Partial trees on the wire\<close>

text \<open>The bits are packed eight to a byte, the least significant first; what is read is padded with zero bits.\<close>

definition pack_bits :: "bool list \<Rightarrow> bytes" where
  "pack_bits bits = fold (\<lambda>p vBytes. vBytes[p div 8 := vBytes ! (p div 8) OR push_bit (p mod 8) (of_bool (bits ! p))])
     [0..<length bits] (replicate ((length bits + 7) div 8) 0)"

definition unpack_bits :: "bytes \<Rightarrow> bool list" where
  "unpack_bits vBytes = map (\<lambda>p. vBytes ! (p div 8) AND push_bit (p mod 8) 1 \<noteq> 0) [0..<length vBytes * 8]"

definition CPartialMerkleTree_Serialize :: "CPartialMerkleTree \<Rightarrow> bytes" where
  "CPartialMerkleTree_Serialize t = ser_writedata32 (nTransactions t) @ Serialize_vec (\<lambda>v. v) (vHash t) @ Serialize_bytes (pack_bits (vBits t))"

definition CPartialMerkleTree_Unserialize :: "CPartialMerkleTree reader" where
  "CPartialMerkleTree_Unserialize r = do {
     (n, r) \<leftarrow> ser_readdata32 r;
     (hashes, r) \<leftarrow> Unserialize_vec (vec_step 32) (ser_read 32) r;
     (vBytes, r) \<leftarrow> Unserialize_bytes r;
     Some (\<lparr>nTransactions = n, vBits = unpack_bits vBytes, vHash = hashes, fBad = False\<rparr>, r)
   }"

record CMerkleBlock =
  mb_header :: CBlockHeader
  txn :: CPartialMerkleTree
  vMatchedTxn :: "(nat \<times> bytes) list"

definition CMerkleBlock_txids :: "CBlock \<Rightarrow> bytes set \<Rightarrow> CMerkleBlock" where
  "CMerkleBlock_txids block txids =
     (let vHashes = map txid (vtx block); vMatch = map (\<lambda>hash. hash \<in> txids) vHashes
      in \<lparr>mb_header = GetBlockHeader block, txn = CPartialMerkleTree_build vHashes vMatch, vMatchedTxn = []\<rparr>)"

definition CMerkleBlock_Serialize :: "CMerkleBlock \<Rightarrow> bytes" where
  "CMerkleBlock_Serialize m = CBlockHeader_Serialize (mb_header m) @ CPartialMerkleTree_Serialize (txn m)"

definition CMerkleBlock_Unserialize :: "CMerkleBlock reader" where
  "CMerkleBlock_Unserialize r = do {
     (h, r) \<leftarrow> CBlockHeader_Unserialize r;
     (t, r) \<leftarrow> CPartialMerkleTree_Unserialize r;
     Some (\<lparr>mb_header = h, txn = t, vMatchedTxn = []\<rparr>, r)
   }"

lemma length_unpack [simp]: "length (unpack_bits v) = length v * 8"
  by (simp add: unpack_bits_def)

lemma unpack_nth: "p < length v * 8 \<Longrightarrow> unpack_bits v ! p = bit (v ! (p div 8)) (p mod 8)"
  by (simp add: unpack_bits_def and_exp_eq_0_iff_not_bit push_bit_eq_mult flip: push_bit_eq_mult)

lemma pack_fold:
  fixes bits :: "bool list"
  assumes "n \<le> length bits" and "length v * 8 \<ge> length bits"
  defines "r \<equiv> fold (\<lambda>p vBytes. vBytes[p div 8 := vBytes ! (p div 8) OR push_bit (p mod 8) (of_bool (bits ! p))]) [0..<n] (v :: bytes)"
  shows "length r = length v \<and> (\<forall>i < length v. \<forall>k < 8. bit (r ! i) k \<longleftrightarrow> bit (v ! i) k \<or> i * 8 + k < n \<and> bits ! (i * 8 + k))"
  using assms(1) unfolding r_def
proof (induction n)
  case (Suc n)
  let ?r = "fold (\<lambda>p vBytes. vBytes[p div 8 := vBytes ! (p div 8) OR push_bit (p mod 8) (of_bool (bits ! p))]) [0..<n] v"
  have n: "n div 8 < length v" using Suc(2) assms(2) by simp
  have "bit (push_bit (n mod 8) (of_bool (bits ! n)) :: byte) k \<longleftrightarrow> k = n mod 8 \<and> bits ! n" if "k < 8" for k
    using that by (auto simp: bit_push_bit_iff bit_of_bool_iff)
  moreover have "i * 8 + k = n \<longleftrightarrow> i = n div 8 \<and> k = n mod 8" if "k < 8" for i k using that by auto
  ultimately show ?case using Suc n by (auto simp: nth_list_update bit_or_iff less_Suc_eq)
qed simp

lemma length_pack [simp]: "length (pack_bits bits) = (length bits + 7) div 8"
  using pack_fold [of "length bits" bits "replicate ((length bits + 7) div 8) 0"] by (simp add: pack_bits_def)

lemma pack_nth:
  "i < (length bits + 7) div 8 \<Longrightarrow> k < 8 \<Longrightarrow> bit (pack_bits bits ! i) k \<longleftrightarrow> i * 8 + k < length bits \<and> bits ! (i * 8 + k)"
  using pack_fold [of "length bits" bits "replicate ((length bits + 7) div 8) 0"] by (simp add: pack_bits_def)

lemma unpack_pack: "unpack_bits (pack_bits bits) = bits @ replicate ((length bits + 7) div 8 * 8 - length bits) False"
proof (rule nth_equalityI)
  fix p assume "p < length (unpack_bits (pack_bits bits))"
  then show "unpack_bits (pack_bits bits) ! p = (bits @ replicate ((length bits + 7) div 8 * 8 - length bits) False) ! p"
    using pack_nth [of "p div 8" bits "p mod 8"] by (auto simp: unpack_nth nth_append)
qed simp

lemma pack_unpack: "pack_bits (unpack_bits v) = v"
proof (rule nth_equalityI)
  fix i assume i: "i < length (pack_bits (unpack_bits v))"
  show "pack_bits (unpack_bits v) ! i = v ! i"
  proof (rule bit_word_eqI)
    fix k assume k: "k < LENGTH(8)"
    then show "bit (pack_bits (unpack_bits v) ! i) k = bit (v ! i) k"
      using pack_nth [of i "unpack_bits v" k] unpack_nth [of "i * 8 + k" v] i by simp
  qed
qed simp

definition wf_partial :: "CPartialMerkleTree \<Rightarrow> bool" where
  "wf_partial t \<longleftrightarrow> length (vHash t) \<le> MAX_SIZE \<and> list_all (\<lambda>v. length v = 32) (vHash t) \<and> length (vBits t) mod 8 = 0 \<and>
     length (vBits t) div 8 \<le> MAX_SIZE \<and> \<not> fBad t"

interpretation partial_tree: codec wf_partial CPartialMerkleTree_Serialize CPartialMerkleTree_Unserialize
proof
  fix x t rest
  show "CPartialMerkleTree_Unserialize (CPartialMerkleTree_Serialize x @ rest) = Some (x, rest)" if "wf_partial x"
  proof -
    have "length (vBits x) mod 8 = 0" using that by (simp add: wf_partial_def)
    then have "(length (vBits x) + 7) div 8 = length (vBits x) div 8" "length (vBits x) div 8 * 8 = length (vBits x)" by presburger+
    then show ?thesis using that by (simp add: CPartialMerkleTree_Unserialize_def CPartialMerkleTree_Serialize_def wf_partial_def le32.rd_wr
        hashes.rd_wr vbytes.rd_wr unpack_pack)
  qed
  show "wf_partial x \<and> t = CPartialMerkleTree_Serialize x @ rest" if "CPartialMerkleTree_Unserialize t = Some (x, rest)"
    using that unfolding CPartialMerkleTree_Unserialize_def
    by (elim bind_pairE) (auto simp: CPartialMerkleTree_Serialize_def wf_partial_def pack_unpack dest!: le32.wr_rd hashes.wr_rd vbytes.wr_rd)
qed

lemma levels_tall: "k < length (levels xs) - 1 \<Longrightarrow> 1 < length (level k xs)"
proof (induction xs arbitrary: k rule: levels.induct)
  case (1 xs)
  show ?case
  proof (cases "1 < length xs")
    case True
    show ?thesis
    proof (cases k)
      case (Suc j)
      then show ?thesis using 1(1) [OF True, of j] 1(2) True unfolding Suc funpow_Suc_right by (simp add: levels_step(1) less_diff_conv)
    qed (use True in simp)
  next
    case False
    then show ?thesis using 1(2) by (simp add: levels_step(2))
  qed
qed

lemma height_le: "xs \<noteq> [] \<Longrightarrow> length xs \<le> 2 ^ k \<Longrightarrow> length (levels xs) - 1 \<le> k"
proof (rule ccontr)
  assume "xs \<noteq> []" "length xs \<le> 2 ^ k" "\<not> length (levels xs) - 1 \<le> k"
  then have "2 \<le> (length xs + 2 ^ k - 1) div 2 ^ k" using levels_tall [of k xs] by (simp add: length_level)
  then have "2 * 2 ^ k \<le> length xs + 2 ^ k - 1" by (simp add: less_eq_div_iff_mult_less_eq)
  then show False using \<open>length xs \<le> 2 ^ k\<close> \<open>xs \<noteq> []\<close> by (cases xs) auto
qed

lemma built_bits_le: "length (built_bits n h pos xs vm) < 2 ^ Suc h"
proof (induction h arbitrary: pos)
  case (Suc h)
  have "1 \<le> (2 :: nat) ^ h" by simp
  then show ?case using Suc [of "pos * 2"] Suc [of "pos * 2 + 1"] unfolding built_Suc power_Suc by (auto simp del: one_le_power)
qed simp

lemma built_hashes_wf: "list_all (\<lambda>v. length v = 32) xs \<Longrightarrow> xs \<noteq> [] \<Longrightarrow> length xs \<le> 2 ^ 31 \<Longrightarrow> h < 32 \<Longrightarrow> pos < length (level h xs) \<Longrightarrow>
  list_all (\<lambda>v. length v = 32) (built_hashes (word_of_nat (length xs)) h pos xs vm)"
proof (induction h arbitrary: pos)
  case (Suc h)
  have w: "CalcTreeWidth (word_of_nat (length xs)) h = length (level h xs)" using CalcTreeWidth_level [of xs h] Suc by simp
  have l: "pos * 2 < length (level h xs)" using Suc(6) by (simp add: length_next_level)
  then show ?case using Suc(1) [of "pos * 2"] Suc(1) [of "pos * 2 + 1"] Suc(2-5) unfolding built_Suc
    by (auto simp: w Let_def merkle_hash_spec)
qed (simp add: list_all_length)

lemma padded:
  fixes n :: nat
  shows "((n + 7) div 8 * 8 + 7) div 8 = (n + 7) div 8" "n \<le> (n + 7) div 8 * 8"
  by linarith+

text \<open>The tree of a choice among the ids of a block, written and read, gives the root and the chosen ids.\<close>

lemma partial_tree_read:
  assumes "xs \<noteq> []" and "distinct xs" and "no_collision (tree_pairs xs)" and "length vm = length xs"
    and "length xs \<le> maxtx" and "length xs \<le> 2 ^ 31"
  defines "t \<equiv> CPartialMerkleTree_build xs vm"
  shows "ExtractMatches maxtx (t\<lparr>vBits := unpack_bits (pack_bits (vBits t))\<rparr>) =
    (fst (BuildMerkleTree xs), map fst (filter snd (zip xs vm)), t\<lparr>vBits := unpack_bits (pack_bits (vBits t))\<rparr>)"
proof -
  let ?n = "word_of_nat (length xs) :: u32"
  let ?h = "tree_height ?n 0" and ?t = "t\<lparr>vBits := unpack_bits (pack_bits (vBits t))\<rparr>"
  note top = top_level [OF assms(1,6)]
  have t: "t = \<lparr>nTransactions = ?n, vBits = built_bits ?n ?h 0 xs vm, vHash = built_hashes ?n ?h 0 xs vm, fBad = False\<rparr>"
    by (simp add: t_def CPartialMerkleTree_build_def Let_def split: prod.split)
  have n: "unat ?n = length xs" using assms(6) by (simp add: unat_of_nat)
  then have n0: "?n \<noteq> 0" using assms(1) by (metis length_0_conv unat_0)
  have "distinct (level k xs)" if "k < ?h" for k using distinct_levels [OF assms(2,3)] that top(1) by simp
  then have "TraverseAndExtract ?t ?h 0 \<lparr>nBitsUsed = 0, nHashUsed = 0, xMatch = [], xBad = fBad ?t\<rparr> =
      (fst (BuildMerkleTree xs), \<lparr>nBitsUsed = length (vBits t), nHashUsed = length (vHash t), xMatch = map fst (filter snd (zip xs vm)), xBad = False\<rparr>)"
    using extract_built [OF assms(1,6), of ?t ?h 0 "[]" vm "replicate ((length (vBits t) + 7) div 8 * 8 - length (vBits t)) False" "[]" "[]"] top
      picked_all [OF assms(4)] by (simp add: t unpack_pack)
  moreover have "length (vHash t) \<le> length xs" "length (vHash t) \<le> length (vBits t)"
    using built_sizes [OF assms(1,6), of ?h 0 vm] top by (simp_all add: t)
  moreover have "length (vHash t) \<le> length (vBits ?t)" using calculation(3) padded(2) [of "length (vBits t)"] by simp
  ultimately show ?thesis using n n0 assms(5) padded(1) [of "length (vBits t)"] unfolding ExtractMatches_def
    by (simp add: t Let_def)
qed

lemma partial_tree_written:
  fixes vm :: "bool list"
  assumes "xs \<noteq> []" and "length xs \<le> MAX_SIZE" and "list_all (\<lambda>v. length v = 32) xs"
  defines "t \<equiv> CPartialMerkleTree_build xs vm"
  shows "CPartialMerkleTree_Unserialize (CPartialMerkleTree_Serialize t @ rest) = Some (t\<lparr>vBits := unpack_bits (pack_bits (vBits t))\<rparr>, rest)"
proof -
  let ?n = "word_of_nat (length xs) :: u32"
  let ?h = "tree_height ?n 0"
  have l31: "length xs \<le> 2 ^ 31" and l25: "length xs \<le> 2 ^ 25" using assms(2) by (simp_all add: MAX_SIZE_def)
  note top = top_level [OF assms(1) l31]
  have t: "t = \<lparr>nTransactions = ?n, vBits = built_bits ?n ?h 0 xs vm, vHash = built_hashes ?n ?h 0 xs vm, fBad = False\<rparr>"
    by (simp add: t_def CPartialMerkleTree_build_def Let_def split: prod.split)
  have "(2 :: nat) ^ Suc ?h \<le> 2 ^ 26" using height_le [OF assms(1) l25] top(1) by (intro power_increasing) auto
  then have b: "length (pack_bits (vBits t)) \<le> MAX_SIZE" using built_bits_le [of ?n ?h 0 xs vm] by (simp add: t MAX_SIZE_def)
  have h: "length (vHash t) \<le> MAX_SIZE" "list_all (\<lambda>v. length v = 32) (vHash t)"
    using built_sizes [OF assms(1) l31, of ?h 0 vm] built_hashes_wf [OF assms(3,1) l31, of ?h 0 vm] top assms(2) by (simp_all add: t)
  have "\<not> fBad t" by (simp add: t)
  then show ?thesis using b h by (simp add: CPartialMerkleTree_Unserialize_def CPartialMerkleTree_Serialize_def le32.rd_wr hashes.rd_wr vbytes.rd_wr)
qed

text \<open>
  C39: The Merkle block of a block and a set of transaction ids, sent to a peer: the peer reads the header of the block, and
  \<open>ExtractMatches\<close> gives it the Merkle root of the block and exactly the ids of the set that are in the block, in the order of the block.
\<close>

theorem merkle_block_roundtrip:
  assumes "wf_header b" and "vtx b \<noteq> []" and "distinct (map txid (vtx b))" and "list_all (\<lambda>tx. length (txid tx) = 32) (vtx b)"
    and "length (vtx b) \<le> maxtx" and "length (vtx b) \<le> MAX_SIZE" and "no_collision (tree_pairs (map txid (vtx b)))"
  shows "\<exists>t. CMerkleBlock_Unserialize (CMerkleBlock_Serialize (CMerkleBlock_txids b ids) @ rest) =
      Some (\<lparr>mb_header = GetBlockHeader b, txn = t, vMatchedTxn = []\<rparr>, rest) \<and>
    ExtractMatches maxtx t = (fst (fst (block_BuildMerkleTree b)), filter (\<lambda>h. h \<in> ids) (map txid (vtx b)), t)"
proof -
  let ?xs = "map txid (vtx b)"
  let ?vm = "map (\<lambda>hash. hash \<in> ids) ?xs"
  let ?t = "CPartialMerkleTree_build ?xs ?vm"
  have "length ?xs \<le> 2 ^ 31" using assms(6) by (simp add: MAX_SIZE_def)
  then have "ExtractMatches maxtx (?t\<lparr>vBits := unpack_bits (pack_bits (vBits ?t))\<rparr>) =
      (fst (BuildMerkleTree ?xs), map fst (filter snd (zip ?xs ?vm)), ?t\<lparr>vBits := unpack_bits (pack_bits (vBits ?t))\<rparr>)"
    using assms by (intro partial_tree_read) simp_all
  moreover have "map fst (filter snd (zip xs (map (\<lambda>hash. hash \<in> ids) xs))) = filter (\<lambda>h. h \<in> ids) xs" for xs by (induction xs) auto
  moreover have "CPartialMerkleTree_Unserialize (CPartialMerkleTree_Serialize ?t @ rest) = Some (?t\<lparr>vBits := unpack_bits (pack_bits (vBits ?t))\<rparr>, rest)"
    using assms by (intro partial_tree_written) (simp_all add: list_all_iff)
  moreover have "fst (fst (block_BuildMerkleTree b)) = fst (BuildMerkleTree ?xs)" by (simp add: block_BuildMerkleTree_def split: prod.split)
  moreover have "wf_header (GetBlockHeader b)" using assms(1) by simp
  ultimately show ?thesis
    by (simp add: CMerkleBlock_Unserialize_def CMerkleBlock_Serialize_def CMerkleBlock_txids_def Let_def header.rd_wr del: header_of_block map_map)
qed

theorem merkle_block_roundtrip_witness:
  "\<exists>t. CMerkleBlock_Unserialize (CMerkleBlock_Serialize
       (CMerkleBlock_txids (CBlock_SetNull\<lparr>vtx := [CTransaction_init\<lparr>txid := replicate 32 1\<rparr>]\<rparr>) {replicate 32 1}) @ [7]) =
      Some (\<lparr>mb_header = CBlockHeader_SetNull, txn = t, vMatchedTxn = []\<rparr>, [7]) \<and>
    ExtractMatches 10 t = (replicate 32 1, [replicate 32 1], t)"
  using merkle_block_roundtrip [of "CBlock_SetNull\<lparr>vtx := [CTransaction_init\<lparr>txid := replicate 32 1\<rparr>]\<rparr>" 10 "{replicate 32 1}" "[7]"]
  by (simp add: CBlock_SetNull_def CBlock_of_header_def CBlockHeader_SetNull_def CBlockHeader.defs GetBlockHeader_def wf_header_def is_int32_def
      block_BuildMerkleTree_def one_leaf no_collision_def MAX_SIZE_def)

end
