(* ===== verification/Coins.thy ===== *)
theory Coins
  imports TransactionCodec
begin

text \<open>
  The unspent outputs of a transaction, after class \<^verbatim>\<open>CCoins\<close> of \<^verbatim>\<open>src/src/coins.h\<close> and \<^verbatim>\<open>src/src/coins.cpp\<close>.
\<close>

section \<open>Coins\<close>

record CCoins =
  fCoinBase :: bool
  coins_vout :: "CTxOut list"
  coins_nHeight :: int
  coins_nVersion :: int

definition CCoins_Clear :: CCoins where
  "CCoins_Clear = \<lparr>fCoinBase = False, coins_vout = [], coins_nHeight = 0, coins_nVersion = 0\<rparr>"

text \<open>\<^verbatim>\<open>Cleanup\<close>: the spent outputs at the end are popped.\<close>

definition drop_null :: "CTxOut list \<Rightarrow> CTxOut list" where
  "drop_null outs = rev (dropWhile CTxOut_IsNull (rev outs))"

definition Cleanup :: "CCoins \<Rightarrow> CCoins" where
  "Cleanup c = c\<lparr>coins_vout := drop_null (coins_vout c)\<rparr>"

definition ClearUnspendable :: "CCoins \<Rightarrow> CCoins" where
  "ClearUnspendable c = Cleanup (c\<lparr>coins_vout := map (\<lambda>out. if IsUnspendable (txout_script out) then CTxOut_SetNull else out) (coins_vout c)\<rparr>)"

definition FromTx :: "'a CMutableTransaction_scheme \<Rightarrow> int \<Rightarrow> CCoins" where
  "FromTx tx nHeightIn = ClearUnspendable \<lparr>fCoinBase = IsCoinBase tx, coins_vout = vout tx, coins_nHeight = nHeightIn, coins_nVersion = nVersion tx\<rparr>"

definition IsPruned :: "CCoins \<Rightarrow> bool" where
  "IsPruned c = list_all CTxOut_IsNull (coins_vout c)"

definition IsAvailable :: "CCoins \<Rightarrow> nat \<Rightarrow> bool" where
  "IsAvailable c nPos \<longleftrightarrow> nPos < length (coins_vout c) \<and> \<not> CTxOut_IsNull (coins_vout c ! nPos)"

definition Spend :: "nat \<Rightarrow> CCoins \<Rightarrow> bool \<times> CCoins" where
  "Spend nPos c =
     (if length (coins_vout c) \<le> nPos \<or> CTxOut_IsNull (coins_vout c ! nPos) then (False, c)
      else (True, Cleanup (c\<lparr>coins_vout := (coins_vout c)[nPos := CTxOut_SetNull]\<rparr>)))"

definition CCoins_eq :: "CCoins \<Rightarrow> CCoins \<Rightarrow> bool" where
  "CCoins_eq a b \<longleftrightarrow> (IsPruned a \<and> IsPruned b) \<or>
     (fCoinBase a = fCoinBase b \<and> coins_nHeight a = coins_nHeight b \<and> coins_nVersion a = coins_nVersion b \<and> coins_vout a = coins_vout b)"

definition TotalTxValue :: "CCoins \<Rightarrow> int" where
  "TotalTxValue c = foldl (\<lambda>total out. to_int64 (total + nValue out)) 0 (coins_vout c)"

section \<open>Clean coins\<close>

text \<open>Coins without spent outputs at the end. They are pruned exactly when they are empty, which is what \<open>HaveCoins\<close> tests.\<close>

definition clean :: "CCoins \<Rightarrow> bool" where
  "clean c \<longleftrightarrow> (coins_vout c = [] \<or> \<not> CTxOut_IsNull (last (coins_vout c)))"

lemma drop_null_simps [simp]: "drop_null [] = []"
  "drop_null (xs @ [x]) = (if CTxOut_IsNull x then drop_null xs else xs @ [x])"
  by (simp_all add: drop_null_def)

lemma null_SetNull [simp]: "CTxOut_IsNull CTxOut_SetNull"
  by (simp add: CTxOut_IsNull_def CTxOut_SetNull_def)

lemma drop_null_clean: "drop_null xs = [] \<or> \<not> CTxOut_IsNull (last (drop_null xs))"
  by (induction xs rule: rev_induct) auto

lemma drop_null_same: "xs = [] \<or> \<not> CTxOut_IsNull (last xs) \<Longrightarrow> drop_null xs = xs"
  by (cases xs rule: rev_cases) auto

lemma drop_null_Nil: "drop_null xs = [] \<longleftrightarrow> list_all CTxOut_IsNull xs"
  by (induction xs rule: rev_induct) auto

lemma clean_Cleanup [simp]: "clean (Cleanup c)" "clean (ClearUnspendable c)" "clean (FromTx tx h)" "clean CCoins_Clear"
  by (simp_all add: clean_def Cleanup_def ClearUnspendable_def FromTx_def drop_null_clean CCoins_Clear_def)

lemma Cleanup_clean [simp]: "clean c \<Longrightarrow> Cleanup c = c"
  by (simp add: clean_def Cleanup_def drop_null_same)

lemma clean_pruned: "clean c \<Longrightarrow> IsPruned c \<longleftrightarrow> coins_vout c = []"
  by (cases "coins_vout c" rule: rev_cases) (auto simp: clean_def IsPruned_def)

lemma drop_null_all: "list_all CTxOut_IsNull (drop_null xs) = list_all CTxOut_IsNull xs"
  by (induction xs rule: rev_induct) auto

lemma pruned_Clear [simp]: "IsPruned CCoins_Clear" "IsPruned (Cleanup c) = IsPruned c"
  by (simp_all add: IsPruned_def CCoins_Clear_def Cleanup_def drop_null_all)

end
