(* ===== verification/CoinsCache.thy ===== *)
theory CoinsCache
  imports Coins "HOL-Library.AList"
begin

text \<open>
  The views of the coins: the database, after \<^verbatim>\<open>src/src/txdb.cpp\<close>, and the caches in front of it, after
  \<^verbatim>\<open>src/src/coins.h\<close> and \<^verbatim>\<open>src/src/coins.cpp\<close>. A view is a value that holds its base, so a cache over a cache over the database is
  \<open>Cache c (Cache c' (DB d))\<close>; looking something up returns the view with what was brought into its caches. The hash
  maps are association lists, whose order stands for the unspecified order of iteration. The three kinds of anchors and the two of
  nullifiers and of proofs are functions of the enumeration. The commitment trees are a type variable with their roots as a parameter.
  A \<^verbatim>\<open>CCoinsModifier\<close> lives for one operation, so \<^verbatim>\<open>hasModifier\<close> is false between them; memory accounting is left out.
\<close>

section \<open>Views\<close>

datatype ShieldedType = SPROUT | SAPLING | SAPLINGFRONTIER

datatype ProofType = OUTPUT | SPEND

record 't trees =
  tree_root :: "'t \<Rightarrow> bytes"
  empty_tree :: "ShieldedType \<Rightarrow> 't"

record coins_entry =
  coins :: CCoins
  is_dirty :: bool
  is_fresh :: bool

record 't anchor_entry =
  a_entered :: bool
  a_tree :: 't
  a_dirty :: bool

record nullifier_entry =
  n_entered :: bool
  n_dirty :: bool

type_synonym proof_ids = "(bytes \<times> nat) set"

record proof_entry =
  p_txids :: proof_ids
  p_dirty :: bool

record 't cache =
  hashBlock :: bytes
  cacheCoins :: "(bytes \<times> coins_entry) list"
  hashAnchor :: "ShieldedType \<Rightarrow> bytes"
  cacheAnchors :: "ShieldedType \<Rightarrow> (bytes \<times> 't anchor_entry) list"
  cacheNullifiers :: "ShieldedType \<Rightarrow> (bytes \<times> nullifier_entry) list"
  cacheProofs :: "ProofType \<Rightarrow> (bytes \<times> proof_entry) list"

record 't coins_db =
  db_coins :: "(bytes \<times> CCoins) list"
  db_anchors :: "ShieldedType \<Rightarrow> (bytes \<times> 't) list"
  db_nullifiers :: "ShieldedType \<Rightarrow> (bytes \<times> bool) list"
  db_proofs :: "ProofType \<Rightarrow> (bytes \<times> proof_ids) list"
  db_best_block :: "bytes option"
  db_best_anchor :: "ShieldedType \<Rightarrow> bytes option"

datatype 't view = DB "'t coins_db" | Cache "'t cache" "'t view"

abbreviation null_hash :: bytes where "null_hash \<equiv> replicate 32 0"

definition CCoinsViewCache_init :: "'t cache" where
  "CCoinsViewCache_init = \<lparr>hashBlock = null_hash, cacheCoins = [], hashAnchor = (\<lambda>_. null_hash), cacheAnchors = (\<lambda>_. []),
     cacheNullifiers = (\<lambda>_. []), cacheProofs = (\<lambda>_. [])\<rparr>"

definition empty_root :: "'t trees \<Rightarrow> ShieldedType \<Rightarrow> bytes" where
  "empty_root T type = tree_root T (empty_tree T type)"

section \<open>Looking up\<close>

text \<open>\<open>FetchCoins\<close>: what the base has is brought into the cache, as fresh when it is pruned.\<close>

definition cache_coins :: "bytes \<Rightarrow> CCoins \<Rightarrow> 't cache \<Rightarrow> 't cache" where
  "cache_coins i tmp c = c\<lparr>cacheCoins := AList.update i \<lparr>coins = tmp, is_dirty = False, is_fresh = IsPruned tmp\<rparr> (cacheCoins c)\<rparr>"

fun GetCoins :: "bytes \<Rightarrow> 't view \<Rightarrow> CCoins option \<times> 't view" where
  "GetCoins i (DB d) = (map_of (db_coins d) i, DB d)"
| "GetCoins i (Cache c b) =
     (case map_of (cacheCoins c) i of
        Some e \<Rightarrow> (Some (coins e), Cache c b)
      | None \<Rightarrow>
          (case GetCoins i b of
             (None, b') \<Rightarrow> (None, Cache c b')
           | (Some tmp, b') \<Rightarrow> (Some tmp, Cache (cache_coins i tmp c) b')))"

definition AccessCoins :: "bytes \<Rightarrow> 't view \<Rightarrow> CCoins option \<times> 't view" where
  "AccessCoins i v = GetCoins i v"

fun HaveCoins :: "bytes \<Rightarrow> 't view \<Rightarrow> bool \<times> 't view" where
  "HaveCoins i (DB d) = (map_of (db_coins d) i \<noteq> None, DB d)"
| "HaveCoins i (Cache c b) =
     (case GetCoins i (Cache c b) of (r, v) \<Rightarrow> (case r of None \<Rightarrow> False | Some cs \<Rightarrow> coins_vout cs \<noteq> [], v))"

fun GetAnchorAt :: "'t trees \<Rightarrow> ShieldedType \<Rightarrow> bytes \<Rightarrow> 't view \<Rightarrow> 't option \<times> 't view" where
  "GetAnchorAt T type rt (DB d) = (if rt = empty_root T type then Some (empty_tree T type) else map_of (db_anchors d type) rt, DB d)"
| "GetAnchorAt T type rt (Cache c b) =
     (case map_of (cacheAnchors c type) rt of
        Some e \<Rightarrow> (if a_entered e then Some (a_tree e) else None, Cache c b)
      | None \<Rightarrow>
          (case GetAnchorAt T type rt b of
             (None, b') \<Rightarrow> (None, Cache c b')
           | (Some tree, b') \<Rightarrow>
               (Some tree, Cache (c\<lparr>cacheAnchors := (cacheAnchors c)(type :=
                  AList.update rt \<lparr>a_entered = True, a_tree = tree, a_dirty = False\<rparr> (cacheAnchors c type))\<rparr>) b')))"

text \<open>There are no nullifiers of the third kind: then the function throws.\<close>

fun nullifier_lookup :: "ShieldedType \<Rightarrow> bytes \<Rightarrow> 't view \<Rightarrow> bool \<times> 't view" where
  "nullifier_lookup type nf (DB d) = (map_of (db_nullifiers d type) nf \<noteq> None, DB d)"
| "nullifier_lookup type nf (Cache c b) =
     (case map_of (cacheNullifiers c type) nf of
        Some e \<Rightarrow> (n_entered e, Cache c b)
      | None \<Rightarrow>
          (case nullifier_lookup type nf b of
             (tmp, b') \<Rightarrow> (tmp, Cache (c\<lparr>cacheNullifiers := (cacheNullifiers c)(type :=
                AList.update nf \<lparr>n_entered = tmp, n_dirty = False\<rparr> (cacheNullifiers c type))\<rparr>) b')))"

definition GetNullifier :: "bytes \<Rightarrow> ShieldedType \<Rightarrow> 't view \<Rightarrow> (bool \<times> 't view) option" where
  "GetNullifier nf type v = (if type = SAPLINGFRONTIER then None else Some (nullifier_lookup type nf v))"

text \<open>The ids that used a proof. The function returns whether there are any; the database leaves the set empty when there is no record.\<close>

fun GetZkProofHash :: "bytes \<Rightarrow> ProofType \<Rightarrow> 't view \<Rightarrow> proof_ids \<times> 't view" where
  "GetZkProofHash h type (DB d) = (case map_of (db_proofs d type) h of Some ids \<Rightarrow> ids | None \<Rightarrow> {}, DB d)"
| "GetZkProofHash h type (Cache c b) =
     (case map_of (cacheProofs c type) h of
        Some e \<Rightarrow> (p_txids e, Cache c b)
      | None \<Rightarrow>
          (case GetZkProofHash h type b of
             (ids, b') \<Rightarrow> (ids, Cache (c\<lparr>cacheProofs := (cacheProofs c)(type :=
                AList.update h \<lparr>p_txids = ids, p_dirty = False\<rparr> (cacheProofs c type))\<rparr>) b')))"

fun GetBestBlock :: "'t view \<Rightarrow> bytes \<times> 't view" where
  "GetBestBlock (DB d) = (case db_best_block d of Some h \<Rightarrow> h | None \<Rightarrow> null_hash, DB d)"
| "GetBestBlock (Cache c b) =
     (if hashBlock c = null_hash then case GetBestBlock b of (h, b') \<Rightarrow> (h, Cache (c\<lparr>hashBlock := h\<rparr>) b')
      else (hashBlock c, Cache c b))"

fun GetBestAnchor :: "'t trees \<Rightarrow> ShieldedType \<Rightarrow> 't view \<Rightarrow> bytes \<times> 't view" where
  "GetBestAnchor T type (DB d) = (case db_best_anchor d type of Some h \<Rightarrow> h | None \<Rightarrow> empty_root T type, DB d)"
| "GetBestAnchor T type (Cache c b) =
     (if hashAnchor c type = null_hash
      then case GetBestAnchor T type b of (h, b') \<Rightarrow> (h, Cache (c\<lparr>hashAnchor := (hashAnchor c)(type := h)\<rparr>) b')
      else (hashAnchor c type, Cache c b))"

section \<open>Changing a cache\<close>

text \<open>
  \<open>ModifyCoins\<close> with the life of its modifier: the entry is brought in, \<open>f\<close> changes the coins and gives a result, and the
  destructor cleans up and drops an entry that is fresh and pruned.
\<close>

definition ModifyCoins :: "bytes \<Rightarrow> (CCoins \<Rightarrow> 'r \<times> CCoins) \<Rightarrow> 't cache \<times> 't view \<Rightarrow> 'r \<times> ('t cache \<times> 't view)" where
  "ModifyCoins i f = (\<lambda>(c, b).
     (let (e, b') = (case map_of (cacheCoins c) i of
                       Some e \<Rightarrow> (e, b)
                     | None \<Rightarrow> (case GetCoins i b of
                                  (None, b') \<Rightarrow> (\<lparr>coins = CCoins_Clear, is_dirty = False, is_fresh = True\<rparr>, b')
                                | (Some cs, b') \<Rightarrow> (\<lparr>coins = cs, is_dirty = False, is_fresh = IsPruned cs\<rparr>, b')));
          (r, cs) = f (coins e);
          e' = e\<lparr>coins := Cleanup cs, is_dirty := True\<rparr>
      in (r, (c\<lparr>cacheCoins := (if is_fresh e' \<and> IsPruned (coins e') then AList.delete i (cacheCoins c)
                                else AList.update i e' (cacheCoins c))\<rparr>, b'))))"

definition set_nullifier :: "ShieldedType \<Rightarrow> bool \<Rightarrow> bytes \<Rightarrow> 't cache \<Rightarrow> 't cache" where
  "set_nullifier type spent nf c = c\<lparr>cacheNullifiers := (cacheNullifiers c)(type :=
     AList.update nf \<lparr>n_entered = spent, n_dirty = True\<rparr> (cacheNullifiers c type))\<rparr>"

definition SetNullifiers :: "'a CMutableTransaction_scheme \<Rightarrow> bool \<Rightarrow> 't cache \<Rightarrow> 't cache" where
  "SetNullifiers tx spent c =
     fold (set_nullifier SAPLING spent) (map sp_nullifier (vShieldedSpend tx))
       (fold (set_nullifier SPROUT spent) (concat (map nullifiers (vjoinsplit tx))) c)"

text \<open>An entry that is not in the cache starts with the empty set of ids, whatever the base has.\<close>

definition set_proof :: "ProofType \<Rightarrow> bool \<Rightarrow> bytes \<Rightarrow> nat \<times> bytes \<Rightarrow> 't cache \<Rightarrow> 't cache" where
  "set_proof type addTx i = (\<lambda>(k, h) c.
     (let ids = (case map_of (cacheProofs c type) h of Some e \<Rightarrow> p_txids e | None \<Rightarrow> {})
      in c\<lparr>cacheProofs := (cacheProofs c)(type :=
           AList.update h \<lparr>p_txids = (if addTx then insert (i, k) ids else ids - {(i, k)}), p_dirty = True\<rparr> (cacheProofs c type))\<rparr>))"

definition ProofHash :: "bytes \<Rightarrow> bytes" where
  "ProofHash zkproof = (case Hash1 zkproof of Some h \<Rightarrow> h | None \<Rightarrow> [])"

definition SetZkProofHashes :: "CTransaction \<Rightarrow> bool \<Rightarrow> 't cache \<Rightarrow> 't cache" where
  "SetZkProofHashes tx addTx c =
     fold (set_proof OUTPUT addTx (txid tx)) (List.enumerate 0 (map (\<lambda>o'. ProofHash (out_zkproof o')) (vShieldedOutput tx)))
       (fold (set_proof SPEND addTx (txid tx)) (List.enumerate 0 (map (\<lambda>sp. ProofHash (sp_zkproof sp)) (vShieldedSpend tx))) c)"

definition PushAnchor :: "'t trees \<Rightarrow> ShieldedType \<Rightarrow> 't \<Rightarrow> 't cache \<times> 't view \<Rightarrow> 't view" where
  "PushAnchor T type tree = (\<lambda>(c, b).
     (let newrt = tree_root T tree
      in case GetBestAnchor T type (Cache c b) of
           (currentRoot, v) \<Rightarrow>
             if currentRoot \<noteq> newrt
             then case v of
                    Cache c b \<Rightarrow> Cache (c\<lparr>cacheAnchors := (cacheAnchors c)(type :=
                        AList.update newrt \<lparr>a_entered = True, a_tree = tree, a_dirty = True\<rparr> (cacheAnchors c type)),
                      hashAnchor := (hashAnchor c)(type := newrt)\<rparr>) b
                  | DB d \<Rightarrow> v
             else v))"

text \<open>\<open>PopAnchor\<close> asserts that the best anchor can be brought into the cache.\<close>

definition PopAnchor :: "'t trees \<Rightarrow> bytes \<Rightarrow> ShieldedType \<Rightarrow> 't cache \<times> 't view \<Rightarrow> 't view option" where
  "PopAnchor T newrt type = (\<lambda>(c, b).
     (case GetBestAnchor T type (Cache c b) of
        (currentRoot, v) \<Rightarrow>
          if currentRoot \<noteq> newrt
          then case GetAnchorAt T type currentRoot v of
                 (Some tree, Cache c b) \<Rightarrow>
                   Some (Cache (c\<lparr>cacheAnchors := (cacheAnchors c)(type :=
                       AList.map_entry currentRoot (\<lambda>e. e\<lparr>a_entered := False, a_dirty := True\<rparr>) (cacheAnchors c type)),
                     hashAnchor := (hashAnchor c)(type := newrt)\<rparr>) b)
               | _ \<Rightarrow> None
          else Some v))"

definition SetBestBlock :: "bytes \<Rightarrow> 't cache \<Rightarrow> 't cache" where
  "SetBestBlock h c = c\<lparr>hashBlock := h\<rparr>"

section \<open>Writing a cache to its base\<close>

text \<open>
  The loops of \<open>BatchWrite\<close>. For every entry of the child, \<open>w\<close> gives what becomes of the entry of the parent with that key, or
  nothing when an assertion fails.
\<close>

definition set_entry :: "'k \<Rightarrow> 'p option \<Rightarrow> ('k \<times> 'p) list \<Rightarrow> ('k \<times> 'p) list" where
  "set_entry k r p = (case r of None \<Rightarrow> AList.delete k p | Some e \<Rightarrow> AList.update k e p)"

fun write_loop :: "('k \<Rightarrow> 'e \<Rightarrow> 'p option \<Rightarrow> 'p option option) \<Rightarrow> ('k \<times> 'e) list \<Rightarrow> ('k \<times> 'p) list \<Rightarrow> ('k \<times> 'p) list option" where
  "write_loop w [] p = Some p"
| "write_loop w ((k, e) # m) p = do { r \<leftarrow> w k e (map_of p k); write_loop w m (set_entry k r p) }"

text \<open>A cache as the base.\<close>

definition write_coins :: "bytes \<Rightarrow> coins_entry \<Rightarrow> coins_entry option \<Rightarrow> coins_entry option option" where
  "write_coins k e us =
     (if is_dirty e
      then case us of
             None \<Rightarrow> if \<not> IsPruned (coins e)
                      then if is_fresh e then Some (Some \<lparr>coins = coins e, is_dirty = True, is_fresh = True\<rparr>) else None
                      else Some None
           | Some u \<Rightarrow> if is_fresh u \<and> IsPruned (coins e) then Some None else Some (Some (u\<lparr>coins := coins e, is_dirty := True\<rparr>))
      else Some us)"

definition write_anchor :: "bytes \<Rightarrow> 't anchor_entry \<Rightarrow> 't anchor_entry option \<Rightarrow> 't anchor_entry option option" where
  "write_anchor k e parent = Some
     (if a_dirty e
      then case parent of
             None \<Rightarrow> Some \<lparr>a_entered = a_entered e, a_tree = a_tree e, a_dirty = True\<rparr>
           | Some u \<Rightarrow> Some (if a_entered u \<noteq> a_entered e then u\<lparr>a_entered := a_entered e, a_dirty := True\<rparr> else u)
      else parent)"

definition write_nullifier :: "bytes \<Rightarrow> nullifier_entry \<Rightarrow> nullifier_entry option \<Rightarrow> nullifier_entry option option" where
  "write_nullifier k e parent = Some
     (if n_dirty e
      then case parent of
             None \<Rightarrow> Some \<lparr>n_entered = n_entered e, n_dirty = True\<rparr>
           | Some u \<Rightarrow> Some (if n_entered u \<noteq> n_entered e then u\<lparr>n_entered := n_entered e, n_dirty := True\<rparr> else u)
      else parent)"

definition write_proof :: "bytes \<Rightarrow> proof_entry \<Rightarrow> proof_entry option \<Rightarrow> proof_entry option option" where
  "write_proof k e parent = Some
     (if p_dirty e
      then case parent of
             None \<Rightarrow> Some \<lparr>p_txids = p_txids e, p_dirty = True\<rparr>
           | Some u \<Rightarrow> Some (if p_txids u \<noteq> p_txids e then u\<lparr>p_txids := p_txids e, p_dirty := True\<rparr> else u)
      else parent)"

text \<open>The database as the base.\<close>

definition db_write_coins :: "bytes \<Rightarrow> coins_entry \<Rightarrow> CCoins option \<Rightarrow> CCoins option option" where
  "db_write_coins k e old = Some (if is_dirty e then if IsPruned (coins e) then None else Some (coins e) else old)"

definition db_write_anchor :: "'t trees \<Rightarrow> ShieldedType \<Rightarrow> bytes \<Rightarrow> 't anchor_entry \<Rightarrow> 't option \<Rightarrow> 't option option" where
  "db_write_anchor T type k e old = Some
     (if a_dirty e then if \<not> a_entered e then None else if k \<noteq> empty_root T type then Some (a_tree e) else old else old)"

definition db_write_nullifier :: "bytes \<Rightarrow> nullifier_entry \<Rightarrow> bool option \<Rightarrow> bool option option" where
  "db_write_nullifier k e old = Some (if n_dirty e then if \<not> n_entered e then None else Some True else old)"

definition db_write_proof :: "bytes \<Rightarrow> proof_entry \<Rightarrow> proof_ids option \<Rightarrow> proof_ids option option" where
  "db_write_proof k e old = Some (if p_dirty e then if p_txids e = {} then None else Some (p_txids e) else old)"

text \<open>One table for each kind.\<close>

definition each_shielded :: "(ShieldedType \<Rightarrow> 'a option) \<Rightarrow> (ShieldedType \<Rightarrow> 'a) option" where
  "each_shielded f = do { a \<leftarrow> f SPROUT; b \<leftarrow> f SAPLING; c \<leftarrow> f SAPLINGFRONTIER; Some (\<lambda>type. case type of SPROUT \<Rightarrow> a | SAPLING \<Rightarrow> b | SAPLINGFRONTIER \<Rightarrow> c) }"

definition each_proof :: "(ProofType \<Rightarrow> 'a option) \<Rightarrow> (ProofType \<Rightarrow> 'a) option" where
  "each_proof f = do { a \<leftarrow> f OUTPUT; b \<leftarrow> f SPEND; Some (\<lambda>type. case type of OUTPUT \<Rightarrow> a | SPEND \<Rightarrow> b) }"

fun BatchWrite :: "'t trees \<Rightarrow> 't cache \<Rightarrow> 't view \<Rightarrow> 't view option" where
  "BatchWrite T m (Cache c b) = do {
     cs \<leftarrow> write_loop write_coins (cacheCoins m) (cacheCoins c);
     as \<leftarrow> each_shielded (\<lambda>type. write_loop write_anchor (cacheAnchors m type) (cacheAnchors c type));
     ns \<leftarrow> each_shielded (\<lambda>type. write_loop write_nullifier (cacheNullifiers m type) (cacheNullifiers c type));
     ps \<leftarrow> each_proof (\<lambda>type. write_loop write_proof (cacheProofs m type) (cacheProofs c type));
     Some (Cache \<lparr>hashBlock = hashBlock m, cacheCoins = cs, hashAnchor = hashAnchor m, cacheAnchors = as, cacheNullifiers = ns, cacheProofs = ps\<rparr> b)
   }"
| "BatchWrite T m (DB d) = do {
     cs \<leftarrow> write_loop db_write_coins (cacheCoins m) (db_coins d);
     as \<leftarrow> each_shielded (\<lambda>type. write_loop (db_write_anchor T type) (cacheAnchors m type) (db_anchors d type));
     ns \<leftarrow> each_shielded (\<lambda>type. write_loop db_write_nullifier (cacheNullifiers m type) (db_nullifiers d type));
     ps \<leftarrow> each_proof (\<lambda>type. write_loop db_write_proof (cacheProofs m type) (db_proofs d type));
     Some (DB \<lparr>db_coins = cs, db_anchors = as, db_nullifiers = ns, db_proofs = ps,
       db_best_block = (if hashBlock m \<noteq> null_hash then Some (hashBlock m) else db_best_block d),
       db_best_anchor = (\<lambda>type. if hashAnchor m type \<noteq> null_hash then Some (hashAnchor m type) else db_best_anchor d type)\<rparr>)
   }"

definition Flush :: "'t trees \<Rightarrow> 't cache \<times> 't view \<Rightarrow> ('t cache \<times> 't view) option" where
  "Flush T = (\<lambda>(c, b). do {
     b' \<leftarrow> BatchWrite T c b;
     Some (c\<lparr>cacheCoins := [], cacheAnchors := (\<lambda>_. []), cacheNullifiers := (\<lambda>_. []), cacheProofs := (\<lambda>_. [])\<rparr>, b')
   })"

text \<open>What the loops do to a key.\<close>

lemma map_of_set_entry: "map_of (set_entry k r p) k' = (if k' = k then r else map_of p k')"
  by (auto simp: set_entry_def delete_conv' update_conv' split: option.splits)

lemma distinct_set_entry: "distinct (map fst p) \<Longrightarrow> distinct (map fst (set_entry k r p))"
  by (auto simp: set_entry_def distinct_delete distinct_update split: option.splits)

lemma write_loop_spec:
  "distinct (map fst m) \<Longrightarrow> (\<And>k e. map_of m k = Some e \<Longrightarrow> w k e (map_of p k) \<noteq> None) \<Longrightarrow>
   \<exists>p'. write_loop w m p = Some p' \<and> (\<forall>k. map_of p' k = (case map_of m k of None \<Rightarrow> map_of p k | Some e \<Rightarrow> the (w k e (map_of p k)))) \<and>
     (distinct (map fst p) \<longrightarrow> distinct (map fst p'))"
proof (induction m arbitrary: p)
  case (Cons x m)
  obtain k e where x: "x = (k, e)" by fastforce
  obtain r where r: "w k e (map_of p k) = Some r" using Cons(3) [of k e] x by auto
  have k: "k \<notin> fst ` set m" "distinct (map fst m)" using Cons(2) x by auto
  then have n: "map_of m k = None" by (simp add: map_of_eq_None_iff)
  have "w k' e' (map_of (set_entry k r p) k') \<noteq> None" if "map_of m k' = Some e'" for k' e'
    using Cons(3) [of k' e'] that n x by (auto simp: map_of_set_entry split: if_splits)
  from Cons(1) [OF k(2) this] obtain p' where p': "write_loop w m (set_entry k r p) = Some p'"
      "\<forall>k'. map_of p' k' = (case map_of m k' of None \<Rightarrow> map_of (set_entry k r p) k' | Some e \<Rightarrow> the (w k' e (map_of (set_entry k r p) k')))"
      "distinct (map fst (set_entry k r p)) \<longrightarrow> distinct (map fst p')" by blast
  have "map_of p' k' = (case map_of (x # m) k' of None \<Rightarrow> map_of p k' | Some e \<Rightarrow> the (w k' e (map_of p k')))" for k'
    using p'(2) r n x by (auto simp: map_of_set_entry split: option.splits)
  then show ?case using p'(1,3) r x distinct_set_entry [of p k r] by auto
qed simp

section \<open>What a view holds\<close>

text \<open>The contents of a view: what it answers, with pruned coins the same as none, and without what is cached where.\<close>

definition unspent :: "CCoins option \<Rightarrow> CCoins option" where
  "unspent r = (case r of Some cs \<Rightarrow> if IsPruned cs then None else Some cs | None \<Rightarrow> None)"

lemma unspent_simps [simp]: "unspent None = None" "unspent (Some cs) = (if IsPruned cs then None else Some cs)"
  by (simp_all add: unspent_def)

fun coins_at :: "'t view \<Rightarrow> bytes \<Rightarrow> CCoins option" where
  "coins_at (DB d) i = map_of (db_coins d) i"
| "coins_at (Cache c b) i = (case map_of (cacheCoins c) i of Some e \<Rightarrow> Some (coins e) | None \<Rightarrow> coins_at b i)"

fun anchor_at :: "'t trees \<Rightarrow> 't view \<Rightarrow> ShieldedType \<Rightarrow> bytes \<Rightarrow> 't option" where
  "anchor_at T (DB d) type rt = (if rt = empty_root T type then Some (empty_tree T type) else map_of (db_anchors d type) rt)"
| "anchor_at T (Cache c b) type rt =
     (case map_of (cacheAnchors c type) rt of Some e \<Rightarrow> if a_entered e then Some (a_tree e) else None | None \<Rightarrow> anchor_at T b type rt)"

fun nullifier_at :: "'t view \<Rightarrow> ShieldedType \<Rightarrow> bytes \<Rightarrow> bool" where
  "nullifier_at (DB d) type nf \<longleftrightarrow> map_of (db_nullifiers d type) nf \<noteq> None"
| "nullifier_at (Cache c b) type nf \<longleftrightarrow> (case map_of (cacheNullifiers c type) nf of Some e \<Rightarrow> n_entered e | None \<Rightarrow> nullifier_at b type nf)"

fun proofs_at :: "'t view \<Rightarrow> ProofType \<Rightarrow> bytes \<Rightarrow> proof_ids" where
  "proofs_at (DB d) type h = (case map_of (db_proofs d type) h of Some ids \<Rightarrow> ids | None \<Rightarrow> {})"
| "proofs_at (Cache c b) type h = (case map_of (cacheProofs c type) h of Some e \<Rightarrow> p_txids e | None \<Rightarrow> proofs_at b type h)"

fun best_block :: "'t view \<Rightarrow> bytes" where
  "best_block (DB d) = (case db_best_block d of Some h \<Rightarrow> h | None \<Rightarrow> null_hash)"
| "best_block (Cache c b) = (if hashBlock c = null_hash then best_block b else hashBlock c)"

fun best_anchor :: "'t trees \<Rightarrow> 't view \<Rightarrow> ShieldedType \<Rightarrow> bytes" where
  "best_anchor T (DB d) type = (case db_best_anchor d type of Some h \<Rightarrow> h | None \<Rightarrow> empty_root T type)"
| "best_anchor T (Cache c b) type = (if hashAnchor c type = null_hash then best_anchor T b type else hashAnchor c type)"

record contents =
  utxos :: "bytes \<Rightarrow> CCoins option"
  anchor_roots :: "ShieldedType \<Rightarrow> bytes \<Rightarrow> bool"
  spent_nullifiers :: "ShieldedType \<Rightarrow> bytes \<Rightarrow> bool"
  used_proofs :: "ProofType \<Rightarrow> bytes \<Rightarrow> proof_ids"
  tip_block :: bytes
  tip_anchor :: "ShieldedType \<Rightarrow> bytes"

definition contents_of :: "'t trees \<Rightarrow> 't view \<Rightarrow> contents" where
  "contents_of T v = \<lparr>utxos = (\<lambda>i. unspent (coins_at v i)), anchor_roots = (\<lambda>type rt. anchor_at T v type rt \<noteq> None),
     spent_nullifiers = nullifier_at v, used_proofs = proofs_at v, tip_block = best_block v, tip_anchor = best_anchor T v\<rparr>"

text \<open>The contents of a view and of the views below it.\<close>

fun stack :: "'t trees \<Rightarrow> 't view \<Rightarrow> contents list" where
  "stack T (DB d) = [contents_of T (DB d)]"
| "stack T (Cache c b) = contents_of T (Cache c b) # stack T b"

section \<open>The invariant\<close>

text \<open>
  An entry that is not dirty agrees with the base; a fresh entry is one that the base does not have; and when the base is a cache,
  it has every entry that is not fresh, which is what \<open>BatchWrite\<close> asserts. Coins are clean. A tree is filed under its root, and the
  best anchor can be found.
\<close>

fun holds_entry :: "'t view \<Rightarrow> bytes \<Rightarrow> bool" where
  "holds_entry (DB d) i = True"
| "holds_entry (Cache c b) i = (map_of (cacheCoins c) i \<noteq> None)"

definition coins_ok :: "'t view \<Rightarrow> bytes \<Rightarrow> coins_entry \<Rightarrow> bool" where
  "coins_ok b i e \<longleftrightarrow> clean (coins e) \<and> (\<not> is_dirty e \<longrightarrow> unspent (Some (coins e)) = unspent (coins_at b i)) \<and>
     (is_fresh e \<longrightarrow> unspent (coins_at b i) = None) \<and> (\<not> is_fresh e \<longrightarrow> holds_entry b i)"

definition anchor_ok :: "'t trees \<Rightarrow> 't view \<Rightarrow> ShieldedType \<Rightarrow> bytes \<Rightarrow> 't anchor_entry \<Rightarrow> bool" where
  "anchor_ok T b type rt e \<longleftrightarrow> tree_root T (a_tree e) = rt \<and> (\<not> a_dirty e \<longrightarrow> a_entered e \<and> anchor_at T b type rt \<noteq> None) \<and>
     (rt = empty_root T type \<longrightarrow> a_entered e)"

definition distinct_keys :: "'t cache \<Rightarrow> bool" where
  "distinct_keys c \<longleftrightarrow> distinct (map fst (cacheCoins c)) \<and> (\<forall>type. distinct (map fst (cacheAnchors c type))) \<and>
     (\<forall>type. distinct (map fst (cacheNullifiers c type))) \<and> (\<forall>type. distinct (map fst (cacheProofs c type)))"

definition cache_ok :: "'t trees \<Rightarrow> 't view \<Rightarrow> 't cache \<Rightarrow> bool" where
  "cache_ok T b c \<longleftrightarrow> (\<forall>i e. map_of (cacheCoins c) i = Some e \<longrightarrow> coins_ok b i e) \<and>
     (\<forall>type rt e. map_of (cacheAnchors c type) rt = Some e \<longrightarrow> anchor_ok T b type rt e) \<and>
     (\<forall>type nf e. map_of (cacheNullifiers c type) nf = Some e \<longrightarrow> \<not> n_dirty e \<longrightarrow> n_entered e = nullifier_at b type nf) \<and>
     (\<forall>type h e. map_of (cacheProofs c type) h = Some e \<longrightarrow> \<not> p_dirty e \<longrightarrow> p_txids e = proofs_at b type h)"

definition best_ok :: "'t trees \<Rightarrow> 't view \<Rightarrow> bool" where
  "best_ok T v \<longleftrightarrow> (\<forall>type. anchor_at T v type (best_anchor T v type) \<noteq> None)"

definition db_ok :: "'t trees \<Rightarrow> 't coins_db \<Rightarrow> bool" where
  "db_ok T d \<longleftrightarrow> (\<forall>i cs. map_of (db_coins d) i = Some cs \<longrightarrow> clean cs \<and> \<not> IsPruned cs) \<and>
     (\<forall>type rt t. map_of (db_anchors d type) rt = Some t \<longrightarrow> tree_root T t = rt)"

fun wf_view :: "'t trees \<Rightarrow> 't view \<Rightarrow> bool" where
  "wf_view T (DB d) \<longleftrightarrow> db_ok T d \<and> best_ok T (DB d)"
| "wf_view T (Cache c b) \<longleftrightarrow> wf_view T b \<and> distinct_keys c \<and> cache_ok T b c \<and> best_ok T (Cache c b)"

lemma clean_at: "wf_view T v \<Longrightarrow> coins_at v i = Some cs \<Longrightarrow> clean cs"
  by (induction v) (auto simp: db_ok_def cache_ok_def coins_ok_def split: option.splits)

lemma root_at: "wf_view T v \<Longrightarrow> anchor_at T v type rt = Some t \<Longrightarrow> tree_root T t = rt"
  by (induction v) (auto simp: db_ok_def cache_ok_def anchor_ok_def empty_root_def split: option.splits if_splits)

section \<open>Looking up changes nothing\<close>

text \<open>Two views that answer alike, down to the database.\<close>

definition same :: "'t trees \<Rightarrow> 't view \<Rightarrow> 't view \<Rightarrow> bool" where
  "same T v v' \<longleftrightarrow> coins_at v' = coins_at v \<and> anchor_at T v' = anchor_at T v \<and> nullifier_at v' = nullifier_at v \<and> proofs_at v' = proofs_at v \<and>
     best_block v' = best_block v \<and> best_anchor T v' = best_anchor T v \<and> stack T v' = stack T v \<and>
     (\<forall>i. holds_entry v i \<longrightarrow> holds_entry v' i) \<and> (wf_view T v \<longrightarrow> wf_view T v')"

lemma same_refl [simp]: "same T v v"
  by (simp add: same_def)

text \<open>Replacing the base of a cache, and the cache itself.\<close>

lemma same_Cache:
  assumes b: "same T b b'" and d: "distinct_keys c \<Longrightarrow> distinct_keys c'" and k: "wf_view T b' \<Longrightarrow> cache_ok T b' c \<Longrightarrow> cache_ok T b' c'"
    and h: "\<And>i. map_of (cacheCoins c) i \<noteq> None \<Longrightarrow> map_of (cacheCoins c') i \<noteq> None"
    and l: "coins_at (Cache c' b) = coins_at (Cache c b)" "anchor_at T (Cache c' b) = anchor_at T (Cache c b)"
      "nullifier_at (Cache c' b) = nullifier_at (Cache c b)" "proofs_at (Cache c' b) = proofs_at (Cache c b)"
      "best_block (Cache c' b) = best_block (Cache c b)" "best_anchor T (Cache c' b) = best_anchor T (Cache c b)"
  shows "same T (Cache c b) (Cache c' b')"
proof -
  have e: "coins_at (Cache c' b') = coins_at (Cache c' b)" "anchor_at T (Cache c' b') = anchor_at T (Cache c' b)"
      "nullifier_at (Cache c' b') = nullifier_at (Cache c' b)" "proofs_at (Cache c' b') = proofs_at (Cache c' b)"
      "best_block (Cache c' b') = best_block (Cache c' b)" "best_anchor T (Cache c' b') = best_anchor T (Cache c' b)"
    using b by (auto simp: same_def fun_eq_iff split: option.splits)
  then have "contents_of T (Cache c' b') = contents_of T (Cache c b)" using l by (simp add: contents_of_def)
  moreover have "cache_ok T b' c" if "cache_ok T b c"
    using that b unfolding same_def cache_ok_def coins_ok_def anchor_ok_def by simp
  moreover have "best_ok T (Cache c' b') = best_ok T (Cache c b)" using e l by (simp add: best_ok_def)
  ultimately show ?thesis using e l b d k h unfolding same_def by auto
qed

lemma distinct_keys_update:
  "distinct_keys c \<Longrightarrow> distinct_keys (c\<lparr>cacheCoins := AList.update i e (cacheCoins c)\<rparr>)"
  "distinct_keys c \<Longrightarrow> distinct_keys (c\<lparr>cacheCoins := AList.delete i (cacheCoins c)\<rparr>)"
  "distinct_keys c \<Longrightarrow> distinct_keys (c\<lparr>cacheAnchors := (cacheAnchors c)(type := AList.update rt a (cacheAnchors c type))\<rparr>)"
  "distinct_keys c \<Longrightarrow> distinct_keys (c\<lparr>cacheNullifiers := (cacheNullifiers c)(type := AList.update nf n (cacheNullifiers c type))\<rparr>)"
  "distinct_keys c \<Longrightarrow> distinct_keys (c\<lparr>cacheProofs := (cacheProofs c)(ptype := AList.update h p (cacheProofs c ptype))\<rparr>)"
  "distinct_keys (c\<lparr>hashBlock := x\<rparr>) = distinct_keys c" "distinct_keys (c\<lparr>hashAnchor := y\<rparr>) = distinct_keys c"
  by (simp_all add: distinct_keys_def distinct_update distinct_delete)

lemma cache_ok_hashes [simp]: "cache_ok T b (c\<lparr>hashBlock := x\<rparr>) = cache_ok T b c" "cache_ok T b (c\<lparr>hashAnchor := y\<rparr>) = cache_ok T b c"
  by (simp_all add: cache_ok_def)

text \<open>The coins that the base has can be brought in: the base then holds them itself.\<close>

lemma GetCoins_spec: "GetCoins i v = (r, v') \<Longrightarrow> wf_view T v \<Longrightarrow> r = coins_at v i \<and> same T v v' \<and> (r \<noteq> None \<longrightarrow> holds_entry v' i)"
proof (induction v arbitrary: r v')
  case (Cache c b)
  show ?case
  proof (cases "map_of (cacheCoins c) i")
    case None
    obtain r' b' where g: "GetCoins i b = (r', b')" by fastforce
    have w: "wf_view T b" using Cache(3) by simp
    note b = Cache(1) [OF g w]
    show ?thesis
    proof (cases r')
      case None
      then have "v' = Cache c b'" "r = None" using Cache(2) g \<open>map_of (cacheCoins c) i = None\<close> by auto
      moreover have "same T (Cache c b) (Cache c b')" by (rule same_Cache) (use b in auto)
      ultimately show ?thesis using b None \<open>map_of (cacheCoins c) i = None\<close> by simp
    next
      case (Some tmp)
      then have v': "v' = Cache (cache_coins i tmp c) b'" "r = Some tmp" using Cache(2) g None by auto
      have at: "coins_at b i = Some tmp" "coins_at b' i = Some tmp" "holds_entry b' i" using b Some by (auto simp: same_def)
      have "clean tmp" using clean_at [OF w at(1)] .
      then have "coins_ok b' i \<lparr>coins = tmp, is_dirty = False, is_fresh = IsPruned tmp\<rparr>" using at by (simp add: coins_ok_def)
      then have "same T (Cache c b) (Cache (cache_coins i tmp c) b')"
        using None at by (intro same_Cache) (auto simp: b cache_coins_def distinct_keys_update cache_ok_def update_conv' fun_eq_iff split: if_splits option.splits)
      then show ?thesis using v' None at by (simp add: cache_coins_def update_conv')
    qed
  qed (use Cache in auto)
qed auto

lemma HaveCoins_spec: "HaveCoins i v = (r, v') \<Longrightarrow> wf_view T v \<Longrightarrow> r = (unspent (coins_at v i) \<noteq> None) \<and> same T v v'"
proof (cases v)
  case (Cache c b)
  assume h: "HaveCoins i v = (r, v')" and w: "wf_view T v"
  obtain r' v'' where g: "GetCoins i v = (r', v'')" by fastforce
  note s = GetCoins_spec [OF g w]
  have "coins_vout cs = [] \<longleftrightarrow> IsPruned cs" if "r' = Some cs" for cs using clean_pruned clean_at [OF w, of i cs] s that by auto
  then show ?thesis using h g s Cache by (auto split: option.splits)
qed (auto simp: db_ok_def)

lemma GetAnchorAt_spec:
  "GetAnchorAt T type rt v = (r, v') \<Longrightarrow> wf_view T v \<Longrightarrow> r = anchor_at T v type rt \<and> same T v v'"
proof (induction v arbitrary: r v')
  case (Cache c b)
  show ?case
  proof (cases "map_of (cacheAnchors c type) rt")
    case None
    obtain r' b' where g: "GetAnchorAt T type rt b = (r', b')" by fastforce
    have w: "wf_view T b" using Cache(3) by simp
    note b = Cache(1) [OF g w]
    show ?thesis
    proof (cases r')
      case None
      moreover have "same T (Cache c b) (Cache c b')" by (rule same_Cache) (use b in auto)
      ultimately show ?thesis using b Cache(2) g \<open>map_of (cacheAnchors c type) rt = None\<close> by simp
    next
      case (Some tree)
      let ?c = "c\<lparr>cacheAnchors := (cacheAnchors c)(type := AList.update rt \<lparr>a_entered = True, a_tree = tree, a_dirty = False\<rparr> (cacheAnchors c type))\<rparr>"
      have v': "v' = Cache ?c b'" "r = Some tree" using Cache(2) g None Some by auto
      have at: "anchor_at T b type rt = Some tree" "anchor_at T b' type rt = Some tree" using b Some by (auto simp: same_def)
      have "anchor_ok T b' type rt \<lparr>a_entered = True, a_tree = tree, a_dirty = False\<rparr>" using at root_at [OF w at(1)] by (simp add: anchor_ok_def)
      then have "same T (Cache c b) (Cache ?c b')"
        using None at by (intro same_Cache) (auto simp: b distinct_keys_update cache_ok_def update_conv' fun_eq_iff split: if_splits option.splits)
      then show ?thesis using v' None at by simp
    qed
  qed (use Cache in auto)
qed auto

lemma nullifier_lookup_spec: "nullifier_lookup type nf v = (r, v') \<Longrightarrow> r = nullifier_at v type nf \<and> same T v v'"
proof (induction v arbitrary: r v')
  case (Cache c b)
  show ?case
  proof (cases "map_of (cacheNullifiers c type) nf")
    case None
    obtain r' b' where g: "nullifier_lookup type nf b = (r', b')" by fastforce
    note b = Cache(1) [OF g]
    let ?c = "c\<lparr>cacheNullifiers := (cacheNullifiers c)(type := AList.update nf \<lparr>n_entered = r', n_dirty = False\<rparr> (cacheNullifiers c type))\<rparr>"
    have v': "v' = Cache ?c b'" "r = r'" using Cache(2) g None by auto
    have "same T (Cache c b) (Cache ?c b')"
      using None b by (intro same_Cache)
        (auto simp: b distinct_keys_update cache_ok_def update_conv' fun_eq_iff same_def split: if_splits option.splits)
    then show ?thesis using v' None b by simp
  qed (use Cache in auto)
qed auto

lemma GetZkProofHash_spec: "GetZkProofHash h type v = (r, v') \<Longrightarrow> r = proofs_at v type h \<and> same T v v'"
proof (induction v arbitrary: r v')
  case (Cache c b)
  show ?case
  proof (cases "map_of (cacheProofs c type) h")
    case None
    obtain r' b' where g: "GetZkProofHash h type b = (r', b')" by fastforce
    note b = Cache(1) [OF g]
    let ?c = "c\<lparr>cacheProofs := (cacheProofs c)(type := AList.update h \<lparr>p_txids = r', p_dirty = False\<rparr> (cacheProofs c type))\<rparr>"
    have v': "v' = Cache ?c b'" "r = r'" using Cache(2) g None by auto
    have "same T (Cache c b) (Cache ?c b')"
      using None b by (intro same_Cache)
        (auto simp: b distinct_keys_update cache_ok_def update_conv' fun_eq_iff same_def split: if_splits option.splits)
    then show ?thesis using v' None b by simp
  qed (use Cache in auto)
qed auto

lemma GetBestBlock_spec: "GetBestBlock v = (r, v') \<Longrightarrow> r = best_block v \<and> same T v v'"
proof (induction v arbitrary: r v')
  case (Cache c b)
  show ?case
  proof (cases "hashBlock c = null_hash")
    case True
    obtain r' b' where g: "GetBestBlock b = (r', b')" by fastforce
    note b = Cache(1) [OF g]
    have v': "v' = Cache (c\<lparr>hashBlock := r'\<rparr>) b'" "r = r'" using Cache(2) g True by auto
    have "same T (Cache c b) (Cache (c\<lparr>hashBlock := r'\<rparr>) b')"
      using True b by (intro same_Cache) (auto simp: distinct_keys_update fun_eq_iff cong: option.case_cong)
    then show ?thesis using v' True b by simp
  qed (use Cache in auto)
qed auto

lemma GetBestAnchor_spec: "GetBestAnchor T type v = (r, v') \<Longrightarrow> r = best_anchor T v type \<and> same T v v'"
proof (induction v arbitrary: r v')
  case (Cache c b)
  show ?case
  proof (cases "hashAnchor c type = null_hash")
    case True
    obtain r' b' where g: "GetBestAnchor T type b = (r', b')" by fastforce
    note b = Cache(1) [OF g]
    let ?c = "c\<lparr>hashAnchor := (hashAnchor c)(type := r')\<rparr>"
    have v': "v' = Cache ?c b'" "r = r'" using Cache(2) g True by auto
    have "same T (Cache c b) (Cache ?c b')"
      using True b by (intro same_Cache) (auto simp: distinct_keys_update fun_eq_iff cong: option.case_cong)
    then show ?thesis using v' True b by simp
  qed (use Cache in auto)
qed auto

section \<open>Changes\<close>

lemma cache_ok_base: "cache_ok T b c \<Longrightarrow> same T b b' \<Longrightarrow> cache_ok T b' c"
  unfolding same_def cache_ok_def coins_ok_def anchor_ok_def by simp

lemma contents_base:
  "same T b b' \<Longrightarrow> contents_of T (Cache c b') = contents_of T (Cache c b)" "same T b b' \<Longrightarrow> best_ok T (Cache c b') = best_ok T (Cache c b)"
  by (auto simp: same_def contents_of_def best_ok_def fun_eq_iff cong: option.case_cong)

text \<open>
  \<open>ModifyCoins\<close> gives the change what the view has under that id, or some pruned coins when it has nothing there, and only the coins of
  that id change.
\<close>

lemma ModifyCoins_spec:
  assumes "wf_view T (Cache c b)" and "ModifyCoins i f (c, b) = (r, c', b')"
  shows "\<exists>cs. clean cs \<and> unspent (Some cs) = utxos (contents_of T (Cache c b)) i \<and> r = fst (f cs) \<and> wf_view T (Cache c' b') \<and> same T b b' \<and>
    contents_of T (Cache c' b') = contents_of T (Cache c b)\<lparr>utxos := (utxos (contents_of T (Cache c b)))(i := unspent (Some (Cleanup (snd (f cs)))))\<rparr>"
proof -
  have w: "wf_view T b" "distinct_keys c" "cache_ok T b c" "best_ok T (Cache c b)" using assms(1) by simp_all
  obtain e b1 where e: "(case map_of (cacheCoins c) i of Some e \<Rightarrow> (e, b) | None \<Rightarrow> (case GetCoins i b of
        (None, b') \<Rightarrow> (\<lparr>coins = CCoins_Clear, is_dirty = False, is_fresh = True\<rparr>, b')
      | (Some cs, b') \<Rightarrow> (\<lparr>coins = cs, is_dirty = False, is_fresh = IsPruned cs\<rparr>, b'))) = (e, b1)" by fastforce
  have "same T b b1 \<and> coins_ok b1 i e \<and> unspent (Some (coins e)) = unspent (coins_at (Cache c b) i)"
  proof (cases "map_of (cacheCoins c) i")
    case None
    obtain r' b'' where g: "GetCoins i b = (r', b'')" by fastforce
    note s = GetCoins_spec [OF g w(1)]
    then have "coins_at b'' = coins_at b" by (simp add: same_def)
    then show ?thesis using e None g s clean_at [OF w(1), of i] by (cases "coins_at b i") (auto simp: coins_ok_def)
  qed (use e w(3) in \<open>auto simp: cache_ok_def\<close>)
  then have b1: "same T b b1" and ok: "coins_ok b1 i e" and u: "unspent (Some (coins e)) = unspent (coins_at (Cache c b) i)" by auto
  let ?e = "e\<lparr>coins := Cleanup (snd (f (coins e))), is_dirty := True\<rparr>"
  have m: "r = fst (f (coins e))" "b' = b1" "c' = c\<lparr>cacheCoins := (if is_fresh ?e \<and> IsPruned (coins ?e) then AList.delete i (cacheCoins c) else AList.update i ?e (cacheCoins c))\<rparr>"
    using assms(2) e by (auto simp: ModifyCoins_def Let_def split: prod.splits)
  have "coins_ok b1 i ?e" using ok by (simp add: coins_ok_def)
  then have "cache_ok T b' c'" using cache_ok_base [OF w(3) b1] m by (auto simp: cache_ok_def delete_conv' update_conv' split: if_splits)
  moreover have "distinct_keys c'" using m(3) w(2) by (simp add: distinct_keys_update)
  moreover have v: "unspent (coins_at (Cache c' b') j) = (if j = i then unspent (Some (coins ?e)) else unspent (coins_at (Cache c b') j))" for j
    using ok m by (auto simp: delete_conv' update_conv' coins_ok_def split: option.splits)
  moreover have o: "anchor_at T (Cache c' b') = anchor_at T (Cache c b')" "nullifier_at (Cache c' b') = nullifier_at (Cache c b')"
      "proofs_at (Cache c' b') = proofs_at (Cache c b')" "best_block (Cache c' b') = best_block (Cache c b')" "best_anchor T (Cache c' b') = best_anchor T (Cache c b')"
    using m(3) by (auto simp: fun_eq_iff)
  moreover have "contents_of T (Cache c b') = contents_of T (Cache c b)" "best_ok T (Cache c b') = best_ok T (Cache c b)" using contents_base [OF b1] m(2) by simp_all
  moreover have "contents_of T (Cache c' b') = contents_of T (Cache c b')\<lparr>utxos := (utxos (contents_of T (Cache c b')))(i := unspent (Some (coins ?e)))\<rparr>"
    unfolding contents_of_def o using v by (auto simp: fun_eq_iff)
  moreover have "best_ok T (Cache c' b') = best_ok T (Cache c b')" unfolding best_ok_def o ..
  moreover have "wf_view T b'" using b1 w(1) m(2) by (simp add: same_def)
  moreover have "utxos (contents_of T (Cache c b)) i = unspent (coins_at (Cache c b) i)" by (simp add: contents_of_def)
  ultimately show ?thesis using u m ok b1 w(4) by (intro exI [of _ "coins e"]) (simp add: coins_ok_def)
qed

lemma set_nullifier_spec:
  assumes "wf_view T (Cache c b)"
  shows "wf_view T (Cache (set_nullifier type x nf c) b) \<and> contents_of T (Cache (set_nullifier type x nf c) b) =
    contents_of T (Cache c b)\<lparr>spent_nullifiers := (spent_nullifiers (contents_of T (Cache c b)))(type := (spent_nullifiers (contents_of T (Cache c b)) type)(nf := x))\<rparr>"
proof -
  let ?c = "set_nullifier type x nf c"
  have o: "anchor_at T (Cache ?c b) = anchor_at T (Cache c b)" "coins_at (Cache ?c b) = coins_at (Cache c b)"
      "proofs_at (Cache ?c b) = proofs_at (Cache c b)" "best_block (Cache ?c b) = best_block (Cache c b)" "best_anchor T (Cache ?c b) = best_anchor T (Cache c b)"
    by (auto simp: fun_eq_iff set_nullifier_def)
  have "nullifier_at (Cache ?c b) = (nullifier_at (Cache c b))(type := (nullifier_at (Cache c b) type)(nf := x))"
    by (auto simp: fun_eq_iff set_nullifier_def update_conv')
  moreover have "cache_ok T b ?c" using assms by (auto simp: cache_ok_def set_nullifier_def update_conv' split: if_splits)
  ultimately show ?thesis using assms o by (simp add: contents_of_def best_ok_def, simp add: set_nullifier_def distinct_keys_update)
qed

lemma fold_nullifiers_spec:
  assumes "wf_view T (Cache c b)"
  shows "wf_view T (Cache (fold (set_nullifier type x) nfs c) b) \<and> contents_of T (Cache (fold (set_nullifier type x) nfs c) b) =
    contents_of T (Cache c b)\<lparr>spent_nullifiers := (spent_nullifiers (contents_of T (Cache c b)))(type := (\<lambda>nf. if nf \<in> set nfs then x else spent_nullifiers (contents_of T (Cache c b)) type nf))\<rparr>"
  using assms
proof (induction nfs arbitrary: c)
  case (Cons nf nfs)
  note s = set_nullifier_spec [OF Cons(2), of type x nf]
  show ?case using Cons(1) [of "set_nullifier type x nf c"] s by (auto simp: fun_eq_iff intro!: contents.equality)
qed simp

text \<open>The nullifiers of a transaction, by kind.\<close>

definition tx_nullifiers :: "'a CMutableTransaction_scheme \<Rightarrow> ShieldedType \<Rightarrow> bytes set" where
  "tx_nullifiers tx type = (case type of SPROUT \<Rightarrow> set (concat (map nullifiers (vjoinsplit tx))) | SAPLING \<Rightarrow> set (map sp_nullifier (vShieldedSpend tx)) | SAPLINGFRONTIER \<Rightarrow> {})"

lemma SetNullifiers_spec:
  assumes "wf_view T (Cache c b)"
  shows "wf_view T (Cache (SetNullifiers tx x c) b) \<and> contents_of T (Cache (SetNullifiers tx x c) b) =
    contents_of T (Cache c b)\<lparr>spent_nullifiers := (\<lambda>type nf. if nf \<in> tx_nullifiers tx type then x else spent_nullifiers (contents_of T (Cache c b)) type nf)\<rparr>"
proof -
  let ?c = "fold (set_nullifier SPROUT x) (concat (map nullifiers (vjoinsplit tx))) c"
  note s = fold_nullifiers_spec [OF assms, of SPROUT x "concat (map nullifiers (vjoinsplit tx))"]
  then have "wf_view T (Cache ?c b)" by blast
  note t = fold_nullifiers_spec [OF this, of SAPLING x "map sp_nullifier (vShieldedSpend tx)"]
  show ?thesis unfolding SetNullifiers_def using s t
    by (auto simp: fun_eq_iff tx_nullifiers_def split: ShieldedType.splits intro!: contents.equality)
qed

lemma best_found: "wf_view T v \<Longrightarrow> anchor_at T v type (best_anchor T v type) \<noteq> None"
  by (cases v) (simp_all only: wf_view.simps best_ok_def, blast+)

lemma PushAnchor_spec:
  assumes "wf_view T (Cache c b)" and "tree_root T tree \<noteq> null_hash"
  shows "\<exists>c' b'. PushAnchor T type tree (c, b) = Cache c' b' \<and> wf_view T (Cache c' b') \<and> same T b b' \<and>
    contents_of T (Cache c' b') = contents_of T (Cache c b)
      \<lparr>anchor_roots := (anchor_roots (contents_of T (Cache c b)))(type := (anchor_roots (contents_of T (Cache c b)) type)(tree_root T tree := True)),
       tip_anchor := (tip_anchor (contents_of T (Cache c b)))(type := tree_root T tree)\<rparr>"
proof -
  let ?v = "contents_of T (Cache c b)" and ?rt = "tree_root T tree"
  obtain r v1 where g: "GetBestAnchor T type (Cache c b) = (r, v1)" by fastforce
  note s = GetBestAnchor_spec [OF g]
  obtain c1 b1 where v1: "v1 = Cache c1 b1" using g by (auto split: if_splits prod.splits)
  have b1: "same T b b1" using g v1 GetBestAnchor_spec [of T type b] by (auto split: if_splits prod.splits)
  have w: "wf_view T (Cache c1 b1)" using s assms(1) v1 by (simp add: same_def)
  have e: "contents_of T (Cache c1 b1) = ?v" using s v1 by (simp add: same_def contents_of_def)
  show ?thesis
  proof (cases "r = ?rt")
    case True
    then have "?v = ?v\<lparr>anchor_roots := (anchor_roots ?v)(type := (anchor_roots ?v type)(?rt := True)), tip_anchor := (tip_anchor ?v)(type := ?rt)\<rparr>"
    proof -
      have "anchor_roots ?v type ?rt" "tip_anchor ?v type = ?rt" using s True best_found [OF assms(1)] by (simp_all only: contents_of_def contents.simps not_False_eq_True)
      then show ?thesis by (auto simp: fun_eq_iff intro!: contents.equality)
    qed
    then show ?thesis using True g v1 w e b1 by (simp add: PushAnchor_def)
  next
    case False
    let ?c = "c1\<lparr>cacheAnchors := (cacheAnchors c1)(type := AList.update ?rt \<lparr>a_entered = True, a_tree = tree, a_dirty = True\<rparr> (cacheAnchors c1 type)),
        hashAnchor := (hashAnchor c1)(type := ?rt)\<rparr>"
    have a: "anchor_at T (Cache ?c b1) = (anchor_at T (Cache c1 b1))(type := (anchor_at T (Cache c1 b1) type)(?rt := Some tree))"
      by (auto simp: fun_eq_iff update_conv')
    have h: "best_anchor T (Cache ?c b1) = (best_anchor T (Cache c1 b1))(type := ?rt)" using assms(2) by (auto simp: fun_eq_iff)
    have o: "coins_at (Cache ?c b1) = coins_at (Cache c1 b1)" "nullifier_at (Cache ?c b1) = nullifier_at (Cache c1 b1)"
      "proofs_at (Cache ?c b1) = proofs_at (Cache c1 b1)" "best_block (Cache ?c b1) = best_block (Cache c1 b1)" by (auto simp: fun_eq_iff)
    have "best_ok T (Cache ?c b1)" unfolding best_ok_def a h using w by (auto simp: best_ok_def)
    moreover have "cache_ok T b1 ?c" using w by (auto simp: cache_ok_def update_conv' anchor_ok_def split: if_splits)
    moreover have "distinct_keys ?c" using w by (simp add: distinct_keys_def distinct_update)
    moreover have "contents_of T (Cache ?c b1) = ?v\<lparr>anchor_roots := (anchor_roots ?v)(type := (anchor_roots ?v type)(?rt := True)), tip_anchor := (tip_anchor ?v)(type := ?rt)\<rparr>"
      unfolding e [symmetric] unfolding contents_of_def a h o by (auto simp: fun_eq_iff)
    moreover have "PushAnchor T type tree (c, b) = Cache ?c b1" using False g v1 by (simp add: PushAnchor_def Let_def)
    ultimately show ?thesis using w b1 by auto
  qed
qed

lemma PopAnchor_spec:
  assumes "wf_view T (Cache c b)" and "newrt \<noteq> null_hash" and "anchor_roots (contents_of T (Cache c b)) type newrt"
    and "tip_anchor (contents_of T (Cache c b)) type = newrt \<or> tip_anchor (contents_of T (Cache c b)) type \<noteq> empty_root T type"
  shows "\<exists>c' b'. PopAnchor T newrt type (c, b) = Some (Cache c' b') \<and> wf_view T (Cache c' b') \<and> same T b b' \<and>
    contents_of T (Cache c' b') = contents_of T (Cache c b)
      \<lparr>anchor_roots := (anchor_roots (contents_of T (Cache c b)))(type :=
         (anchor_roots (contents_of T (Cache c b)) type)(tip_anchor (contents_of T (Cache c b)) type := tip_anchor (contents_of T (Cache c b)) type = newrt)),
       tip_anchor := (tip_anchor (contents_of T (Cache c b)))(type := newrt)\<rparr>"
proof -
  let ?v = "contents_of T (Cache c b)"
  obtain r v1 where g: "GetBestAnchor T type (Cache c b) = (r, v1)" by fastforce
  note s = GetBestAnchor_spec [OF g]
  obtain c1 b1 where v1: "v1 = Cache c1 b1" using g by (auto split: if_splits prod.splits)
  have b1: "same T b b1" using g v1 GetBestAnchor_spec [of T type b] by (auto split: if_splits prod.splits)
  have w: "wf_view T (Cache c1 b1)" using s assms(1) v1 by (simp add: same_def)
  have e: "contents_of T (Cache c1 b1) = ?v" using s v1 by (simp add: same_def contents_of_def)
  have r: "r = tip_anchor ?v type" using s by (simp add: contents_of_def)
  show ?thesis
  proof (cases "r = newrt")
    case True
    then have "?v = ?v\<lparr>anchor_roots := (anchor_roots ?v)(type := (anchor_roots ?v type)(tip_anchor ?v type := tip_anchor ?v type = newrt)), tip_anchor := (tip_anchor ?v)(type := newrt)\<rparr>"
      using r assms(3) by (auto simp: contents_of_def fun_eq_iff)
    then show ?thesis using True g v1 w e b1 by (simp add: PopAnchor_def)
  next
    case False
    obtain t v2 where g2: "GetAnchorAt T type r (Cache c1 b1) = (t, v2)" by fastforce
    note s2 = GetAnchorAt_spec [OF g2 w]
    obtain c2 b2 where v2: "v2 = Cache c2 b2" using g2 by (auto split: if_splits prod.splits option.splits)
    have b2: "same T b1 b2" using g2 v2 w GetAnchorAt_spec [of T type r b1] by (auto split: if_splits prod.splits option.splits)
    have w2: "wf_view T (Cache c2 b2)" using s2 w v2 by (simp add: same_def)
    have e2: "contents_of T (Cache c2 b2) = ?v" using s2 v2 e by (simp add: same_def contents_of_def)
    obtain tree where t: "t = Some tree" using s2 s v1 best_found [OF w, of type] by (auto simp only: same_def)
    obtain en where en: "map_of (cacheAnchors c2 type) r = Some en"
      using g2 v2 t by (auto simp: update_conv' split: option.splits if_splits prod.splits)
    let ?c = "c2\<lparr>cacheAnchors := (cacheAnchors c2)(type := AList.map_entry r (\<lambda>e. e\<lparr>a_entered := False, a_dirty := True\<rparr>) (cacheAnchors c2 type)),
        hashAnchor := (hashAnchor c2)(type := newrt)\<rparr>"
    have a: "anchor_at T (Cache ?c b2) = (anchor_at T (Cache c2 b2))(type := (anchor_at T (Cache c2 b2) type)(r := None))"
      using en by (auto simp: fun_eq_iff map_of_map_entry)
    have h: "best_anchor T (Cache ?c b2) = (best_anchor T (Cache c2 b2))(type := newrt)" using assms(2) by (auto simp: fun_eq_iff)
    have o: "coins_at (Cache ?c b2) = coins_at (Cache c2 b2)" "nullifier_at (Cache ?c b2) = nullifier_at (Cache c2 b2)"
      "proofs_at (Cache ?c b2) = proofs_at (Cache c2 b2)" "best_block (Cache ?c b2) = best_block (Cache c2 b2)" by (auto simp: fun_eq_iff)
    have "anchor_at T (Cache c2 b2) type newrt \<noteq> None" using assms(3) unfolding e2 [symmetric] by (simp only: contents_of_def contents.simps not_False_eq_True)
    then have "best_ok T (Cache ?c b2)" unfolding best_ok_def a h using w2 False by (auto simp: best_ok_def)
    moreover have "cache_ok T b2 ?c" using w2 en assms(4) r False by (auto simp: cache_ok_def map_of_map_entry anchor_ok_def split: if_splits)
    moreover have "distinct_keys ?c" using w2 by (simp add: distinct_keys_def distinct_map_entry)
    moreover have "contents_of T (Cache ?c b2) = ?v\<lparr>anchor_roots := (anchor_roots ?v)(type := (anchor_roots ?v type)(tip_anchor ?v type := tip_anchor ?v type = newrt)), tip_anchor := (tip_anchor ?v)(type := newrt)\<rparr>"
      using False unfolding r [symmetric] unfolding e2 [symmetric] unfolding contents_of_def a h o by (auto simp: fun_eq_iff)
    moreover have "PopAnchor T newrt type (c, b) = Some (Cache ?c b2)" using False g v1 g2 v2 t by (simp add: PopAnchor_def)
    moreover have "same T b b2" using b1 b2 by (auto simp: same_def)
    ultimately show ?thesis using w2 by auto
  qed
qed

section \<open>Flushing\<close>

lemma each_shielded_Some:
  "(\<And>type. \<exists>r. f type = Some r \<and> P type r) \<Longrightarrow> \<exists>g. each_shielded f = Some g \<and> (\<forall>type. P type (g type))"
proof -
  assume f: "\<And>type. \<exists>r. f type = Some r \<and> P type r"
  obtain a b c where "f SPROUT = Some a" "P SPROUT a" "f SAPLING = Some b" "P SAPLING b" "f SAPLINGFRONTIER = Some c" "P SAPLINGFRONTIER c"
    using f by metis
  then show ?thesis by (auto simp: each_shielded_def split: ShieldedType.splits)
qed

lemma each_proof_Some: "(\<And>type. \<exists>r. f type = Some r \<and> P type r) \<Longrightarrow> \<exists>g. each_proof f = Some g \<and> (\<forall>type. P type (g type))"
proof -
  assume f: "\<And>type. \<exists>r. f type = Some r \<and> P type r"
  obtain a b where "f OUTPUT = Some a" "P OUTPUT a" "f SPEND = Some b" "P SPEND b" using f by metis
  then show ?thesis by (auto simp: each_proof_def split: ProofType.splits)
qed

text \<open>What the loop leaves under a key.\<close>

definition written :: "('k \<Rightarrow> 'e \<Rightarrow> 'p option \<Rightarrow> 'p option option) \<Rightarrow> ('k \<times> 'e) list \<Rightarrow> ('k \<times> 'p) list \<Rightarrow> ('k \<times> 'p) list \<Rightarrow> bool" where
  "written w m p p' \<longleftrightarrow> (\<forall>k. map_of p' k = (case map_of m k of None \<Rightarrow> map_of p k | Some e \<Rightarrow> the (w k e (map_of p k)))) \<and>
     (distinct (map fst p) \<longrightarrow> distinct (map fst p'))"

lemma write_loop_written:
  "distinct (map fst m) \<Longrightarrow> (\<And>k e. map_of m k = Some e \<Longrightarrow> w k e (map_of p k) \<noteq> None) \<Longrightarrow> \<exists>p'. write_loop w m p = Some p' \<and> written w m p p'"
  using write_loop_spec [of m w p] by (simp add: written_def)

lemma write_each:
  assumes "\<And>type k e r. w type k e r \<noteq> None"
  shows "(\<And>type. distinct (map fst (m type))) \<Longrightarrow> \<exists>g. each_shielded (\<lambda>type. write_loop (w type) (m type) (p type)) = Some g \<and> (\<forall>type. written (w type) (m type) (p type) (g type))"
  by (rule each_shielded_Some [where P = "\<lambda>type. written (w type) (m type) (p type)"], rule write_loop_written) (simp_all only: assms not_False_eq_True)

lemma write_each_proof:
  assumes "\<And>k e r. w k e r \<noteq> None"
  shows "(\<And>type. distinct (map fst (m type))) \<Longrightarrow> \<exists>g. each_proof (\<lambda>type. write_loop w (m type) (p type)) = Some g \<and> (\<forall>type. written w (m type) (p type) (g type))"
  by (rule each_proof_Some [where P = "\<lambda>type. written w (m type) (p type)"], rule write_loop_written) (simp_all only: assms not_False_eq_True)

lemma writes_total [simp]: "write_anchor k a ao \<noteq> None" "write_nullifier k n no \<noteq> None" "write_proof k pr po \<noteq> None" "db_write_coins k e eo \<noteq> None"
  "db_write_anchor T type k a t \<noteq> None" "db_write_nullifier k n x \<noteq> None" "db_write_proof k pr y \<noteq> None"
  by (simp_all add: write_anchor_def write_nullifier_def write_proof_def db_write_coins_def db_write_anchor_def db_write_nullifier_def db_write_proof_def)

lemma write_coins_total: "coins_ok (Cache c b) k e \<Longrightarrow> write_coins k e (map_of (cacheCoins c) k) \<noteq> None"
  by (auto simp: write_coins_def coins_ok_def split: option.splits)

lemma BatchWrite_cache:
  assumes "distinct_keys m" and "cache_ok T (Cache c b) m"
  shows "\<exists>c'. BatchWrite T m (Cache c b) = Some (Cache c' b) \<and> written write_coins (cacheCoins m) (cacheCoins c) (cacheCoins c') \<and>
    (\<forall>type. written write_anchor (cacheAnchors m type) (cacheAnchors c type) (cacheAnchors c' type)) \<and>
    (\<forall>type. written write_nullifier (cacheNullifiers m type) (cacheNullifiers c type) (cacheNullifiers c' type)) \<and>
    (\<forall>type. written write_proof (cacheProofs m type) (cacheProofs c type) (cacheProofs c' type)) \<and> hashBlock c' = hashBlock m \<and> hashAnchor c' = hashAnchor m"
proof -
  have d: "distinct (map fst (cacheCoins m))" "distinct (map fst (cacheAnchors m type))" "distinct (map fst (cacheNullifiers m type))"
    "distinct (map fst (cacheProofs m ptype))" for type ptype using assms(1) by (auto simp: distinct_keys_def)
  obtain cs where 1: "write_loop write_coins (cacheCoins m) (cacheCoins c) = Some cs" "written write_coins (cacheCoins m) (cacheCoins c) cs"
  proof -
    have "write_coins k e (map_of (cacheCoins c) k) \<noteq> None" if "map_of (cacheCoins m) k = Some e" for k e
      using that assms(2) by (intro write_coins_total [of c b]) (simp add: cache_ok_def)
    then show thesis using write_loop_written [OF d(1), of write_coins "cacheCoins c"] that by blast
  qed
  obtain as where 2: "each_shielded (\<lambda>type. write_loop write_anchor (cacheAnchors m type) (cacheAnchors c type)) = Some as"
      "\<And>type. written write_anchor (cacheAnchors m type) (cacheAnchors c type) (as type)"
    using write_each [of "\<lambda>_. write_anchor" "cacheAnchors m" "cacheAnchors c", OF writes_total(1) d(2)] by blast
  obtain ns where 3: "each_shielded (\<lambda>type. write_loop write_nullifier (cacheNullifiers m type) (cacheNullifiers c type)) = Some ns"
      "\<And>type. written write_nullifier (cacheNullifiers m type) (cacheNullifiers c type) (ns type)"
    using write_each [of "\<lambda>_. write_nullifier" "cacheNullifiers m" "cacheNullifiers c", OF writes_total(2) d(3)] by blast
  obtain ps where 4: "each_proof (\<lambda>type. write_loop write_proof (cacheProofs m type) (cacheProofs c type)) = Some ps"
      "\<And>type. written write_proof (cacheProofs m type) (cacheProofs c type) (ps type)"
    using write_each_proof [of write_proof "cacheProofs m" "cacheProofs c", OF writes_total(3) d(4)] by blast
  show ?thesis using 1 2 3 4 by simp
qed

lemma BatchWrite_db:
  assumes "distinct_keys m"
  shows "\<exists>d'. BatchWrite T m (DB d) = Some (DB d') \<and> written db_write_coins (cacheCoins m) (db_coins d) (db_coins d') \<and>
    (\<forall>type. written (db_write_anchor T type) (cacheAnchors m type) (db_anchors d type) (db_anchors d' type)) \<and>
    (\<forall>type. written db_write_nullifier (cacheNullifiers m type) (db_nullifiers d type) (db_nullifiers d' type)) \<and>
    (\<forall>type. written db_write_proof (cacheProofs m type) (db_proofs d type) (db_proofs d' type)) \<and>
    db_best_block d' = (if hashBlock m \<noteq> null_hash then Some (hashBlock m) else db_best_block d) \<and>
    db_best_anchor d' = (\<lambda>type. if hashAnchor m type \<noteq> null_hash then Some (hashAnchor m type) else db_best_anchor d type)"
proof -
  have d: "distinct (map fst (cacheCoins m))" "distinct (map fst (cacheAnchors m type))" "distinct (map fst (cacheNullifiers m type))"
    "distinct (map fst (cacheProofs m ptype))" for type ptype using assms(1) by (auto simp: distinct_keys_def)
  obtain cs where 1: "write_loop db_write_coins (cacheCoins m) (db_coins d) = Some cs" "written db_write_coins (cacheCoins m) (db_coins d) cs"
    using write_loop_written [OF d(1), of db_write_coins "db_coins d"] by auto
  obtain as where 2: "each_shielded (\<lambda>type. write_loop (db_write_anchor T type) (cacheAnchors m type) (db_anchors d type)) = Some as"
      "\<And>type. written (db_write_anchor T type) (cacheAnchors m type) (db_anchors d type) (as type)"
    using write_each [of "db_write_anchor T" "cacheAnchors m" "db_anchors d", OF writes_total(5) d(2)] by blast
  obtain ns where 3: "each_shielded (\<lambda>type. write_loop db_write_nullifier (cacheNullifiers m type) (db_nullifiers d type)) = Some ns"
      "\<And>type. written db_write_nullifier (cacheNullifiers m type) (db_nullifiers d type) (ns type)"
    using write_each [of "\<lambda>_. db_write_nullifier" "cacheNullifiers m" "db_nullifiers d", OF writes_total(6) d(3)] by blast
  obtain ps where 4: "each_proof (\<lambda>type. write_loop db_write_proof (cacheProofs m type) (db_proofs d type)) = Some ps"
      "\<And>type. written db_write_proof (cacheProofs m type) (db_proofs d type) (ps type)"
    using write_each_proof [of db_write_proof "cacheProofs m" "db_proofs d", OF writes_total(7) d(4)] by blast
  show ?thesis using 1 2 3 4 by simp
qed

text \<open>Per key: the parent afterwards answers as the child did, and its entry is in order.\<close>

lemma written_coins:
  assumes "written write_coins (cacheCoins m) (cacheCoins c) (cacheCoins c')"
    and "cache_ok T (Cache c b) m" and "cache_ok T b c"
  shows "unspent (coins_at (Cache c' b) i) = unspent (coins_at (Cache m (Cache c b)) i)"
    and "map_of (cacheCoins c') i = Some e \<Longrightarrow> coins_ok b i e"
proof -
  have m: "map_of (cacheCoins c') i = (case map_of (cacheCoins m) i of None \<Rightarrow> map_of (cacheCoins c) i | Some e \<Rightarrow> the (write_coins i e (map_of (cacheCoins c) i)))"
    using assms(1) by (simp add: written_def)
  have o: "map_of (cacheCoins m) i = Some e \<Longrightarrow> coins_ok (Cache c b) i e" "map_of (cacheCoins c) i = Some e \<Longrightarrow> coins_ok b i e" for e
    using assms(2,3) by (auto simp: cache_ok_def)
  show "unspent (coins_at (Cache c' b) i) = unspent (coins_at (Cache m (Cache c b)) i)"
    using m o by (cases "map_of (cacheCoins m) i"; cases "map_of (cacheCoins c) i") (auto simp: write_coins_def coins_ok_def split: if_splits)
  show "map_of (cacheCoins c') i = Some e \<Longrightarrow> coins_ok b i e"
    using m o by (cases "map_of (cacheCoins m) i"; cases "map_of (cacheCoins c) i") (auto simp: write_coins_def coins_ok_def split: if_splits)
qed

lemma cache_okD:
  "cache_ok T b c \<Longrightarrow> map_of (cacheCoins c) i = Some ce \<Longrightarrow> coins_ok b i ce"
  "cache_ok T b c \<Longrightarrow> map_of (cacheAnchors c type) rt = Some e \<Longrightarrow> anchor_ok T b type rt e"
  "cache_ok T b c \<Longrightarrow> map_of (cacheNullifiers c type) nf = Some n \<Longrightarrow> \<not> n_dirty n \<Longrightarrow> n_entered n = nullifier_at b type nf"
  "cache_ok T b c \<Longrightarrow> map_of (cacheProofs c ptype) h = Some pr \<Longrightarrow> \<not> p_dirty pr \<Longrightarrow> p_txids pr = proofs_at b ptype h"
  by (simp_all add: cache_ok_def)

lemma db_okD:
  "db_ok T d \<Longrightarrow> map_of (db_coins d) i = Some cs \<Longrightarrow> clean cs \<and> \<not> IsPruned cs"
  "db_ok T d \<Longrightarrow> map_of (db_anchors d type) rt = Some t \<Longrightarrow> tree_root T t = rt"
  by (simp_all add: db_ok_def)

lemma writtenD: "written w m p p' \<Longrightarrow> map_of p' k = (case map_of m k of None \<Rightarrow> map_of p k | Some e \<Rightarrow> the (w k e (map_of p k)))"
  by (simp add: written_def)

lemma written_anchors:
  assumes "cache_ok T (Cache c b) m" and "cache_ok T b c" and "written write_anchor (cacheAnchors m type) (cacheAnchors c type) (cacheAnchors c' type)"
  shows "(anchor_at T (Cache c' b) type rt \<noteq> None) = (anchor_at T (Cache m (Cache c b)) type rt \<noteq> None) \<and>
      (map_of (cacheAnchors c' type) rt = Some e \<longrightarrow> anchor_ok T b type rt e)"
  using writtenD [OF assms(3), of rt] cache_okD(2) [OF assms(1), of type rt] cache_okD(2) [OF assms(2), of type rt]
  by (cases "map_of (cacheAnchors m type) rt"; cases "map_of (cacheAnchors c type) rt") (auto simp: write_anchor_def anchor_ok_def split: if_splits)

lemma written_nullifiers:
  assumes "cache_ok T (Cache c b) m" and "cache_ok T b c" and "written write_nullifier (cacheNullifiers m type) (cacheNullifiers c type) (cacheNullifiers c' type)"
  shows "nullifier_at (Cache c' b) type nf = nullifier_at (Cache m (Cache c b)) type nf \<and>
      (map_of (cacheNullifiers c' type) nf = Some e \<longrightarrow> \<not> n_dirty e \<longrightarrow> n_entered e = nullifier_at b type nf)"
proof (cases "map_of (cacheNullifiers m type) nf")
  case None
  then show ?thesis using writtenD [OF assms(3), of nf] cache_okD(3) [OF assms(2), of type nf e] by simp
next
  case m: (Some a)
  note ok = cache_okD(3) [OF assms(1) m]
  show ?thesis
  proof (cases "map_of (cacheNullifiers c type) nf")
    case None
    then show ?thesis using writtenD [OF assms(3), of nf] m ok by (auto simp: write_nullifier_def split: if_splits)
  next
    case c: (Some u)
    then show ?thesis using writtenD [OF assms(3), of nf] m ok cache_okD(3) [OF assms(2) c]
      by (cases "n_dirty a"; cases "n_entered a"; cases "n_entered u") (auto simp: write_nullifier_def)
  qed
qed

lemma written_proofs:
  assumes "cache_ok T (Cache c b) m" and "cache_ok T b c" and "written write_proof (cacheProofs m type) (cacheProofs c type) (cacheProofs c' type)"
  shows "proofs_at (Cache c' b) type h = proofs_at (Cache m (Cache c b)) type h \<and>
      (map_of (cacheProofs c' type) h = Some e \<longrightarrow> \<not> p_dirty e \<longrightarrow> p_txids e = proofs_at b type h)"
proof (cases "map_of (cacheProofs m type) h")
  case None
  then show ?thesis using writtenD [OF assms(3), of h] cache_okD(4) [OF assms(2), of type h e] by simp
next
  case m: (Some a)
  note ok = cache_okD(4) [OF assms(1) m]
  show ?thesis
  proof (cases "map_of (cacheProofs c type) h")
    case None
    then show ?thesis using writtenD [OF assms(3), of h] m ok by (auto simp: write_proof_def split: if_splits)
  next
    case c: (Some u)
    show ?thesis
    proof (cases "p_dirty a")
      case True
      then show ?thesis using writtenD [OF assms(3), of h] m c cache_okD(4) [OF assms(2) c]
        by (cases "p_txids u = p_txids a") (auto simp: write_proof_def)
    next
      case False
      then show ?thesis using writtenD [OF assms(3), of h] m c ok cache_okD(4) [OF assms(2) c] by (auto simp: write_proof_def)
    qed
  qed
qed

lemma written_db:
  assumes "cache_ok T (DB d) m" and "db_ok T d"
  shows "written db_write_coins (cacheCoins m) (db_coins d) (db_coins d') \<Longrightarrow>
      unspent (coins_at (DB d') i) = unspent (coins_at (Cache m (DB d)) i) \<and> (\<forall>cs. map_of (db_coins d') i = Some cs \<longrightarrow> clean cs \<and> \<not> IsPruned cs)"
    and "written (db_write_anchor T type) (cacheAnchors m type) (db_anchors d type) (db_anchors d' type) \<Longrightarrow>
      (anchor_at T (DB d') type rt \<noteq> None) = (anchor_at T (Cache m (DB d)) type rt \<noteq> None) \<and> (\<forall>t. map_of (db_anchors d' type) rt = Some t \<longrightarrow> tree_root T t = rt)"
    and "written db_write_nullifier (cacheNullifiers m type) (db_nullifiers d type) (db_nullifiers d' type) \<Longrightarrow>
      nullifier_at (DB d') type nf = nullifier_at (Cache m (DB d)) type nf"
    and "written db_write_proof (cacheProofs m ptype) (db_proofs d ptype) (db_proofs d' ptype) \<Longrightarrow>
      proofs_at (DB d') ptype h = proofs_at (Cache m (DB d)) ptype h"
proof -
  note o = cache_okD [OF assms(1)] db_okD [OF assms(2)]
  show "written db_write_coins (cacheCoins m) (db_coins d) (db_coins d') \<Longrightarrow>
      unspent (coins_at (DB d') i) = unspent (coins_at (Cache m (DB d)) i) \<and> (\<forall>cs. map_of (db_coins d') i = Some cs \<longrightarrow> clean cs \<and> \<not> IsPruned cs)"
    using o(1) [of i] o(5) [of i] by (cases "map_of (cacheCoins m) i"; cases "map_of (db_coins d) i")
      (auto simp: written_def db_write_coins_def coins_ok_def split: if_splits)
  show "written (db_write_anchor T type) (cacheAnchors m type) (db_anchors d type) (db_anchors d' type) \<Longrightarrow>
      (anchor_at T (DB d') type rt \<noteq> None) = (anchor_at T (Cache m (DB d)) type rt \<noteq> None) \<and> (\<forall>t. map_of (db_anchors d' type) rt = Some t \<longrightarrow> tree_root T t = rt)"
    using o(2) [of type rt] o(6) [of type rt] by (cases "map_of (cacheAnchors m type) rt"; cases "map_of (db_anchors d type) rt")
      (auto simp: written_def db_write_anchor_def anchor_ok_def split: if_splits)
  show "written db_write_nullifier (cacheNullifiers m type) (db_nullifiers d type) (db_nullifiers d' type) \<Longrightarrow>
      nullifier_at (DB d') type nf = nullifier_at (Cache m (DB d)) type nf"
    using o(3) [of type nf] by (cases "map_of (cacheNullifiers m type) nf"; cases "map_of (db_nullifiers d type) nf")
      (auto simp: written_def db_write_nullifier_def split: if_splits)
  show "written db_write_proof (cacheProofs m ptype) (db_proofs d ptype) (db_proofs d' ptype) \<Longrightarrow>
      proofs_at (DB d') ptype h = proofs_at (Cache m (DB d)) ptype h"
    using o(4) [of ptype h] by (cases "map_of (cacheProofs m ptype) h"; cases "map_of (db_proofs d ptype) h")
      (auto simp: written_def db_write_proof_def split: if_splits)
qed

text \<open>A cache that has asked for the best block and the best anchors.\<close>

definition tips_loaded :: "'t cache \<Rightarrow> bool" where
  "tips_loaded c \<longleftrightarrow> hashBlock c \<noteq> null_hash \<and> (\<forall>type. hashAnchor c type \<noteq> null_hash)"

lemma best_ok_contents: "best_ok T v \<longleftrightarrow> (\<forall>type. anchor_roots (contents_of T v) type (tip_anchor (contents_of T v) type))"
  by (simp add: best_ok_def contents_of_def)

lemma BatchWrite_spec:
  assumes "wf_view T (Cache m p)" and "tips_loaded m"
  shows "\<exists>p'. BatchWrite T m p = Some p' \<and> wf_view T p' \<and> contents_of T p' = contents_of T (Cache m p) \<and> tl (stack T p') = tl (stack T p)"
proof (cases p)
  case (Cache c b)
  have w: "cache_ok T (Cache c b) m" "cache_ok T b c" "wf_view T b" "distinct_keys c" "distinct_keys m" "best_ok T (Cache m p)" using assms(1) Cache by simp_all
  obtain c' where c': "BatchWrite T m (Cache c b) = Some (Cache c' b)" "written write_coins (cacheCoins m) (cacheCoins c) (cacheCoins c')"
      "\<forall>type. written write_anchor (cacheAnchors m type) (cacheAnchors c type) (cacheAnchors c' type)"
      "\<forall>type. written write_nullifier (cacheNullifiers m type) (cacheNullifiers c type) (cacheNullifiers c' type)"
      "\<forall>type. written write_proof (cacheProofs m type) (cacheProofs c type) (cacheProofs c' type)" "hashBlock c' = hashBlock m" "hashAnchor c' = hashAnchor m"
    using BatchWrite_cache [OF w(5,1)] by blast
  note o = written_anchors [OF w(1,2)] written_nullifiers [OF w(1,2)] written_proofs [OF w(1,2)]
  have t: "best_block (Cache c' b) = best_block (Cache m p)" "best_anchor T (Cache c' b) = best_anchor T (Cache m p)"
    using assms(2) c'(6,7) by (auto simp: tips_loaded_def fun_eq_iff)
  have e: "contents_of T (Cache c' b) = contents_of T (Cache m p)"
    using written_coins(1) [OF c'(2) w(1,2)] o c'(3-5) t unfolding contents_of_def Cache by (auto simp only: fun_eq_iff contents.simps contents.equality)
  have "cache_ok T b c'" unfolding cache_ok_def using written_coins(2) [OF c'(2) w(1,2)] o c'(3-5) by blast
  moreover have "distinct_keys c'" using c'(2-5) w(4) by (simp add: distinct_keys_def written_def)
  moreover have "best_ok T (Cache c' b)" using w(6) e by (simp add: best_ok_contents)
  ultimately show ?thesis using c'(1) e w(3) Cache by auto
next
  case (DB d)
  have w: "cache_ok T (DB d) m" "db_ok T d" "distinct_keys m" "best_ok T (Cache m p)" using assms(1) DB by simp_all
  obtain d' where d': "BatchWrite T m (DB d) = Some (DB d')" "written db_write_coins (cacheCoins m) (db_coins d) (db_coins d')"
      "\<forall>type. written (db_write_anchor T type) (cacheAnchors m type) (db_anchors d type) (db_anchors d' type)"
      "\<forall>type. written db_write_nullifier (cacheNullifiers m type) (db_nullifiers d type) (db_nullifiers d' type)"
      "\<forall>type. written db_write_proof (cacheProofs m type) (db_proofs d type) (db_proofs d' type)"
      "db_best_block d' = (if hashBlock m \<noteq> null_hash then Some (hashBlock m) else db_best_block d)"
      "db_best_anchor d' = (\<lambda>type. if hashAnchor m type \<noteq> null_hash then Some (hashAnchor m type) else db_best_anchor d type)"
    using BatchWrite_db [OF w(3)] by blast
  note o = written_db [OF w(1,2)]
  have t: "best_block (DB d') = best_block (Cache m p)" "best_anchor T (DB d') = best_anchor T (Cache m p)"
    using assms(2) d'(6,7) by (auto simp: tips_loaded_def fun_eq_iff)
  have e: "contents_of T (DB d') = contents_of T (Cache m p)"
    using o d'(2-5) t unfolding contents_of_def DB by (auto simp only: fun_eq_iff contents.simps contents.equality)
  have "db_ok T d'" unfolding db_ok_def using o(1,2) d'(2,3) by blast
  moreover have "best_ok T (DB d')" using w(4) e by (simp add: best_ok_contents)
  ultimately show ?thesis using d'(1) e DB by auto
qed

section \<open>Caches refine plain copies\<close>

text \<open>The operations of a stack of views, and what each of them does to the views.\<close>

datatype 't view_op =
    LookCoins bytes | LookAnchor ShieldedType bytes | LookNullifier ShieldedType bytes | LookProof ProofType bytes | LookBlock | LookTip ShieldedType
  | Modify bytes "CCoins \<Rightarrow> CCoins" | MarkNullifiers CTransaction bool | Push ShieldedType 't | Pop ShieldedType bytes | BestBlock bytes
  | NewCache | FlushCache | DropCache

definition on_cache :: "('t cache \<times> 't view \<Rightarrow> 't view option) \<Rightarrow> 't view \<Rightarrow> 't view option" where
  "on_cache f v = (case v of Cache c b \<Rightarrow> f (c, b) | DB d \<Rightarrow> None)"

fun apply_op :: "'t trees \<Rightarrow> 't view_op \<Rightarrow> 't view \<Rightarrow> 't view option" where
  "apply_op T (LookCoins i) v = Some (snd (HaveCoins i v))"
| "apply_op T (LookAnchor type rt) v = Some (snd (GetAnchorAt T type rt v))"
| "apply_op T (LookNullifier type nf) v = map_option snd (GetNullifier nf type v)"
| "apply_op T (LookProof type h) v = Some (snd (GetZkProofHash h type v))"
| "apply_op T LookBlock v = Some (snd (GetBestBlock v))"
| "apply_op T (LookTip type) v = Some (snd (GetBestAnchor T type v))"
| "apply_op T (Modify i f) v = on_cache (\<lambda>cb. Some (case snd (ModifyCoins i (\<lambda>cs. ((), f cs)) cb) of (c, b) \<Rightarrow> Cache c b)) v"
| "apply_op T (MarkNullifiers tx x) v = on_cache (\<lambda>(c, b). Some (Cache (SetNullifiers tx x c) b)) v"
| "apply_op T (Push type t) v = on_cache (\<lambda>cb. Some (PushAnchor T type t cb)) v"
| "apply_op T (Pop type rt) v = on_cache (PopAnchor T rt type) v"
| "apply_op T (BestBlock h) v = on_cache (\<lambda>(c, b). Some (Cache (SetBestBlock h c) b)) v"
| "apply_op T NewCache v = Some (Cache CCoinsViewCache_init v)"
| "apply_op T FlushCache v = on_cache (\<lambda>cb. map_option (\<lambda>(c, b). Cache c b) (Flush T cb)) v"
| "apply_op T DropCache v = on_cache (\<lambda>(c, b). Some b) v"

text \<open>
  What the callers see to: only caches are changed, the null hash is never made the best block or anchor, an anchor is replaced by one
  that is known and is not the empty tree's, and a cache that is flushed has asked for the best block and anchors.
\<close>

fun op_allowed :: "'t trees \<Rightarrow> 't view_op \<Rightarrow> 't view \<Rightarrow> bool" where
  "op_allowed T (LookNullifier type nf) v \<longleftrightarrow> type \<noteq> SAPLINGFRONTIER"
| "op_allowed T (Modify i f) (Cache c b) \<longleftrightarrow> True"
| "op_allowed T (MarkNullifiers tx x) (Cache c b) \<longleftrightarrow> True"
| "op_allowed T (Push type t) (Cache c b) \<longleftrightarrow> tree_root T t \<noteq> null_hash"
| "op_allowed T (Pop type rt) (Cache c b) \<longleftrightarrow> rt \<noteq> null_hash \<and> anchor_at T (Cache c b) type rt \<noteq> None \<and>
     (best_anchor T (Cache c b) type = rt \<or> best_anchor T (Cache c b) type \<noteq> empty_root T type)"
| "op_allowed T (BestBlock h) (Cache c b) \<longleftrightarrow> h \<noteq> null_hash"
| "op_allowed T FlushCache (Cache c b) \<longleftrightarrow> tips_loaded c"
| "op_allowed T DropCache (Cache c b) \<longleftrightarrow> True"
| "op_allowed T (LookCoins i) v \<longleftrightarrow> True"
| "op_allowed T (LookAnchor type rt) v \<longleftrightarrow> True"
| "op_allowed T (LookProof ptype h) v \<longleftrightarrow> True"
| "op_allowed T LookBlock v \<longleftrightarrow> True"
| "op_allowed T (LookTip type) v \<longleftrightarrow> True"
| "op_allowed T NewCache v \<longleftrightarrow> True"
| "op_allowed T _ (DB d) \<longleftrightarrow> False"

text \<open>The specification: every view has a copy of its own, and a change is made to the copy on top.\<close>

fun spec_op :: "'t trees \<Rightarrow> 't view_op \<Rightarrow> contents list \<Rightarrow> contents list \<Rightarrow> bool" where
  "spec_op T (Modify i f) (x # xs) ys \<longleftrightarrow>
     (\<exists>cs. clean cs \<and> unspent (Some cs) = utxos x i \<and> ys = x\<lparr>utxos := (utxos x)(i := unspent (Some (Cleanup (f cs))))\<rparr> # xs)"
| "spec_op T (MarkNullifiers tx b) (x # xs) ys \<longleftrightarrow>
     ys = x\<lparr>spent_nullifiers := (\<lambda>type nf. if nf \<in> tx_nullifiers tx type then b else spent_nullifiers x type nf)\<rparr> # xs"
| "spec_op T (Push type t) (x # xs) ys \<longleftrightarrow>
     ys = x\<lparr>anchor_roots := (anchor_roots x)(type := (anchor_roots x type)(tree_root T t := True)), tip_anchor := (tip_anchor x)(type := tree_root T t)\<rparr> # xs"
| "spec_op T (Pop type rt) (x # xs) ys \<longleftrightarrow>
     ys = x\<lparr>anchor_roots := (anchor_roots x)(type := (anchor_roots x type)(tip_anchor x type := tip_anchor x type = rt)),
            tip_anchor := (tip_anchor x)(type := rt)\<rparr> # xs"
| "spec_op T (BestBlock h) (x # xs) ys \<longleftrightarrow> ys = x\<lparr>tip_block := h\<rparr> # xs"
| "spec_op T NewCache (x # xs) ys \<longleftrightarrow> ys = x # x # xs"
| "spec_op T FlushCache (x # y # xs) ys \<longleftrightarrow> ys = x # x # xs"
| "spec_op T DropCache (x # xs) ys \<longleftrightarrow> ys = xs"
| "spec_op T _ xs ys \<longleftrightarrow> ys = xs"

lemma stack_hd: "stack T v = contents_of T v # tl (stack T v)"
  by (cases v) simp_all

lemma same_step: "same T v v' \<Longrightarrow> wf_view T v \<Longrightarrow> wf_view T v' \<and> stack T v' = stack T v"
  by (simp add: same_def)

text \<open>The contract of a lookup: it answers from the view and keeps the contents of every view, whatever it brings into the caches.\<close>

locale view_lookup =
  fixes T :: "'t trees" and look :: "'t view \<Rightarrow> 'r \<times> 't view" and answer :: "'t view \<Rightarrow> 'r"
  assumes looked: "wf_view T v \<Longrightarrow> look v = (r, v') \<Longrightarrow> r = answer v \<and> same T v v'"
begin

lemma answered: "wf_view T v \<Longrightarrow> fst (look v) = answer v"
  using looked [OF _ prod.collapse [symmetric]] by blast

lemma kept: "wf_view T v \<Longrightarrow> wf_view T (snd (look v)) \<and> stack T (snd (look v)) = stack T v"
  using looked [OF _ prod.collapse [symmetric]] same_step by blast

end

interpretation getcoins: view_lookup T "GetCoins i" "\<lambda>v. coins_at v i" for T i
  by unfold_locales (use GetCoins_spec in blast)

interpretation havecoins: view_lookup T "HaveCoins i" "\<lambda>v. unspent (coins_at v i) \<noteq> None" for T i
  by unfold_locales (use HaveCoins_spec in blast)

interpretation anchorat: view_lookup T "GetAnchorAt T type rt" "\<lambda>v. anchor_at T v type rt" for T type rt
  by unfold_locales (use GetAnchorAt_spec in blast)

interpretation nullifier: view_lookup T "nullifier_lookup type nf" "\<lambda>v. nullifier_at v type nf" for T type nf
  by unfold_locales (use nullifier_lookup_spec in blast)

interpretation proofhash: view_lookup T "GetZkProofHash h type" "\<lambda>v. proofs_at v type h" for T h type
  by unfold_locales (use GetZkProofHash_spec in blast)

interpretation bestblock: view_lookup T GetBestBlock best_block for T
  by unfold_locales (use GetBestBlock_spec in blast)

interpretation bestanchor: view_lookup T "GetBestAnchor T type" "\<lambda>v. best_anchor T v type" for T type
  by unfold_locales (use GetBestAnchor_spec in blast)

lemmas lookups_kept = getcoins.kept havecoins.kept anchorat.kept nullifier.kept proofhash.kept bestblock.kept bestanchor.kept

lemma wf_new: "wf_view T v \<Longrightarrow> wf_view T (Cache CCoinsViewCache_init v) \<and> contents_of T (Cache CCoinsViewCache_init v) = contents_of T v"
proof -
  assume w: "wf_view T v"
  have e: "contents_of T (Cache CCoinsViewCache_init v) = contents_of T v"
    by (auto simp: contents_of_def CCoinsViewCache_init_def fun_eq_iff)
  have "best_ok T v" using w by (cases v) simp_all
  then have "best_ok T (Cache CCoinsViewCache_init v)" using e by (simp add: best_ok_contents)
  then show ?thesis using w e by (simp add: cache_ok_def distinct_keys_def CCoinsViewCache_init_def)
qed

lemma Flush_spec:
  assumes "wf_view T (Cache m p)" and "tips_loaded m"
  shows "\<exists>c' p'. Flush T (m, p) = Some (c', p') \<and> wf_view T (Cache c' p') \<and> contents_of T (Cache c' p') = contents_of T (Cache m p) \<and>
    stack T p' = contents_of T (Cache m p) # tl (stack T p)"
proof -
  obtain p' where p': "BatchWrite T m p = Some p'" "wf_view T p'" "contents_of T p' = contents_of T (Cache m p)" "tl (stack T p') = tl (stack T p)"
    using BatchWrite_spec [OF assms] by blast
  let ?c = "m\<lparr>cacheCoins := [], cacheAnchors := (\<lambda>_. []), cacheNullifiers := (\<lambda>_. []), cacheProofs := (\<lambda>_. [])\<rparr>"
  have t: "best_block (Cache ?c p') = best_block (Cache m p)" "best_anchor T (Cache ?c p') = best_anchor T (Cache m p)"
    using assms(2) by (auto simp: tips_loaded_def fun_eq_iff)
  have o: "coins_at (Cache ?c p') = coins_at p'" "anchor_at T (Cache ?c p') = anchor_at T p'" "nullifier_at (Cache ?c p') = nullifier_at p'" "proofs_at (Cache ?c p') = proofs_at p'"
    by (auto simp: fun_eq_iff)
  have "contents_of T (Cache ?c p') = contents_of T p'\<lparr>tip_block := tip_block (contents_of T (Cache m p)), tip_anchor := tip_anchor (contents_of T (Cache m p))\<rparr>"
    unfolding contents_of_def o t by simp
  then have e: "contents_of T (Cache ?c p') = contents_of T (Cache m p)" using p'(3) by simp
  then have "best_ok T (Cache ?c p')" using assms(1) by (simp add: best_ok_contents)
  then have "wf_view T (Cache ?c p')" using p'(2) by (simp add: cache_ok_def distinct_keys_def)
  moreover have "stack T p' = contents_of T (Cache m p) # tl (stack T p)" using p'(3,4) stack_hd [of T p'] by simp
  ultimately show ?thesis using p'(1) e by (simp add: Flush_def)
qed

lemma SetBestBlock_spec: "wf_view T (Cache c b) \<Longrightarrow> h \<noteq> null_hash \<Longrightarrow>
  wf_view T (Cache (SetBestBlock h c) b) \<and> contents_of T (Cache (SetBestBlock h c) b) = contents_of T (Cache c b)\<lparr>tip_block := h\<rparr>"
proof -
  assume w: "wf_view T (Cache c b)" and h: "h \<noteq> null_hash"
  have o: "coins_at (Cache (SetBestBlock h c) b) = coins_at (Cache c b)" "anchor_at T (Cache (SetBestBlock h c) b) = anchor_at T (Cache c b)"
    "nullifier_at (Cache (SetBestBlock h c) b) = nullifier_at (Cache c b)" "proofs_at (Cache (SetBestBlock h c) b) = proofs_at (Cache c b)"
    "best_anchor T (Cache (SetBestBlock h c) b) = best_anchor T (Cache c b)" "best_block (Cache (SetBestBlock h c) b) = h"
    using h by (auto simp: fun_eq_iff SetBestBlock_def)
  show ?thesis using w h by (simp add: contents_of_def o best_ok_def) (simp add: SetBestBlock_def distinct_keys_update)
qed

lemma refine_step:
  assumes "wf_view T v" and "op_allowed T op v"
  shows "\<exists>v'. apply_op T op v = Some v' \<and> wf_view T v' \<and> spec_op T op (stack T v) (stack T v')"
proof (cases op)
  case (LookCoins i)
  then show ?thesis using havecoins.kept [OF assms(1)] by simp
next
  case (LookAnchor type rt)
  then show ?thesis using anchorat.kept [OF assms(1)] by simp
next
  case (LookNullifier type nf)
  then show ?thesis using nullifier.kept [OF assms(1)] assms(2) by (simp add: GetNullifier_def)
next
  case (LookProof type h)
  then show ?thesis using proofhash.kept [OF assms(1)] by simp
next
  case LookBlock
  then show ?thesis using bestblock.kept [OF assms(1)] by simp
next
  case (LookTip type)
  then show ?thesis using bestanchor.kept [OF assms(1)] by simp
next
  case (Modify i f)
  obtain c b where v: "v = Cache c b" using assms(2) Modify by (cases v) auto
  obtain r c' b' where m: "ModifyCoins i (\<lambda>cs. ((), f cs)) (c, b) = (r, c', b')" by (metis prod.collapse)
  show ?thesis using ModifyCoins_spec [OF _ m, of T] assms(1) v Modify m by (auto simp: on_cache_def same_def)
next
  case (MarkNullifiers tx x)
  obtain c b where v: "v = Cache c b" using assms(2) MarkNullifiers by (cases v) auto
  show ?thesis using SetNullifiers_spec [of T c b tx x] assms(1) v MarkNullifiers by (auto simp: on_cache_def)
next
  case (Push type t)
  obtain c b where v: "v = Cache c b" using assms(2) Push by (cases v) auto
  show ?thesis using PushAnchor_spec [of T c b t type] assms v Push by (auto simp: on_cache_def same_def)
next
  case (Pop type rt)
  obtain c b where v: "v = Cache c b" using assms(2) Pop by (cases v) auto
  have "rt \<noteq> null_hash" "anchor_roots (contents_of T (Cache c b)) type rt"
    "tip_anchor (contents_of T (Cache c b)) type = rt \<or> tip_anchor (contents_of T (Cache c b)) type \<noteq> empty_root T type"
    using assms(2) v Pop by (simp_all add: contents_of_def)
  then show ?thesis using PopAnchor_spec [of T c b rt type] assms(1) v Pop by (auto simp: on_cache_def same_def)
next
  case (BestBlock h)
  obtain c b where v: "v = Cache c b" using assms(2) BestBlock by (cases v) auto
  show ?thesis using SetBestBlock_spec [of T c b h] assms v BestBlock by (auto simp: on_cache_def)
next
  case NewCache
  obtain xs where "stack T v = contents_of T v # xs" using stack_hd [of T v] by blast
  then show ?thesis using wf_new [OF assms(1)] NewCache by simp
next
  case FlushCache
  obtain c b where v: "v = Cache c b" using assms(2) FlushCache by (cases v) auto
  obtain c' b' where f: "Flush T (c, b) = Some (c', b')" "wf_view T (Cache c' b')" "contents_of T (Cache c' b') = contents_of T (Cache c b)"
      "stack T b' = contents_of T (Cache c b) # tl (stack T b)"
    using Flush_spec [of T c b] assms v FlushCache by auto
  moreover obtain xs where "stack T b = contents_of T b # xs" using stack_hd [of T b] by blast
  ultimately show ?thesis using v FlushCache by (simp add: on_cache_def)
next
  case DropCache
  obtain c b where v: "v = Cache c b" using assms(2) DropCache by (cases v) auto
  then show ?thesis using assms(1) DropCache by (simp add: on_cache_def)
qed

text \<open>Sequences of operations.\<close>

fun run_ops :: "'t trees \<Rightarrow> 't view_op list \<Rightarrow> 't view \<Rightarrow> 't view option" where
  "run_ops T [] v = Some v"
| "run_ops T (op # ops) v = do { v' \<leftarrow> apply_op T op v; run_ops T ops v' }"

fun run_allowed :: "'t trees \<Rightarrow> 't view_op list \<Rightarrow> 't view \<Rightarrow> bool" where
  "run_allowed T [] v \<longleftrightarrow> True"
| "run_allowed T (op # ops) v \<longleftrightarrow> op_allowed T op v \<and> (case apply_op T op v of Some v' \<Rightarrow> run_allowed T ops v' | None \<Rightarrow> True)"

fun spec_run :: "'t trees \<Rightarrow> 't view_op list \<Rightarrow> contents list \<Rightarrow> contents list \<Rightarrow> bool" where
  "spec_run T [] xs ys \<longleftrightarrow> ys = xs"
| "spec_run T (op # ops) xs ys \<longleftrightarrow> (\<exists>zs. spec_op T op xs zs \<and> spec_run T ops zs ys)"

text \<open>
  C12: A well-formed stack of caches over the database behaves as if every view had a full copy of its own. In every sequence of lookups, changes
  of coins, nullifiers, anchors and the best block, new caches, flushes and dropped caches that the callers may make (\<open>op_allowed\<close>: no null roots or hashes, an anchor
  goes back to a known one, a flushed cache has loaded its best block and anchors) no assertion of the code fails, in particular the one on fresh entries when a cache is
  written to its base; lookups leave every view as it is; a change changes the top view alone; and flushing makes the
  view below equal to the one above.
\<close>

theorem coins_views_refine:
  assumes "wf_view T v" and "run_allowed T ops v"
  shows "\<exists>v'. run_ops T ops v = Some v' \<and> wf_view T v' \<and> spec_run T ops (stack T v) (stack T v')"
  using assms
proof (induction ops arbitrary: v)
  case (Cons op ops)
  obtain v1 where v1: "apply_op T op v = Some v1" "wf_view T v1" "spec_op T op (stack T v) (stack T v1)"
    using refine_step [OF Cons(2)] Cons(3) by auto
  then obtain v2 where "run_ops T ops v1 = Some v2" "wf_view T v2" "spec_run T ops (stack T v1) (stack T v2)"
    using Cons(1) [of v1] Cons(3) by auto
  then show ?case using v1 by auto
qed simp

text \<open>
  C32: Every lookup in a view answers from its contents, whatever is cached where, and changes no view: \<open>GetCoins\<close> gives the unspent
  outputs, \<open>HaveCoins\<close>, which only tests that there are outputs, tells whether any is unspent, and the anchors, nullifiers, proofs,
  best block and best anchors are those of the view.
\<close>

theorem view_lookups:
  assumes "wf_view T v"
  shows "unspent (fst (GetCoins i v)) = utxos (contents_of T v) i \<and> fst (HaveCoins i v) = (utxos (contents_of T v) i \<noteq> None) \<and>
    (fst (GetAnchorAt T type rt v) \<noteq> None) = anchor_roots (contents_of T v) type rt \<and>
    fst (nullifier_lookup type nf v) = spent_nullifiers (contents_of T v) type nf \<and> fst (GetZkProofHash h ptype v) = used_proofs (contents_of T v) ptype h \<and>
    fst (GetBestBlock v) = tip_block (contents_of T v) \<and> fst (GetBestAnchor T type v) = tip_anchor (contents_of T v) type \<and>
    list_all (\<lambda>v'. wf_view T v' \<and> stack T v' = stack T v)
      [snd (GetCoins i v), snd (HaveCoins i v), snd (GetAnchorAt T type rt v), snd (nullifier_lookup type nf v), snd (GetZkProofHash h ptype v),
       snd (GetBestBlock v), snd (GetBestAnchor T type v)]"
proof -
  note a = getcoins.answered [OF assms] havecoins.answered [OF assms] anchorat.answered [OF assms] nullifier.answered [OF assms] proofhash.answered [OF assms]
    bestblock.answered [OF assms] bestanchor.answered [OF assms]
  show ?thesis by (simp only: a lookups_kept [OF assms] contents_of_def contents.simps list.pred_inject simp_thms)
qed


text \<open>
  C33: The table of the proofs seen does not follow the views below. Marking or unmarking the proof of a transaction in a cache that has no entry for it
  starts from the empty set, so the view then holds no other transaction with the same proof, whatever the views below have
  recorded: after a disconnected block the proof of a transaction that is still in the chain counts as never seen.
\<close>

theorem SetZkProofHashes_forgets:
  assumes "vShieldedSpend tx = [sp]" and "vShieldedOutput tx = []" and "map_of (cacheProofs c SPEND) (ProofHash (sp_zkproof sp)) = None"
  shows "fst (GetZkProofHash (ProofHash (sp_zkproof sp)) SPEND (Cache (SetZkProofHashes tx False c) b)) = {} \<and>
    fst (GetZkProofHash (ProofHash (sp_zkproof sp)) SPEND (Cache (SetZkProofHashes tx True c) b)) = {(txid tx, 0)}"
  using assms by (simp add: SetZkProofHashes_def set_proof_def Let_def update_conv)

section \<open>Instances\<close>

lemma short_hash [simp]: "[x] \<noteq> null_hash" "null_hash \<noteq> [x]"
  by (auto dest: arg_cong [where f = length])

definition sample_trees :: "bytes trees" where
  "sample_trees = \<lparr>tree_root = (\<lambda>t. t), empty_tree = (\<lambda>_. [1])\<rparr>"

definition sample_coins :: CCoins where
  "sample_coins = \<lparr>fCoinBase = False, coins_vout = [\<lparr>nValue = 50, txout_script = [0x51]\<rparr>], coins_nHeight = 5, coins_nVersion = 1\<rparr>"

definition sample_db :: "bytes coins_db" where
  "sample_db = \<lparr>db_coins = [([7], sample_coins)], db_anchors = (\<lambda>_. []), db_nullifiers = (\<lambda>_. []), db_proofs = (\<lambda>_. []),
     db_best_block = Some [9], db_best_anchor = (\<lambda>_. None)\<rparr>"

definition sample_view :: "bytes view" where
  "sample_view = Cache CCoinsViewCache_init (DB sample_db)"

lemmas sample_defs = sample_view_def sample_db_def sample_trees_def sample_coins_def CCoinsViewCache_init_def empty_root_def

lemma sample_wf: "wf_view sample_trees sample_view"
  by (auto simp: sample_defs db_ok_def best_ok_def distinct_keys_def cache_ok_def clean_def IsPruned_def CTxOut_IsNull_def)

definition sample_ops :: "bytes view_op list" where
  "sample_ops = [NewCache, Modify [7] (\<lambda>_. CCoins_Clear), Push SAPLING [5], LookBlock, LookTip SPROUT, LookTip SAPLINGFRONTIER, FlushCache]"

theorem coins_views_refine_witness:
  "\<exists>v. run_ops sample_trees sample_ops sample_view = Some v \<and> wf_view sample_trees v \<and> hd (tl (stack sample_trees v)) = hd (stack sample_trees v)"
proof -
  have all: "(\<forall>type. P type) \<longleftrightarrow> P SPROUT \<and> P SAPLING \<and> P SAPLINGFRONTIER" for P by (metis ShieldedType.exhaust)
  have "run_allowed sample_trees sample_ops sample_view"
    by (simp add: sample_ops_def sample_defs on_cache_def ModifyCoins_def PushAnchor_def tips_loaded_def Let_def IsPruned_def CTxOut_IsNull_def
        cache_coins_def CCoins_Clear_def Cleanup_def all split: option.split)
  from coins_views_refine [OF sample_wf this] obtain v where v: "run_ops sample_trees sample_ops sample_view = Some v" "wf_view sample_trees v"
      "spec_run sample_trees sample_ops (stack sample_trees sample_view) (stack sample_trees v)" by blast
  then have "hd (tl (stack sample_trees v)) = hd (stack sample_trees v)" by (auto simp: sample_ops_def sample_view_def)
  with v(1,2) show ?thesis by blast
qed

theorem view_lookups_witness:
  "fst (HaveCoins [7] sample_view) \<and> fst (GetBestBlock sample_view) = [9] \<and> fst (GetBestAnchor sample_trees SAPLING sample_view) = [1] \<and>
   wf_view sample_trees (snd (GetCoins [7] sample_view))"
  using view_lookups [OF sample_wf, of "[7]" SAPLING "[1]" "[]" "[]" SPEND]
  by (simp add: contents_of_def del: GetCoins.simps HaveCoins.simps GetBestBlock.simps GetBestAnchor.simps)
    (simp add: sample_defs IsPruned_def CTxOut_IsNull_def del: GetCoins.simps HaveCoins.simps GetBestBlock.simps GetBestAnchor.simps)

definition twin_spend :: SpendDescription where
  "twin_spend = \<lparr>sp_cv = [], sp_anchor = [], sp_nullifier = [], rk = [], sp_zkproof = [], spendAuthSig = []\<rparr>"

definition twin_tx :: "bytes \<Rightarrow> CTransaction" where
  "twin_tx i = CMutableTransaction.extend (CMutableTransaction_init\<lparr>vShieldedSpend := [twin_spend]\<rparr>) \<lparr>txid = i\<rparr>"

theorem SetZkProofHashes_forgets_witness:
  "let below = DB (sample_db\<lparr>db_proofs := (\<lambda>_. [(ProofHash [], {([3], 0), ([4], 0)})])\<rparr>)
   in fst (GetZkProofHash (ProofHash []) SPEND below) = {([3], 0), ([4], 0)} \<and>
      fst (GetZkProofHash (ProofHash []) SPEND (Cache (SetZkProofHashes (twin_tx [4]) False CCoinsViewCache_init) below)) = {}"
  using SetZkProofHashes_forgets [of "twin_tx [4]" twin_spend CCoinsViewCache_init "DB (sample_db\<lparr>db_proofs := (\<lambda>_. [(ProofHash [], {([3], 0), ([4], 0)})])\<rparr>)"]
  by (simp add: twin_tx_def twin_spend_def CMutableTransaction_init_def CMutableTransaction.defs CCoinsViewCache_init_def)

end
