(* ===== verification/ConnectCoins.thy ===== *)
theory ConnectCoins
  imports CoinsCache
begin

text \<open>
  Connecting the transactions of a block to a view of the coins and disconnecting them, after \<^verbatim>\<open>UpdateCoins\<close>, \<^verbatim>\<open>ApplyTxInUndo\<close> and the
  parts of \<^verbatim>\<open>ConnectBlock\<close> and \<^verbatim>\<open>DisconnectBlock\<close> of \<^verbatim>\<open>src/src/main.cpp\<close> that change the view, the undo records of
  \<^verbatim>\<open>src/src/undo.h\<close> and the tombstones of \<^verbatim>\<open>src/src/importcoin.cpp\<close>. The checks of a block, its files and the address index are not
  modelled. Positions of outputs are natural numbers: \<^verbatim>\<open>out.n+1\<close> wraps only for the position \<open>2 ^ 32 - 1\<close>, which no list of outputs
  reaches. The appending of commitments to a tree is a parameter, the record \<open>appends\<close>.
\<close>

section \<open>Undo records\<close>

type_synonym 't cached = "'t cache \<times> 't view"

record CTxInUndo =
  undo_txout :: CTxOut
  undo_fCoinBase :: bool
  undo_nHeight :: u32
  undo_nVersion :: int

definition CTxInUndo_init :: "CTxOut \<Rightarrow> CTxInUndo" where
  "CTxInUndo_init out = \<lparr>undo_txout = out, undo_fCoinBase = False, undo_nHeight = 0, undo_nVersion = 0\<rparr>"

text \<open>Spending one output: the record, or nothing when the output is not there, which the code asserts.\<close>

definition spend_coin :: "nat \<Rightarrow> CCoins \<Rightarrow> CTxInUndo option \<times> CCoins" where
  "spend_coin nPos cs =
     (if length (coins_vout cs) \<le> nPos \<or> CTxOut_IsNull (coins_vout cs ! nPos) then (None, cs)
      else let undo = CTxInUndo_init (coins_vout cs ! nPos); cs' = snd (Spend nPos cs)
           in (Some (if coins_vout cs' = []
                     then undo\<lparr>undo_nHeight := word_of_int (coins_nHeight cs'), undo_fCoinBase := fCoinBase cs', undo_nVersion := coins_nVersion cs'\<rparr>
                     else undo), cs'))"

definition spend_input :: "CTxIn \<Rightarrow> 't cached \<Rightarrow> (CTxInUndo \<times> 't cached) option" where
  "spend_input txin cb =
     (case ModifyCoins (outp_hash (prevout txin)) (spend_coin (unat (outp_n (prevout txin)))) cb of
        (undo, cb') \<Rightarrow> map_option (\<lambda>u. (u, cb')) undo)"

fun spend_inputs :: "CTxIn list \<Rightarrow> 't cached \<Rightarrow> (CTxInUndo list \<times> 't cached) option" where
  "spend_inputs [] cb = Some ([], cb)"
| "spend_inputs (txin # ins) cb = do {
     (undo, cb) \<leftarrow> spend_input txin cb;
     (undos, cb) \<leftarrow> spend_inputs ins cb;
     Some (undo # undos, cb)
   }"

definition modify_coins :: "bytes \<Rightarrow> (CCoins \<Rightarrow> CCoins) \<Rightarrow> 't cached \<Rightarrow> 't cached" where
  "modify_coins i f cb = snd (ModifyCoins i (\<lambda>cs. ((), f cs)) cb)"

definition burn_hash :: "'a CMutableTransaction_scheme \<Rightarrow> bytes" where
  "burn_hash tx = outp_hash (prevout (vin tx ! 0))"

definition AddImportTombstone :: "'a CMutableTransaction_scheme \<Rightarrow> int \<Rightarrow> 't cached \<Rightarrow> 't cached" where
  "AddImportTombstone importTx nHeight = modify_coins (burn_hash importTx)
     (\<lambda>cs. cs\<lparr>coins_nHeight := nHeight, coins_nVersion := 4, coins_vout := coins_vout cs @ [\<lparr>nValue = 0, txout_script = [0]\<rparr>]\<rparr>)"

definition RemoveImportTombstone :: "'a CMutableTransaction_scheme \<Rightarrow> 't cached \<Rightarrow> 't cached" where
  "RemoveImportTombstone importTx = modify_coins (burn_hash importTx) (\<lambda>_. CCoins_Clear)"

definition ExistsImportTombstone :: "'a CMutableTransaction_scheme \<Rightarrow> 't view \<Rightarrow> bool \<times> 't view" where
  "ExistsImportTombstone importTx v = HaveCoins (burn_hash importTx) v"

definition UpdateCoins :: "CTransaction \<Rightarrow> int \<Rightarrow> 't cached \<Rightarrow> (CTxInUndo list \<times> 't cached) option" where
  "UpdateCoins tx nHeight cb = do {
     (vprevout, cb) \<leftarrow> (if \<not> IsMint tx then spend_inputs (vin tx) cb else Some ([], cb));
     let cb = map_prod (SetZkProofHashes tx True \<circ> SetNullifiers tx True) id cb;
     let cb = modify_coins (txid tx) (\<lambda>_. FromTx tx nHeight) cb;
     Some (vprevout, if tx_IsCoinImport tx then AddImportTombstone tx nHeight cb else cb)
   }"

section \<open>Undoing\<close>

definition resize_vout :: "CTxOut list \<Rightarrow> nat \<Rightarrow> CTxOut list" where
  "resize_vout outs n = (if length outs < n then outs @ replicate (n - length outs) CTxOut_SetNull else outs)"

definition undo_coin :: "CTxInUndo \<Rightarrow> nat \<Rightarrow> CCoins \<Rightarrow> bool \<times> CCoins" where
  "undo_coin undo n cs =
     (let (fClean, cs1) = (if undo_nHeight undo \<noteq> 0
                           then (IsPruned cs, CCoins_Clear\<lparr>fCoinBase := undo_fCoinBase undo, coins_nHeight := sint (undo_nHeight undo),
                                   coins_nVersion := undo_nVersion undo\<rparr>)
                           else (\<not> IsPruned cs, cs))
      in (fClean \<and> \<not> IsAvailable cs1 n, cs1\<lparr>coins_vout := (resize_vout (coins_vout cs1) (n + 1))[n := undo_txout undo]\<rparr>))"

definition ApplyTxInUndo :: "CTxInUndo \<Rightarrow> COutPoint \<Rightarrow> 't cached \<Rightarrow> bool \<times> 't cached" where
  "ApplyTxInUndo undo out = ModifyCoins (outp_hash out) (undo_coin undo (unat (outp_n out)))"

text \<open>The inputs are restored from the last to the first.\<close>

fun undo_inputs :: "CTxIn list \<Rightarrow> CTxInUndo list \<Rightarrow> 't cached \<Rightarrow> bool \<times> 't cached" where
  "undo_inputs (txin # ins) (undo # undos) cb =
     (case undo_inputs ins undos cb of
        (fClean, cb) \<Rightarrow> (case ApplyTxInUndo undo (prevout txin) cb of (ok, cb) \<Rightarrow> (fClean \<and> ok, cb)))"
| "undo_inputs _ _ cb = (True, cb)"

definition remove_outputs :: "CTransaction \<Rightarrow> int \<Rightarrow> 't cached \<Rightarrow> bool \<times> 't cached" where
  "remove_outputs tx nHeight = ModifyCoins (txid tx)
     (\<lambda>cs. let outs = ClearUnspendable cs; outsBlock = FromTx tx nHeight;
                outs = (if coins_nVersion outsBlock < 0 then outs\<lparr>coins_nVersion := coins_nVersion outsBlock\<rparr> else outs)
            in (CCoins_eq outs outsBlock, CCoins_Clear))"

text \<open>One transaction of \<open>DisconnectBlock\<close>: nothing when the undo data are inconsistent, or whether they were clean.\<close>

definition disconnect_tx :: "CTransaction \<Rightarrow> CTxInUndo list \<Rightarrow> int \<Rightarrow> 't cached \<Rightarrow> (bool \<times> 't cached) option" where
  "disconnect_tx tx vprevout nHeight cb =
     (case remove_outputs tx nHeight cb of
        (fClean, cb) \<Rightarrow>
          let cb = map_prod (SetZkProofHashes tx False \<circ> SetNullifiers tx False) id cb
          in if \<not> IsMint tx
             then if length vprevout \<noteq> length (vin tx) then None
                  else case undo_inputs (vin tx) vprevout cb of (ok, cb) \<Rightarrow> Some (fClean \<and> ok, cb)
             else Some (fClean, if tx_IsCoinImport tx then RemoveImportTombstone tx cb else cb))"

section \<open>Spending and restoring an output\<close>

text \<open>Coins as transactions create them: spent outputs are null in every field, and the height is that of a block after the first.\<close>

definition tidy :: "CCoins \<Rightarrow> bool" where
  "tidy cs \<longleftrightarrow> list_all (\<lambda>out. CTxOut_IsNull out \<longrightarrow> out = CTxOut_SetNull) (coins_vout cs) \<and> 0 < coins_nHeight cs \<and> coins_nHeight cs < 2 ^ 31"

lemma drop_null_pad:
  "list_all (\<lambda>out. CTxOut_IsNull out \<longrightarrow> out = CTxOut_SetNull) xs \<Longrightarrow>
   drop_null xs @ replicate (length xs - length (drop_null xs)) CTxOut_SetNull = xs \<and> length (drop_null xs) \<le> length xs"
proof (induction xs rule: rev_induct)
  case (snoc x xs)
  have r: "replicate (Suc k) CTxOut_SetNull = replicate k CTxOut_SetNull @ [CTxOut_SetNull]" for k by (simp add: replicate_append_same)
  show ?case using snoc by (auto simp: Suc_diff_le r simp del: replicate.simps(2) simp flip: append_assoc)
qed simp

lemma drop_null_last: "n < length xs \<Longrightarrow> \<not> CTxOut_IsNull (xs ! n) \<Longrightarrow> n < length (drop_null xs)"
  by (induction xs rule: rev_induct) (auto simp: nth_append less_Suc_eq split: if_splits)

lemma restore_vout:
  assumes "clean cs" and "tidy cs" and "IsAvailable cs n"
  defines "ys \<equiv> drop_null ((coins_vout cs)[n := CTxOut_SetNull])"
  shows "(resize_vout ys (n + 1))[n := coins_vout cs ! n] = coins_vout cs"
proof -
  let ?xs = "coins_vout cs" and ?zs = "(coins_vout cs)[n := CTxOut_SetNull]"
  have n: "n < length ?xs" "\<not> CTxOut_IsNull (?xs ! n)" using assms(3) by (auto simp: IsAvailable_def)
  have "list_all (\<lambda>out. CTxOut_IsNull out \<longrightarrow> out = CTxOut_SetNull) ?zs"
    using assms(2) set_update_subset_insert [of ?xs n CTxOut_SetNull] by (auto simp: tidy_def list_all_iff)
  note p = drop_null_pad [OF this]
  have "resize_vout ys (n + 1) = ?zs"
  proof (cases "n + 1 = length ?xs")
    case True
    then show ?thesis using p by (auto simp: ys_def resize_vout_def)
  next
    case False
    then have "n \<noteq> length ?xs - 1" "?xs \<noteq> []" using n by auto
    then have l: "last ?zs = last ?xs" "?zs \<noteq> []" by (simp_all add: last_list_update)
    then have "ys = ?zs" unfolding ys_def using assms(1) n by (intro drop_null_same) (auto simp: clean_def)
    then show ?thesis using n by (auto simp: resize_vout_def)
  qed
  then show ?thesis using n by simp
qed

lemma set_drop_null: "set (drop_null xs) \<subseteq> set xs"
  unfolding drop_null_def by (auto dest: set_dropWhileD)

lemma length_drop_null: "length (drop_null xs) \<le> length xs"
  using length_dropWhile_le [of CTxOut_IsNull "rev xs"] by (simp add: drop_null_def)

lemma nth_drop_null: "n < length (drop_null xs) \<Longrightarrow> drop_null xs ! n = xs ! n"
proof (induction xs rule: rev_induct)
  case (snoc x xs)
  then show ?case using length_drop_null [of xs] by (auto simp: nth_append split: if_splits)
qed simp

lemma Spend_available: "IsAvailable cs n \<Longrightarrow> snd (Spend n cs) = cs\<lparr>coins_vout := drop_null ((coins_vout cs)[n := CTxOut_SetNull])\<rparr>"
  by (auto simp: Spend_def IsAvailable_def Cleanup_def)

lemma Spend_tidy: "tidy cs \<Longrightarrow> IsAvailable cs n \<Longrightarrow> tidy (snd (Spend n cs)) \<and> clean (snd (Spend n cs))"
  using set_drop_null [of "(coins_vout cs)[n := CTxOut_SetNull]"] set_update_subset_insert [of "coins_vout cs" n CTxOut_SetNull] drop_null_clean
  by (auto simp: Spend_available tidy_def list_all_iff clean_def)

lemma spend_coin_available: "spend_coin n cs = (Some u, cs') \<Longrightarrow> IsAvailable cs n \<and> cs' = snd (Spend n cs) \<and> \<not> IsPruned cs"
  by (auto simp: spend_coin_def Let_def IsAvailable_def IsPruned_def list_all_length not_le split: if_splits)

text \<open>The record restores the coins, whatever pruned coins are there when the last output was spent.\<close>

lemma undo_spend:
  assumes "clean cs" and "tidy cs" and "spend_coin n cs = (Some u, cs')" and "clean d" and "unspent (Some d) = unspent (Some cs')"
  shows "\<exists>d'. undo_coin u n d = (True, d') \<and> Cleanup d' = cs"
proof -
  let ?ys = "drop_null ((coins_vout cs)[n := CTxOut_SetNull])"
  have a: "IsAvailable cs n" and cs': "cs' = cs\<lparr>coins_vout := ?ys\<rparr>" using spend_coin_available [OF assms(3)] by (auto simp: Spend_available)
  have t: "tidy cs'" "clean cs'" using Spend_tidy [OF assms(2) a] spend_coin_available [OF assms(3)] by auto
  note r = restore_vout [OF assms(1,2) a]
  have h: "(word_of_int (coins_nHeight cs) :: u32) \<noteq> 0" "sint (word_of_int (coins_nHeight cs) :: u32) = coins_nHeight cs"
    using assms(2) by (auto simp: tidy_def sint_sbintrunc' signed_take_bit_int_eq_self dest: arg_cong [of _ _ sint])
  have u: "u = (if ?ys = [] then (CTxInUndo_init (coins_vout cs ! n))\<lparr>undo_nHeight := word_of_int (coins_nHeight cs), undo_fCoinBase := fCoinBase cs, undo_nVersion := coins_nVersion cs\<rparr>
      else CTxInUndo_init (coins_vout cs ! n))"
    using assms(3) a cs' by (auto simp: spend_coin_def Let_def IsAvailable_def Spend_available split: if_splits)
  show ?thesis
  proof (cases "?ys = []")
    case True
    then have "IsPruned d" using assms(5) cs' by (auto simp: IsPruned_def split: if_splits)
    moreover have "Cleanup \<lparr>fCoinBase = fCoinBase cs, coins_vout = coins_vout cs, coins_nHeight = coins_nHeight cs, coins_nVersion = coins_nVersion cs\<rparr> = cs"
      using Cleanup_clean [OF assms(1)] by (cases cs) simp
    ultimately show ?thesis using True u h r assms(1)
      by (simp add: undo_coin_def CTxInUndo_init_def CCoins_Clear_def IsAvailable_def resize_vout_def)
  next
    case False
    then have "\<not> IsPruned cs'" using t(2) cs' by (simp add: clean_pruned)
    then have d: "d = cs'" using assms(5) by (auto split: if_splits)
    have "\<not> IsAvailable cs' n"
    proof
      assume "IsAvailable cs' n"
      then have "n < length ?ys" "\<not> CTxOut_IsNull (?ys ! n)" using cs' by (auto simp: IsAvailable_def)
      then show False using a by (auto simp: IsAvailable_def nth_drop_null)
    qed
    then show ?thesis using False u d cs' r \<open>\<not> IsPruned cs'\<close> assms(1) by (simp add: undo_coin_def CTxInUndo_init_def)
  qed
qed

section \<open>Undoing on a view\<close>

definition tidy_view :: "contents \<Rightarrow> bool" where
  "tidy_view X \<longleftrightarrow> (\<forall>i cs. utxos X i = Some cs \<longrightarrow> tidy cs)"

text \<open>Contents as they are for the coins and the nullifiers, with another table of proofs and with the anchors and the best block of \<open>Z\<close>.\<close>

abbreviation framed :: "contents \<Rightarrow> (ProofType \<Rightarrow> bytes \<Rightarrow> (bytes \<times> nat) set) \<Rightarrow> contents \<Rightarrow> contents" where
  "framed Z P X \<equiv> X\<lparr>used_proofs := P, anchor_roots := anchor_roots Z, tip_block := tip_block Z, tip_anchor := tip_anchor Z\<rparr>"

lemma contents_same: "\<exists>P. X = X\<lparr>used_proofs := P\<rparr>" "\<exists>f. X = X\<lparr>utxos := f\<rparr> \<and> (\<forall>i. utxos X i = None \<longrightarrow> f i = None)"
  by (rule exI [of _ "used_proofs X"], simp) (rule exI [of _ "utxos X"], simp)

lemma spend_input_spec:
  assumes "wf_view T (Cache c b)" and "spend_input txin (c, b) = Some (u, c', b')"
  shows "wf_view T (Cache c' b') \<and> same T b b' \<and> (\<exists>cs cs'. clean cs \<and> utxos (contents_of T (Cache c b)) (outp_hash (prevout txin)) = Some cs \<and>
    spend_coin (unat (outp_n (prevout txin))) cs = (Some u, cs') \<and> contents_of T (Cache c' b') =
      contents_of T (Cache c b)\<lparr>utxos := (utxos (contents_of T (Cache c b)))(outp_hash (prevout txin) := unspent (Some cs'))\<rparr>)"
proof -
  let ?i = "outp_hash (prevout txin)" and ?n = "unat (outp_n (prevout txin))"
  have m: "ModifyCoins ?i (spend_coin ?n) (c, b) = (Some u, c', b')"
    using assms(2) by (auto simp: spend_input_def split: prod.splits)
  obtain cs where cs: "clean cs" "unspent (Some cs) = utxos (contents_of T (Cache c b)) ?i" "Some u = fst (spend_coin ?n cs)" "wf_view T (Cache c' b')" "same T b b'"
      "contents_of T (Cache c' b') = contents_of T (Cache c b)\<lparr>utxos := (utxos (contents_of T (Cache c b)))(?i := unspent (Some (Cleanup (snd (spend_coin ?n cs)))))\<rparr>"
    using ModifyCoins_spec [OF assms(1) m] by blast
  obtain cs' where s: "spend_coin ?n cs = (Some u, cs')" using cs(3) by (metis prod.collapse)
  note a = spend_coin_available [OF s]
  have "utxos (contents_of T (Cache c b)) ?i = Some cs" using cs(2) a by simp
  moreover have "Cleanup cs' = cs'"
    using a drop_null_clean by (intro Cleanup_clean) (auto simp: Spend_available clean_def)
  ultimately show ?thesis using cs s by auto
qed

lemma undo_input_spec:
  assumes "wf_view T (Cache c b)" and "contents_of T (Cache c b) = Y\<lparr>utxos := (utxos Y)(outp_hash out := unspent (Some cs'))\<rparr>"
    and "utxos Y (outp_hash out) = Some cs" and "clean cs" and "tidy cs" and "spend_coin (unat (outp_n out)) cs = (Some u, cs')"
  shows "\<exists>c' b'. ApplyTxInUndo u out (c, b) = (True, c', b') \<and> wf_view T (Cache c' b') \<and> same T b b' \<and> contents_of T (Cache c' b') = Y"
proof -
  let ?i = "outp_hash out" and ?n = "unat (outp_n out)"
  obtain r c' b' where m: "ModifyCoins ?i (undo_coin u ?n) (c, b) = (r, c', b')" by (metis prod.collapse)
  obtain d where d: "clean d" "unspent (Some d) = utxos (contents_of T (Cache c b)) ?i" "r = fst (undo_coin u ?n d)" "wf_view T (Cache c' b')" "same T b b'"
      "contents_of T (Cache c' b') = contents_of T (Cache c b)\<lparr>utxos := (utxos (contents_of T (Cache c b)))(?i := unspent (Some (Cleanup (snd (undo_coin u ?n d)))))\<rparr>"
    using ModifyCoins_spec [OF assms(1) m] by blast
  have "unspent (Some d) = unspent (Some cs')" using d(2) assms(2) by simp
  then obtain d' where "undo_coin u ?n d = (True, d')" "Cleanup d' = cs" using undo_spend [OF assms(4-6) d(1)] by blast
  moreover have "\<not> IsPruned cs" using spend_coin_available [OF assms(6)] by simp
  ultimately show ?thesis using d m assms(2,3) by (auto simp: ApplyTxInUndo_def fun_eq_iff intro!: contents.equality)
qed

lemma spend_inputs_spec:
  assumes "wf_view T (Cache c b)" and "tidy_view (contents_of T (Cache c b))" and "spend_inputs ins (c, b) = Some (us, c', b')"
  shows "wf_view T (Cache c' b') \<and> same T b b' \<and> length us = length ins \<and> tidy_view (contents_of T (Cache c' b')) \<and>
    (\<exists>f. contents_of T (Cache c' b') = contents_of T (Cache c b)\<lparr>utxos := f\<rparr> \<and> (\<forall>i. utxos (contents_of T (Cache c b)) i = None \<longrightarrow> f i = None)) \<and>
    (\<forall>c1 b1 Z P. wf_view T (Cache c1 b1) \<longrightarrow> contents_of T (Cache c1 b1) = framed Z P (contents_of T (Cache c' b')) \<longrightarrow>
      (\<exists>c2 b2. undo_inputs ins us (c1, b1) = (True, c2, b2) \<and> wf_view T (Cache c2 b2) \<and> same T b1 b2 \<and>
        contents_of T (Cache c2 b2) = framed Z P (contents_of T (Cache c b))))"
  using assms
proof (induction ins arbitrary: c b us)
  case Nil
  then show ?case using contents_same(2) by auto
next
  case (Cons txin ins)
  let ?X = "contents_of T (Cache c b)" and ?i = "outp_hash (prevout txin)" and ?n = "unat (outp_n (prevout txin))"
  obtain u c3 b3 us' where s: "spend_input txin (c, b) = Some (u, c3, b3)" "spend_inputs ins (c3, b3) = Some (us', c', b')" "us = u # us'"
    using Cons(4) by (auto split: bind_splits)
  obtain cs cs' where cs: "wf_view T (Cache c3 b3)" "same T b b3" "clean cs" "utxos ?X ?i = Some cs" "spend_coin ?n cs = (Some u, cs')"
      "contents_of T (Cache c3 b3) = ?X\<lparr>utxos := (utxos ?X)(?i := unspent (Some cs'))\<rparr>"
    using spend_input_spec [OF Cons(2) s(1)] by blast
  have t: "tidy cs" using Cons(3) cs(4) by (simp add: tidy_view_def)
  have "tidy_view (contents_of T (Cache c3 b3))"
    using Cons(3) Spend_tidy [OF t] spend_coin_available [OF cs(5)] cs(6) by (auto simp: tidy_view_def split: if_splits)
  note ih = Cons(1) [OF cs(1) this s(2)]
  obtain f where f: "contents_of T (Cache c' b') = contents_of T (Cache c3 b3)\<lparr>utxos := f\<rparr>" "\<forall>i. utxos (contents_of T (Cache c3 b3)) i = None \<longrightarrow> f i = None"
    using ih by blast
  have "f i = None" if "utxos ?X i = None" for i using that f(2) cs(4,6) by (cases "i = ?i") auto
  moreover have "contents_of T (Cache c' b') = ?X\<lparr>utxos := f\<rparr>" using f(1) cs(6) by simp
  moreover have "\<exists>c2 b2. undo_inputs (txin # ins) us (c1, b1) = (True, c2, b2) \<and> wf_view T (Cache c2 b2) \<and> same T b1 b2 \<and> contents_of T (Cache c2 b2) = framed Z P ?X"
    if w: "wf_view T (Cache c1 b1)" "contents_of T (Cache c1 b1) = framed Z P (contents_of T (Cache c' b'))" for c1 b1 Z P
  proof -
    obtain c2 b2 where 2: "undo_inputs ins us' (c1, b1) = (True, c2, b2)" "wf_view T (Cache c2 b2)" "same T b1 b2"
        "contents_of T (Cache c2 b2) = framed Z P (contents_of T (Cache c3 b3))" using ih w by blast
    have "contents_of T (Cache c2 b2) = (framed Z P ?X)\<lparr>utxos := (utxos (framed Z P ?X))(?i := unspent (Some cs'))\<rparr>"
      using 2(4) cs(6) by simp
    from undo_input_spec [OF 2(2) this _ cs(3) t cs(5)] cs(4)
    obtain c4 b4 where 4: "ApplyTxInUndo u (prevout txin) (c2, b2) = (True, c4, b4)" "wf_view T (Cache c4 b4)" "same T b2 b4" "contents_of T (Cache c4 b4) = framed Z P ?X" by auto
    moreover have "same T b1 b4" using 2(3) 4(3) by (auto simp: same_def)
    ultimately show ?thesis using 2(1) s(3) by auto
  qed
  moreover have "same T b b'" using ih cs(2) by (auto simp: same_def)
  ultimately show ?case using ih s(3) by (auto simp del: undo_inputs.simps)
qed

lemma set_proof_spec:
  assumes "wf_view T (Cache c b)"
  shows "wf_view T (Cache (set_proof type x i kh c) b) \<and> (\<exists>P. contents_of T (Cache (set_proof type x i kh c) b) = contents_of T (Cache c b)\<lparr>used_proofs := P\<rparr>)"
proof -
  let ?c = "set_proof type x i kh c"
  have o: "anchor_at T (Cache ?c b) = anchor_at T (Cache c b)" "coins_at (Cache ?c b) = coins_at (Cache c b)"
      "nullifier_at (Cache ?c b) = nullifier_at (Cache c b)" "best_block (Cache ?c b) = best_block (Cache c b)" "best_anchor T (Cache ?c b) = best_anchor T (Cache c b)"
    by (auto simp: fun_eq_iff set_proof_def Let_def split: prod.splits)
  have "cache_ok T b ?c" using assms by (auto simp: cache_ok_def set_proof_def update_conv' Let_def split: if_splits prod.splits)
  moreover have "distinct_keys ?c" using assms by (simp add: set_proof_def Let_def distinct_keys_update split: prod.splits)
  moreover have "best_ok T (Cache ?c b)" using assms unfolding best_ok_def o by (simp add: best_ok_def)
  moreover have "contents_of T (Cache ?c b) = contents_of T (Cache c b)\<lparr>used_proofs := proofs_at (Cache ?c b)\<rparr>" unfolding contents_of_def o by simp
  ultimately show ?thesis using assms by auto
qed

lemma fold_proofs_spec:
  assumes "wf_view T (Cache c b)"
  shows "wf_view T (Cache (fold (set_proof type x i) khs c) b) \<and> (\<exists>P. contents_of T (Cache (fold (set_proof type x i) khs c) b) = contents_of T (Cache c b)\<lparr>used_proofs := P\<rparr>)"
  using assms
proof (induction khs arbitrary: c)
  case Nil
  then show ?case using contents_same(1) by auto
next
  case (Cons kh khs)
  note s = set_proof_spec [OF Cons(2), of type x i kh]
  from Cons(1) [OF conjunct1 [OF s]] s show ?case by auto
qed

lemma SetZkProofHashes_spec:
  assumes "wf_view T (Cache c b)"
  shows "wf_view T (Cache (SetZkProofHashes tx x c) b) \<and> (\<exists>P. contents_of T (Cache (SetZkProofHashes tx x c) b) = contents_of T (Cache c b)\<lparr>used_proofs := P\<rparr>)"
proof -
  note s = fold_proofs_spec [OF assms, of SPEND x "txid tx" "List.enumerate 0 (map (\<lambda>sp. ProofHash (sp_zkproof sp)) (vShieldedSpend tx))"]
  from fold_proofs_spec [OF conjunct1 [OF s], of OUTPUT x "txid tx" "List.enumerate 0 (map (\<lambda>o'. ProofHash (out_zkproof o')) (vShieldedOutput tx))"] s
  show ?thesis unfolding SetZkProofHashes_def by auto
qed

text \<open>The marks of a transaction.\<close>

lemma marks_spec:
  assumes "wf_view T (Cache c b)"
  shows "wf_view T (Cache ((SetZkProofHashes tx x \<circ> SetNullifiers tx y) c) b) \<and> (\<exists>P. contents_of T (Cache ((SetZkProofHashes tx x \<circ> SetNullifiers tx y) c) b) =
    contents_of T (Cache c b)\<lparr>spent_nullifiers := (\<lambda>type nf. if nf \<in> tx_nullifiers tx type then y else spent_nullifiers (contents_of T (Cache c b)) type nf), used_proofs := P\<rparr>)"
proof -
  note s = SetNullifiers_spec [OF assms, of tx y]
  from SetZkProofHashes_spec [OF conjunct1 [OF s], of tx x] s show ?thesis by auto
qed

lemma modify_coins_spec:
  assumes "wf_view T (Cache c b)" and "modify_coins i f (c, b) = (c', b')"
  shows "\<exists>cs. clean cs \<and> unspent (Some cs) = utxos (contents_of T (Cache c b)) i \<and> wf_view T (Cache c' b') \<and> same T b b' \<and>
    contents_of T (Cache c' b') = contents_of T (Cache c b)\<lparr>utxos := (utxos (contents_of T (Cache c b)))(i := unspent (Some (Cleanup (f cs))))\<rparr>"
proof -
  obtain r where m: "ModifyCoins i (\<lambda>cs. ((), f cs)) (c, b) = (r, c', b')" using assms(2) by (metis modify_coins_def prod.collapse)
  show ?thesis using ModifyCoins_spec [OF assms(1) m] by auto
qed

lemma ClearUnspendable_FromTx: "ClearUnspendable (FromTx tx h) = FromTx tx h"
proof -
  let ?f = "\<lambda>out. if IsUnspendable (txout_script out) then CTxOut_SetNull else out"
  have "\<not> IsUnspendable []" by (simp add: IsUnspendable_def)
  then have "?f (?f out) = ?f out" for out by (simp add: CTxOut_SetNull_def)
  then have "map ?f (drop_null (map ?f xs)) = drop_null (map ?f xs)" for xs using set_drop_null [of "map ?f xs"] by (intro map_idI) auto
  then show ?thesis by (simp add: FromTx_def ClearUnspendable_def Cleanup_def drop_null_same [OF drop_null_clean])
qed

lemma remove_outputs_spec:
  assumes "wf_view T (Cache c b)" and "contents_of T (Cache c b) = Y\<lparr>utxos := (utxos Y)(txid tx := unspent (Some (FromTx tx h)))\<rparr>" and "utxos Y (txid tx) = None"
  shows "\<exists>c' b'. remove_outputs tx h (c, b) = (True, c', b') \<and> wf_view T (Cache c' b') \<and> same T b b' \<and> contents_of T (Cache c' b') = Y"
proof -
  define g where "g cs = (let outs = ClearUnspendable cs; outsBlock = FromTx tx h;
      outs = (if coins_nVersion outsBlock < 0 then outs\<lparr>coins_nVersion := coins_nVersion outsBlock\<rparr> else outs) in (CCoins_eq outs outsBlock, CCoins_Clear))" for cs
  have ro: "remove_outputs tx h (c, b) = ModifyCoins (txid tx) g (c, b)" unfolding remove_outputs_def g_def [abs_def] ..
  have g: "snd (g cs) = CCoins_Clear" for cs by (simp add: g_def Let_def)
  obtain r c' b' where m: "ModifyCoins (txid tx) g (c, b) = (r, c', b')" by (metis prod.collapse)
  obtain d where d: "clean d" "unspent (Some d) = utxos (contents_of T (Cache c b)) (txid tx)" "r = fst (g d)" "wf_view T (Cache c' b')" "same T b b'"
      "contents_of T (Cache c' b') = contents_of T (Cache c b)\<lparr>utxos := (utxos (contents_of T (Cache c b)))(txid tx := unspent (Some (Cleanup (snd (g d)))))\<rparr>"
    using ModifyCoins_spec [OF assms(1) m] by blast
  have u: "unspent (Some d) = unspent (Some (FromTx tx h))" using d(2) assms(2) by simp
  have "CCoins_eq (ClearUnspendable d\<lparr>coins_nVersion := v\<rparr>) (FromTx tx h)" if "v = coins_nVersion (ClearUnspendable d) \<or> v = coins_nVersion (FromTx tx h)" for v
  proof (cases "IsPruned (FromTx tx h)")
    case True
    then have "coins_vout d = []" using u clean_pruned [OF d(1)] by (auto split: if_splits)
    then have "IsPruned (ClearUnspendable d\<lparr>coins_nVersion := v\<rparr>)" by (simp add: ClearUnspendable_def Cleanup_def IsPruned_def)
    then show ?thesis using True by (simp add: CCoins_eq_def)
  next
    case False
    then have "d = FromTx tx h" using u by (auto split: if_splits)
    then show ?thesis using that by (auto simp: ClearUnspendable_FromTx CCoins_eq_def)
  qed
  from this [of "coins_nVersion (ClearUnspendable d)"] this [of "coins_nVersion (FromTx tx h)"] have "r = True" using d(3) by (simp add: g_def Let_def)
  moreover have "contents_of T (Cache c' b') = Y" using d(6) assms(3) unfolding g assms(2) by (auto simp: fun_eq_iff intro!: contents.equality)
  ultimately show ?thesis using d(4,5) m ro by auto
qed

section \<open>Undoing a transaction\<close>

text \<open>A transaction that is new to a view: no unspent outputs under its id, no import of the same burn, no nullifier used before.\<close>

definition tx_new :: "contents \<Rightarrow> CTransaction \<Rightarrow> bool" where
  "tx_new X tx \<longleftrightarrow> utxos X (txid tx) = None \<and> (tx_IsCoinImport tx \<longrightarrow> utxos X (burn_hash tx) = None \<and> burn_hash tx \<noteq> txid tx) \<and>
     (\<forall>type nf. nf \<in> tx_nullifiers tx type \<longrightarrow> \<not> spent_nullifiers X type nf) \<and> list_all (\<lambda>out. \<not> CTxOut_IsNull out) (vout tx)"

lemma FromTx_tidy: "list_all (\<lambda>out. \<not> CTxOut_IsNull out) (vout tx) \<Longrightarrow> 0 < h \<Longrightarrow> h < 2 ^ 31 \<Longrightarrow> tidy (FromTx tx h)"
  using set_drop_null [of "map (\<lambda>out. if IsUnspendable (txout_script out) then CTxOut_SetNull else out) (vout tx)"]
  by (auto simp: tidy_def FromTx_def ClearUnspendable_def Cleanup_def list_all_iff)

lemma tombstone_spec:
  assumes "wf_view T (Cache c b)" and "utxos (contents_of T (Cache c b)) (burn_hash tx) = None" and "AddImportTombstone tx h (c, b) = (c', b')" and "0 < h" and "h < 2 ^ 31"
  shows "\<exists>cs. tidy cs \<and> wf_view T (Cache c' b') \<and> same T b b' \<and>
    contents_of T (Cache c' b') = contents_of T (Cache c b)\<lparr>utxos := (utxos (contents_of T (Cache c b)))(burn_hash tx := Some cs)\<rparr>"
proof -
  obtain cs where cs: "clean cs" "unspent (Some cs) = utxos (contents_of T (Cache c b)) (burn_hash tx)" "wf_view T (Cache c' b')" "same T b b'"
      "contents_of T (Cache c' b') = contents_of T (Cache c b)\<lparr>utxos := (utxos (contents_of T (Cache c b)))(burn_hash tx :=
         unspent (Some (Cleanup (cs\<lparr>coins_nHeight := h, coins_nVersion := 4, coins_vout := coins_vout cs @ [\<lparr>nValue = 0, txout_script = [0]\<rparr>]\<rparr>))))\<rparr>"
    using modify_coins_spec [OF assms(1) assms(3) [unfolded AddImportTombstone_def]] by blast
  let ?d = "cs\<lparr>coins_nHeight := h, coins_nVersion := 4, coins_vout := coins_vout cs @ [\<lparr>nValue = 0, txout_script = [0]\<rparr>]\<rparr>"
  have "coins_vout cs = []" using cs(1,2) assms(2) clean_pruned by (auto split: if_splits)
  then have "clean ?d" "tidy ?d" "\<not> IsPruned ?d" using assms(4,5) by (auto simp: clean_def tidy_def IsPruned_def CTxOut_IsNull_def)
  then show ?thesis using cs(3-5) by (intro exI [of _ ?d]) simp
qed

lemma untombstone_spec:
  assumes "wf_view T (Cache c b)" and "RemoveImportTombstone tx (c, b) = (c', b')"
  shows "wf_view T (Cache c' b') \<and> same T b b' \<and> contents_of T (Cache c' b') = contents_of T (Cache c b)\<lparr>utxos := (utxos (contents_of T (Cache c b)))(burn_hash tx := None)\<rparr>"
  using modify_coins_spec [OF assms(1) assms(2) [unfolded RemoveImportTombstone_def]] by auto

lemma UpdateCoins_spec:
  assumes w: "wf_view T (Cache c b)" and t: "tidy_view (contents_of T (Cache c b))" and n: "tx_new (contents_of T (Cache c b)) tx" and h: "0 < h" "h < 2 ^ 31"
    and u: "UpdateCoins tx h (c, b) = Some (us, c', b')"
  shows "\<exists>c1 b1 P cs f. (if IsMint tx then us = [] \<and> c1 = c \<and> b1 = b else spend_inputs (vin tx) (c, b) = Some (us, c1, b1)) \<and>
    wf_view T (Cache c1 b1) \<and> same T b b' \<and> tidy_view (contents_of T (Cache c1 b1)) \<and>
    contents_of T (Cache c1 b1) = contents_of T (Cache c b)\<lparr>utxos := f\<rparr> \<and> (\<forall>i. utxos (contents_of T (Cache c b)) i = None \<longrightarrow> f i = None) \<and>
    wf_view T (Cache c' b') \<and> tidy cs \<and> contents_of T (Cache c' b') = contents_of T (Cache c b)
      \<lparr>spent_nullifiers := (\<lambda>type nf. if nf \<in> tx_nullifiers tx type then True else spent_nullifiers (contents_of T (Cache c b)) type nf), used_proofs := P,
       utxos := (let g = f(txid tx := unspent (Some (FromTx tx h))) in if tx_IsCoinImport tx then g(burn_hash tx := Some cs) else g)\<rparr>"
proof -
  let ?X = "contents_of T (Cache c b)"
  obtain c1 b1 where 1: "if IsMint tx then us = [] \<and> c1 = c \<and> b1 = b else spend_inputs (vin tx) (c, b) = Some (us, c1, b1)"
      "(if tx_IsCoinImport tx then AddImportTombstone tx h (modify_coins (txid tx) (\<lambda>_. FromTx tx h) ((SetZkProofHashes tx True \<circ> SetNullifiers tx True) c1, b1))
        else modify_coins (txid tx) (\<lambda>_. FromTx tx h) ((SetZkProofHashes tx True \<circ> SetNullifiers tx True) c1, b1)) = (c', b')"
    using u by (auto simp: UpdateCoins_def Let_def split: if_splits bind_splits)
  have 2: "wf_view T (Cache c1 b1)" "same T b b1" "tidy_view (contents_of T (Cache c1 b1))"
      "\<exists>f. contents_of T (Cache c1 b1) = ?X\<lparr>utxos := f\<rparr> \<and> (\<forall>i. utxos ?X i = None \<longrightarrow> f i = None)"
    using 1(1) w t spend_inputs_spec [OF w t] contents_same(2) by (auto split: if_splits)
  then obtain f where f: "contents_of T (Cache c1 b1) = ?X\<lparr>utxos := f\<rparr>" "\<forall>i. utxos ?X i = None \<longrightarrow> f i = None" by blast
  define c2 where "c2 = (SetZkProofHashes tx True \<circ> SetNullifiers tx True) c1"
  obtain P where 3: "wf_view T (Cache c2 b1)" "contents_of T (Cache c2 b1) = contents_of T (Cache c1 b1)
      \<lparr>spent_nullifiers := (\<lambda>type nf. if nf \<in> tx_nullifiers tx type then True else spent_nullifiers ?X type nf), used_proofs := P\<rparr>"
    using marks_spec [OF 2(1), of tx True True] f(1) unfolding c2_def by auto
  obtain c3 b3 where m: "modify_coins (txid tx) (\<lambda>_. FromTx tx h) (c2, b1) = (c3, b3)" by fastforce
  have 4: "wf_view T (Cache c3 b3)" "same T b1 b3" "contents_of T (Cache c3 b3) = contents_of T (Cache c2 b1)\<lparr>utxos := (utxos (contents_of T (Cache c1 b1)))(txid tx := unspent (Some (FromTx tx h)))\<rparr>"
    using modify_coins_spec [OF 3(1) m] 3(2) by auto
  have ft: "tidy (FromTx tx h)" using n h by (intro FromTx_tidy) (auto simp: tx_new_def)
  show ?thesis
  proof (cases "tx_IsCoinImport tx")
    case True
    then have a: "AddImportTombstone tx h (c3, b3) = (c', b')" using 1(2) m by (simp add: c2_def)
    have "utxos (contents_of T (Cache c3 b3)) (burn_hash tx) = None" using n True f 4(3) by (auto simp: tx_new_def)
    from tombstone_spec [OF 4(1) this a h] obtain cs where "tidy cs" "wf_view T (Cache c' b')" "same T b3 b'"
        "contents_of T (Cache c' b') = contents_of T (Cache c3 b3)\<lparr>utxos := (utxos (contents_of T (Cache c3 b3)))(burn_hash tx := Some cs)\<rparr>" by blast
    moreover have "same T b b'" using 2(2) 4(2) calculation(3) by (auto simp: same_def)
    ultimately show ?thesis using 1(1) 2(1,3) f 3(2) 4(3) True by (intro exI [of _ c1] exI [of _ b1] exI [of _ P] exI [of _ cs] exI [of _ f]) (simp add: Let_def)
  next
    case False
    then have "(c', b') = (c3, b3)" using 1(2) m by (simp add: c2_def)
    moreover have "same T b b3" using 2(2) 4(2) by (auto simp: same_def)
    ultimately show ?thesis using 1(1) 2(1,3) f 3(2) 4 False ft by (intro exI [of _ c1] exI [of _ b1] exI [of _ P] exI [of _ "FromTx tx h"] exI [of _ f]) (simp add: Let_def)
  qed
qed

lemma tx_undo:
  assumes w: "wf_view T (Cache c b)" and t: "tidy_view (contents_of T (Cache c b))" and n: "tx_new (contents_of T (Cache c b)) tx" and h: "0 < h" "h < 2 ^ 31"
    and u: "UpdateCoins tx h (c, b) = Some (us, c', b')"
    and w1: "wf_view T (Cache c1 b1)" and e1: "contents_of T (Cache c1 b1) = framed Z P1 (contents_of T (Cache c' b'))"
  shows "\<exists>c2 b2 P2. disconnect_tx tx us h (c1, b1) = Some (True, c2, b2) \<and> wf_view T (Cache c2 b2) \<and> same T b1 b2 \<and>
    contents_of T (Cache c2 b2) = framed Z P2 (contents_of T (Cache c b))"
proof -
  let ?X = "contents_of T (Cache c b)" and ?N = "tx_nullifiers tx"
  obtain d bd P cs f where 1: "if IsMint tx then us = [] \<and> d = c \<and> bd = b else spend_inputs (vin tx) (c, b) = Some (us, d, bd)"
      "wf_view T (Cache d bd)" "contents_of T (Cache d bd) = ?X\<lparr>utxos := f\<rparr>" "\<forall>i. utxos ?X i = None \<longrightarrow> f i = None"
      "contents_of T (Cache c' b') = ?X\<lparr>spent_nullifiers := (\<lambda>type nf. if nf \<in> ?N type then True else spent_nullifiers ?X type nf), used_proofs := P,
        utxos := (let g = f(txid tx := unspent (Some (FromTx tx h))) in if tx_IsCoinImport tx then g(burn_hash tx := Some cs) else g)\<rparr>"
    using UpdateCoins_spec [OF w t n h u] by blast
  have fn: "f (txid tx) = None" "tx_IsCoinImport tx \<Longrightarrow> f (burn_hash tx) = None \<and> burn_hash tx \<noteq> txid tx" using n 1(4) by (auto simp: tx_new_def)
  define Y where "Y = ?X\<lparr>spent_nullifiers := (\<lambda>type nf. if nf \<in> ?N type then True else spent_nullifiers ?X type nf), used_proofs := P1,
      anchor_roots := anchor_roots Z, tip_block := tip_block Z, tip_anchor := tip_anchor Z, utxos := (if tx_IsCoinImport tx then f(burn_hash tx := Some cs) else f)\<rparr>"
  have "contents_of T (Cache c1 b1) = Y\<lparr>utxos := (utxos Y)(txid tx := unspent (Some (FromTx tx h)))\<rparr>"
    using e1 fn(2) unfolding 1(5) Y_def by (auto simp: Let_def fun_eq_iff intro!: contents.equality)
  moreover have "utxos Y (txid tx) = None" using fn by (auto simp: Y_def)
  ultimately obtain c3 b3 where 3: "remove_outputs tx h (c1, b1) = (True, c3, b3)" "wf_view T (Cache c3 b3)" "same T b1 b3" "contents_of T (Cache c3 b3) = Y"
    using remove_outputs_spec [OF w1] by blast
  define c4 where "c4 = (SetZkProofHashes tx False \<circ> SetNullifiers tx False) c3"
  obtain P4 where 4: "wf_view T (Cache c4 b3)" "contents_of T (Cache c4 b3) = Y\<lparr>spent_nullifiers := (\<lambda>type nf. if nf \<in> ?N type then False else spent_nullifiers Y type nf), used_proofs := P4\<rparr>"
    using marks_spec [OF 3(2), of tx False False] 3(4) unfolding c4_def by auto
  have "\<forall>type nf. nf \<in> ?N type \<longrightarrow> \<not> spent_nullifiers ?X type nf" using n by (simp add: tx_new_def)
  then have 5: "contents_of T (Cache c4 b3) = (framed Z P4 ?X)\<lparr>utxos := (if tx_IsCoinImport tx then f(burn_hash tx := Some cs) else f)\<rparr>"
    unfolding 4(2) Y_def by (auto simp: fun_eq_iff intro!: contents.equality)
  show ?thesis
  proof (cases "IsMint tx")
    case True
    then have f: "f = utxos ?X" using 1(1,3) by (metis contents.select_convs(1) contents.surjective contents.update_convs(1))
    show ?thesis
    proof (cases "tx_IsCoinImport tx")
      case imp: True
      obtain c5 b5 where r: "RemoveImportTombstone tx (c4, b3) = (c5, b5)" by fastforce
      note s = untombstone_spec [OF 4(1) r]
      have "contents_of T (Cache c5 b5) = framed Z P4 ?X" using s 5 f fn(2) [OF imp] imp by (auto simp: fun_eq_iff intro!: contents.equality)
      moreover have "same T b1 b5" using s 3(3) by (auto simp: same_def)
      ultimately show ?thesis using s 3(1) r True imp by (auto simp: disconnect_tx_def Let_def c4_def)
    next
      case False
      have "contents_of T (Cache c4 b3) = framed Z P4 ?X" using 5 f False by simp
      then show ?thesis using 4(1) 3 True False by (auto simp: disconnect_tx_def Let_def c4_def)
    qed
  next
    case False
    then have s: "spend_inputs (vin tx) (c, b) = Some (us, d, bd)" and ni: "\<not> tx_IsCoinImport tx" using 1(1) by (auto simp: IsMint_def)
    have "contents_of T (Cache c4 b3) = framed Z P4 (contents_of T (Cache d bd))" using 5 1(3) ni by simp
    then obtain c5 b5 where "undo_inputs (vin tx) us (c4, b3) = (True, c5, b5)" "wf_view T (Cache c5 b5)" "same T b3 b5" "contents_of T (Cache c5 b5) = framed Z P4 ?X"
      using spend_inputs_spec [OF w t s] 4(1) by blast
    moreover have "length us = length (vin tx)" using spend_inputs_spec [OF w t s] by blast
    moreover have "same T b1 b5" using calculation(3) 3(3) by (auto simp: same_def)
    ultimately show ?thesis using 3(1) False by (auto simp: disconnect_tx_def Let_def c4_def)
  qed
qed

text \<open>What a transaction leaves for the next one.\<close>

lemma tx_after:
  assumes w: "wf_view T (Cache c b)" and t: "tidy_view (contents_of T (Cache c b))" and n: "tx_new (contents_of T (Cache c b)) tx" and h: "0 < h" "h < 2 ^ 31"
    and u: "UpdateCoins tx h (c, b) = Some (us, c', b')"
  shows "wf_view T (Cache c' b')" "same T b b'" "tidy_view (contents_of T (Cache c' b'))"
    "\<exists>g P. contents_of T (Cache c' b') = contents_of T (Cache c b)\<lparr>utxos := g, used_proofs := P,
       spent_nullifiers := (\<lambda>type nf. if nf \<in> tx_nullifiers tx type then True else spent_nullifiers (contents_of T (Cache c b)) type nf)\<rparr> \<and>
     (\<forall>i. i \<noteq> txid tx \<longrightarrow> \<not> (tx_IsCoinImport tx \<and> i = burn_hash tx) \<longrightarrow> utxos (contents_of T (Cache c b)) i = None \<longrightarrow> g i = None)"
proof -
  let ?X = "contents_of T (Cache c b)" and ?N = "tx_nullifiers tx"
  obtain d bd P cs f where 1: "wf_view T (Cache c' b')" "same T b b'" "tidy_view (contents_of T (Cache d bd))" "tidy cs" "contents_of T (Cache d bd) = ?X\<lparr>utxos := f\<rparr>"
      "\<forall>i. utxos ?X i = None \<longrightarrow> f i = None"
      "contents_of T (Cache c' b') = ?X\<lparr>spent_nullifiers := (\<lambda>type nf. if nf \<in> ?N type then True else spent_nullifiers ?X type nf), used_proofs := P,
        utxos := (let g = f(txid tx := unspent (Some (FromTx tx h))) in if tx_IsCoinImport tx then g(burn_hash tx := Some cs) else g)\<rparr>"
    using UpdateCoins_spec [OF w t n h u] by blast
  show "wf_view T (Cache c' b')" "same T b b'" by (fact 1(1), fact 1(2))
  have ft: "tidy (FromTx tx h)" using n h by (intro FromTx_tidy) (auto simp: tx_new_def)
  have "tidy e" if "f i = Some e" for i e using 1(3,5) that by (auto simp: tidy_view_def)
  then show "tidy_view (contents_of T (Cache c' b'))" unfolding 1(7) using ft 1(4) by (auto simp: tidy_view_def Let_def split: if_splits)
  show "\<exists>g P. contents_of T (Cache c' b') = ?X\<lparr>utxos := g, used_proofs := P, spent_nullifiers := (\<lambda>type nf. if nf \<in> ?N type then True else spent_nullifiers ?X type nf)\<rparr> \<and>
     (\<forall>i. i \<noteq> txid tx \<longrightarrow> \<not> (tx_IsCoinImport tx \<and> i = burn_hash tx) \<longrightarrow> utxos ?X i = None \<longrightarrow> g i = None)"
    unfolding 1(7) using 1(6)
    by (intro exI [of _ "let g = f(txid tx := unspent (Some (FromTx tx h))) in if tx_IsCoinImport tx then g(burn_hash tx := Some cs) else g"] exI [of _ P]) (auto simp: Let_def)
qed

section \<open>Connecting and disconnecting a block\<close>

fun connect_txs :: "int \<Rightarrow> CTransaction list \<Rightarrow> 't cached \<Rightarrow> (CTxInUndo list list \<times> 't cached) option" where
  "connect_txs nHeight [] cb = Some ([], cb)"
| "connect_txs nHeight (tx # txs) cb = do {
     (undo, cb) \<leftarrow> UpdateCoins tx nHeight cb;
     (undos, cb) \<leftarrow> connect_txs nHeight txs cb;
     Some (undo # undos, cb)
   }"

fun disconnect_txs :: "int \<Rightarrow> CTransaction list \<Rightarrow> CTxInUndo list list \<Rightarrow> 't cached \<Rightarrow> (bool \<times> 't cached) option" where
  "disconnect_txs nHeight (tx # txs) (undo # undos) cb = do {
     (fClean, cb) \<leftarrow> disconnect_txs nHeight txs undos cb;
     (ok, cb) \<leftarrow> disconnect_tx tx undo nHeight cb;
     Some (fClean \<and> ok, cb)
   }"
| "disconnect_txs nHeight _ _ cb = Some (True, cb)"

definition with_cache :: "('t cached \<Rightarrow> ('r \<times> 't cached) option) \<Rightarrow> 't view \<Rightarrow> ('r \<times> 't view) option" where
  "with_cache f v = (case v of Cache c b \<Rightarrow> map_option (\<lambda>(r, c, b). (r, Cache c b)) (f (c, b)) | DB d \<Rightarrow> None)"

record CBlockUndo =
  vtxundo :: "CTxInUndo list list"
  old_sprout_tree_root :: bytes

text \<open>The best anchor and its tree, which has to be there.\<close>

definition load_tip :: "'t trees \<Rightarrow> ShieldedType \<Rightarrow> 't view \<Rightarrow> (bytes \<times> 't \<times> 't view) option" where
  "load_tip T type v =
     (case GetBestAnchor T type v of
        (rt, v) \<Rightarrow> (case GetAnchorAt T type rt v of (Some tree, v) \<Rightarrow> Some (rt, tree, v) | (None, v) \<Rightarrow> None))"

text \<open>
  Adding the commitments of a transaction to the trees. Appending one commitment throws when the tree is full; the frontier takes all the
  outputs of a transaction in one call of the Rust library.
\<close>

record 't appends =
  tree_append :: "ShieldedType \<Rightarrow> bytes \<Rightarrow> 't \<Rightarrow> 't option"
  AppendBundle :: "CTransaction \<Rightarrow> 't \<Rightarrow> 't option"

fun append_all :: "('a \<Rightarrow> 't \<Rightarrow> 't option) \<Rightarrow> 'a list \<Rightarrow> 't \<Rightarrow> 't option" where
  "append_all f [] tree = Some tree"
| "append_all f (x # xs) tree = do { tree \<leftarrow> f x tree; append_all f xs tree }"

fun append_tx :: "'t appends \<Rightarrow> ShieldedType \<Rightarrow> CTransaction \<Rightarrow> 't \<Rightarrow> 't option" where
  "append_tx A SPROUT tx tree = append_all (\<lambda>js. append_all (tree_append A SPROUT) (commitments js)) (vjoinsplit tx) tree"
| "append_tx A SAPLING tx tree = append_all (\<lambda>out. tree_append A SAPLING (cmu out)) (vShieldedOutput tx) tree"
| "append_tx A SAPLINGFRONTIER tx tree = (if vShieldedOutput tx \<noteq> [] then AppendBundle A tx tree else Some tree)"

text \<open>The part of \<open>ConnectBlock\<close> that changes the view. Undo records are kept for all transactions but the first.\<close>

definition ConnectBlock_view ::
  "'t trees \<Rightarrow> 't appends \<Rightarrow> int \<Rightarrow> bytes \<Rightarrow> CTransaction list \<Rightarrow> 't view \<Rightarrow> (CBlockUndo \<times> 't view) option" where
  "ConnectBlock_view T A nHeight hash txs v = do {
     (old_root, sprout_tree, v) \<leftarrow> load_tip T SPROUT v;
     if tree_root T sprout_tree \<noteq> old_root then None
     else do {
       (_, sapling_tree, v) \<leftarrow> load_tip T SAPLING v;
       (_, sapling_frontier_tree, v) \<leftarrow> load_tip T SAPLINGFRONTIER v;
       (undos, v) \<leftarrow> with_cache (connect_txs nHeight txs) v;
       sprout_tree \<leftarrow> append_all (append_tx A SPROUT) txs sprout_tree;
       sapling_tree \<leftarrow> append_all (append_tx A SAPLING) txs sapling_tree;
       sapling_frontier_tree \<leftarrow> append_all (append_tx A SAPLINGFRONTIER) txs sapling_frontier_tree;
       v \<leftarrow> on_cache (\<lambda>cb. Some (PushAnchor T SPROUT sprout_tree cb)) v;
       v \<leftarrow> on_cache (\<lambda>cb. Some (PushAnchor T SAPLING sapling_tree cb)) v;
       v \<leftarrow> on_cache (\<lambda>cb. Some (PushAnchor T SAPLINGFRONTIER sapling_frontier_tree cb)) v;
       v \<leftarrow> on_cache (\<lambda>(c, b). Some (Cache (SetBestBlock hash c) b)) v;
       Some (\<lparr>vtxundo = tl undos, old_sprout_tree_root = old_root\<rparr>, v)
     }
   }"

text \<open>The root of the Sapling trees before the block: that of the previous block, or of the empty tree before the activation.\<close>

definition prev_sapling_root :: "'t trees \<Rightarrow> bytes option \<Rightarrow> ShieldedType \<Rightarrow> bytes" where
  "prev_sapling_root T prev type = (case prev of Some rt \<Rightarrow> rt | None \<Rightarrow> empty_root T type)"

definition DisconnectBlock_view :: "'t trees \<Rightarrow> int \<Rightarrow> bytes \<Rightarrow> bytes \<Rightarrow> bytes option \<Rightarrow> CTransaction list \<Rightarrow> CBlockUndo \<Rightarrow> 't view \<Rightarrow> (bool \<times> 't view) option" where
  "DisconnectBlock_view T nHeight hash prev_hash prev_root txs undo v =
     (case GetBestBlock v of
        (best, v) \<Rightarrow>
          if best \<noteq> hash \<or> length (vtxundo undo) + 1 \<noteq> length txs then None
          else do {
            (fClean, v) \<leftarrow> with_cache (disconnect_txs nHeight txs ([] # vtxundo undo)) v;
            v \<leftarrow> on_cache (PopAnchor T (old_sprout_tree_root undo) SPROUT) v;
            v \<leftarrow> on_cache (PopAnchor T (prev_sapling_root T prev_root SAPLING) SAPLING) v;
            v \<leftarrow> on_cache (PopAnchor T (prev_sapling_root T prev_root SAPLINGFRONTIER) SAPLINGFRONTIER) v;
            v \<leftarrow> on_cache (\<lambda>(c, b). Some (Cache (SetBestBlock prev_hash c) b)) v;
            Some (fClean, v)
          })"

text \<open>The transactions of a block that are new to a view and to each other.\<close>

definition tx_apart :: "CTransaction \<Rightarrow> CTransaction \<Rightarrow> bool" where
  "tx_apart tx tx' \<longleftrightarrow> txid tx' \<noteq> txid tx \<and> (tx_IsCoinImport tx \<longrightarrow> txid tx' \<noteq> burn_hash tx) \<and>
     (tx_IsCoinImport tx' \<longrightarrow> burn_hash tx' \<noteq> txid tx \<and> (tx_IsCoinImport tx \<longrightarrow> burn_hash tx' \<noteq> burn_hash tx)) \<and>
     (\<forall>type. tx_nullifiers tx type \<inter> tx_nullifiers tx' type = {})"

definition block_new :: "contents \<Rightarrow> CTransaction list \<Rightarrow> bool" where
  "block_new X txs \<longleftrightarrow> list_all (tx_new X) txs \<and> sorted_wrt tx_apart txs"

lemma tx_new_later:
  assumes "tx_new X tx'" and "tx_apart tx tx'"
    and "Y = X\<lparr>utxos := g, used_proofs := P, spent_nullifiers := (\<lambda>type nf. if nf \<in> tx_nullifiers tx type then True else spent_nullifiers X type nf)\<rparr>"
    and "\<forall>i. i \<noteq> txid tx \<longrightarrow> \<not> (tx_IsCoinImport tx \<and> i = burn_hash tx) \<longrightarrow> utxos X i = None \<longrightarrow> g i = None"
  shows "tx_new Y tx'"
  using assms(1,2,4) unfolding assms(3) tx_new_def tx_apart_def by auto

lemma txs_undo:
  assumes "wf_view T (Cache c b)" and "tidy_view (contents_of T (Cache c b))" and "block_new (contents_of T (Cache c b)) txs" and h: "0 < h" "h < 2 ^ 31"
    and "connect_txs h txs (c, b) = Some (us, c', b')"
  shows "wf_view T (Cache c' b') \<and> same T b b' \<and> length us = length txs \<and>
    (\<exists>g P N. contents_of T (Cache c' b') = contents_of T (Cache c b)\<lparr>utxos := g, used_proofs := P, spent_nullifiers := N\<rparr>) \<and>
    (\<forall>c1 b1 Z P1 us'. wf_view T (Cache c1 b1) \<longrightarrow> contents_of T (Cache c1 b1) = framed Z P1 (contents_of T (Cache c' b')) \<longrightarrow>
      length us' = length us \<longrightarrow> (\<forall>k < length txs. us' ! k = us ! k \<or> IsMint (txs ! k)) \<longrightarrow>
      (\<exists>c2 b2 P2. disconnect_txs h txs us' (c1, b1) = Some (True, c2, b2) \<and> wf_view T (Cache c2 b2) \<and> same T b1 b2 \<and>
        contents_of T (Cache c2 b2) = framed Z P2 (contents_of T (Cache c b))))"
  using assms(1-3,6)
proof (induction txs arbitrary: c b us)
  case Nil
  have "\<exists>g P N. X = X\<lparr>utxos := g, used_proofs := P, spent_nullifiers := N\<rparr>" for X :: contents
    by (rule exI [of _ "utxos X"], rule exI [of _ "used_proofs X"], rule exI [of _ "spent_nullifiers X"]) simp
  then show ?case using Nil by auto
next
  case (Cons tx txs)
  let ?X = "contents_of T (Cache c b)"
  obtain u c3 b3 us3 where s: "UpdateCoins tx h (c, b) = Some (u, c3, b3)" "connect_txs h txs (c3, b3) = Some (us3, c', b')" "us = u # us3"
    using Cons(5) by (auto split: bind_splits)
  have n: "tx_new ?X tx" "list_all (tx_new ?X) txs" "list_all (tx_apart tx) txs" "sorted_wrt tx_apart txs" using Cons(4) by (auto simp: block_new_def list_all_iff)
  note a = tx_after [OF Cons(2,3) n(1) h s(1)]
  obtain g P where g: "contents_of T (Cache c3 b3) = ?X\<lparr>utxos := g, used_proofs := P, spent_nullifiers := (\<lambda>type nf. if nf \<in> tx_nullifiers tx type then True else spent_nullifiers ?X type nf)\<rparr>"
      "\<forall>i. i \<noteq> txid tx \<longrightarrow> \<not> (tx_IsCoinImport tx \<and> i = burn_hash tx) \<longrightarrow> utxos ?X i = None \<longrightarrow> g i = None" using a(4) by blast
  have "block_new (contents_of T (Cache c3 b3)) txs" using n(2-4) tx_new_later [OF _ _ g] by (auto simp: block_new_def list_all_iff)
  note ih = Cons(1) [OF a(1,3) this s(2)]
  note ih1 = conjunct1 [OF ih] conjunct1 [OF conjunct2 [OF ih]] conjunct1 [OF conjunct2 [OF conjunct2 [OF ih]]] conjunct1 [OF conjunct2 [OF conjunct2 [OF conjunct2 [OF ih]]]]
  note ih2 = conjunct2 [OF conjunct2 [OF conjunct2 [OF conjunct2 [OF ih]]], rule_format]
  have "\<exists>c2 b2 P2. disconnect_txs h (tx # txs) us' (c1, b1) = Some (True, c2, b2) \<and> wf_view T (Cache c2 b2) \<and> same T b1 b2 \<and> contents_of T (Cache c2 b2) = framed Z P2 ?X"
    if w: "wf_view T (Cache c1 b1)" "contents_of T (Cache c1 b1) = framed Z P1 (contents_of T (Cache c' b'))" "length us' = length us"
      "\<forall>k < length (tx # txs). us' ! k = us ! k \<or> IsMint ((tx # txs) ! k)" for c1 b1 Z P1 us'
  proof -
    obtain u' us3' where us': "us' = u' # us3'" using w(3) s(3) by (cases us') auto
    have k: "u' = u \<or> IsMint tx" "\<forall>k < length txs. us3' ! k = us3 ! k \<or> IsMint (txs ! k)" using w(4) s(3) us' by force+
    have l: "length us3' = length us3" using w(3) us' s(3) by simp
    obtain c2 b2 P2 where 2: "disconnect_txs h txs us3' (c1, b1) = Some (True, c2, b2)" "wf_view T (Cache c2 b2)" "same T b1 b2"
        "contents_of T (Cache c2 b2) = framed Z P2 (contents_of T (Cache c3 b3))" using ih2 [OF w(1,2) l] k(2) by blast
    obtain c4 b4 P4 where 4: "disconnect_tx tx u h (c2, b2) = Some (True, c4, b4)" "wf_view T (Cache c4 b4)" "same T b2 b4" "contents_of T (Cache c4 b4) = framed Z P4 ?X"
      using tx_undo [OF Cons(2,3) n(1) h s(1) 2(2,4)] by blast
    have "disconnect_tx tx u' h (c2, b2) = disconnect_tx tx u h (c2, b2)" using k(1) by (auto simp: disconnect_tx_def)
    moreover have "same T b1 b4" using 2(3) 4(3) by (auto simp: same_def)
    ultimately show ?thesis using 2(1) 4 us' by auto
  qed
  moreover have "\<exists>g P N. contents_of T (Cache c' b') = ?X\<lparr>utxos := g, used_proofs := P, spent_nullifiers := N\<rparr>" using ih1(4) g(1) by auto
  moreover have "same T b b'" using ih1(2) a(2) by (auto simp: same_def)
  moreover have "length us = length (tx # txs)" using ih1(3) s(3) by simp
  ultimately show ?case using ih1(1) by blast
qed

lemma load_tip_spec:
  assumes "wf_view T v" and "load_tip T type v = Some (rt, tree, v')"
  shows "rt = best_anchor T v type \<and> anchor_at T v type rt = Some tree \<and> same T v v'"
proof -
  obtain r v1 where 1: "GetBestAnchor T type v = (r, v1)" by fastforce
  obtain t v2 where 2: "GetAnchorAt T type r v1 = (t, v2)" by fastforce
  note s = GetBestAnchor_spec [OF 1]
  have "wf_view T v1" using s assms(1) by (simp add: same_def)
  note s2 = GetAnchorAt_spec [OF 2 this]
  have "rt = r" "v' = v2" "t = Some tree" using assms(2) 1 2 by (auto simp: load_tip_def split: option.splits if_splits)
  then show ?thesis using s s2 by (auto simp: same_def)
qed

lemma empty_root_found: "wf_view T v \<Longrightarrow> anchor_at T v type (empty_root T type) \<noteq> None"
  by (induction v) (auto simp: cache_ok_def anchor_ok_def split: option.splits)

text \<open>A view with a cache on top.\<close>

definition on_top :: "'t trees \<Rightarrow> 't view \<Rightarrow> contents \<Rightarrow> contents list \<Rightarrow> bool" where
  "on_top T v X below \<longleftrightarrow> (\<exists>c b. v = Cache c b \<and> stack T b = below) \<and> wf_view T v \<and> contents_of T v = X"

lemma on_topE: "on_top T v X below \<Longrightarrow> (\<And>c b. v = Cache c b \<Longrightarrow> stack T b = below \<Longrightarrow> wf_view T (Cache c b) \<Longrightarrow> contents_of T (Cache c b) = X \<Longrightarrow> thesis) \<Longrightarrow> thesis"
  by (auto simp: on_top_def)

lemma push_top:
  assumes "on_top T v X below" and "tree_root T t \<noteq> null_hash"
  shows "\<exists>v'. on_cache (\<lambda>cb. Some (PushAnchor T type t cb)) v = Some v' \<and>
    on_top T v' (X\<lparr>anchor_roots := (anchor_roots X)(type := (anchor_roots X type)(tree_root T t := True)), tip_anchor := (tip_anchor X)(type := tree_root T t)\<rparr>) below"
proof -
  obtain c b where v: "v = Cache c b" "stack T b = below" "wf_view T (Cache c b)" "contents_of T (Cache c b) = X" using assms(1) by (rule on_topE)
  obtain c' b' where "PushAnchor T type t (c, b) = Cache c' b'" "wf_view T (Cache c' b')" "same T b b'"
      "contents_of T (Cache c' b') = X\<lparr>anchor_roots := (anchor_roots X)(type := (anchor_roots X type)(tree_root T t := True)), tip_anchor := (tip_anchor X)(type := tree_root T t)\<rparr>"
    using PushAnchor_spec [OF v(3) assms(2)] unfolding v(4) by blast
  then show ?thesis using v by (auto simp: on_cache_def on_top_def same_def)
qed

lemma pop_top:
  assumes "on_top T v X below" and "rt \<noteq> null_hash" and "anchor_roots X type rt" and "tip_anchor X type = rt \<or> tip_anchor X type \<noteq> empty_root T type"
  shows "\<exists>v'. on_cache (PopAnchor T rt type) v = Some v' \<and>
    on_top T v' (X\<lparr>anchor_roots := (anchor_roots X)(type := (anchor_roots X type)(tip_anchor X type := tip_anchor X type = rt)), tip_anchor := (tip_anchor X)(type := rt)\<rparr>) below"
proof -
  obtain c b where v: "v = Cache c b" "stack T b = below" "wf_view T (Cache c b)" "contents_of T (Cache c b) = X" using assms(1) by (rule on_topE)
  obtain c' b' where "PopAnchor T rt type (c, b) = Some (Cache c' b')" "wf_view T (Cache c' b')" "same T b b'"
      "contents_of T (Cache c' b') = X\<lparr>anchor_roots := (anchor_roots X)(type := (anchor_roots X type)(tip_anchor X type := tip_anchor X type = rt)), tip_anchor := (tip_anchor X)(type := rt)\<rparr>"
    using PopAnchor_spec [OF v(3), of rt type] assms(2-4) unfolding v(4) by blast
  then show ?thesis using v by (auto simp: on_cache_def on_top_def same_def)
qed

lemma block_top:
  assumes "on_top T v X below" and "h \<noteq> null_hash"
  shows "\<exists>v'. on_cache (\<lambda>(c, b). Some (Cache (SetBestBlock h c) b)) v = Some v' \<and> on_top T v' (X\<lparr>tip_block := h\<rparr>) below"
proof -
  obtain c b where v: "v = Cache c b" "stack T b = below" "wf_view T (Cache c b)" "contents_of T (Cache c b) = X" using assms(1) by (rule on_topE)
  then show ?thesis using SetBestBlock_spec [OF v(3) assms(2)] by (auto simp: on_cache_def on_top_def)
qed

lemma stack_not_Nil [simp]: "stack T v \<noteq> []" "[] \<noteq> stack T v"
  by (cases v; simp)+

lemma same_top: "on_top T v X below \<Longrightarrow> same T v v' \<Longrightarrow> on_top T v' X below"
  by (cases v') (auto simp: on_top_def same_def)

lemma load_top: "on_top T v X below \<Longrightarrow> load_tip T type v = Some (rt, tree, v') \<Longrightarrow>
  on_top T v' X below \<and> rt = tip_anchor X type \<and> tree_root T tree = tip_anchor X type \<and> anchor_roots X type rt"
  using load_tip_spec [of T v type rt tree v'] same_top [of T v X below v'] root_at [of T v type rt tree] by (auto simp: on_top_def contents_of_def)

text \<open>What replacing the three anchors does, and that putting the old ones back undoes it.\<close>

definition push_roots :: "(ShieldedType \<Rightarrow> bytes) \<Rightarrow> contents \<Rightarrow> contents" where
  "push_roots r X = X\<lparr>anchor_roots := (\<lambda>type. (anchor_roots X type)(r type := True)), tip_anchor := r\<rparr>"

definition pop_roots :: "(ShieldedType \<Rightarrow> bytes) \<Rightarrow> contents \<Rightarrow> contents" where
  "pop_roots r X = X\<lparr>anchor_roots := (\<lambda>type. (anchor_roots X type)(tip_anchor X type := tip_anchor X type = r type)), tip_anchor := r\<rparr>"

lemma all_types: "(\<forall>type. P type) \<longleftrightarrow> P SPROUT \<and> P SAPLING \<and> P SAPLINGFRONTIER"
  by (metis ShieldedType.exhaust)

lemma push_all:
  assumes "on_top T v X below" and "\<forall>type. tree_root T (tree type) \<noteq> null_hash"
  shows "\<exists>v'. on_cache (\<lambda>cb. Some (PushAnchor T SPROUT (tree SPROUT) cb)) v \<bind> on_cache (\<lambda>cb. Some (PushAnchor T SAPLING (tree SAPLING) cb)) \<bind>
    on_cache (\<lambda>cb. Some (PushAnchor T SAPLINGFRONTIER (tree SAPLINGFRONTIER) cb)) = Some v' \<and> on_top T v' (push_roots (\<lambda>type. tree_root T (tree type)) X) below"
proof -
  obtain v1 X1 where 1: "on_cache (\<lambda>cb. Some (PushAnchor T SPROUT (tree SPROUT) cb)) v = Some v1" "on_top T v1 X1 below"
      "X1 = X\<lparr>anchor_roots := (anchor_roots X)(SPROUT := (anchor_roots X SPROUT)(tree_root T (tree SPROUT) := True)), tip_anchor := (tip_anchor X)(SPROUT := tree_root T (tree SPROUT))\<rparr>"
    using push_top [OF assms(1)] assms(2) by blast
  obtain v2 X2 where 2: "on_cache (\<lambda>cb. Some (PushAnchor T SAPLING (tree SAPLING) cb)) v1 = Some v2" "on_top T v2 X2 below"
      "X2 = X1\<lparr>anchor_roots := (anchor_roots X1)(SAPLING := (anchor_roots X1 SAPLING)(tree_root T (tree SAPLING) := True)), tip_anchor := (tip_anchor X1)(SAPLING := tree_root T (tree SAPLING))\<rparr>"
    using push_top [OF 1(2)] assms(2) by blast
  obtain v3 X3 where 3: "on_cache (\<lambda>cb. Some (PushAnchor T SAPLINGFRONTIER (tree SAPLINGFRONTIER) cb)) v2 = Some v3" "on_top T v3 X3 below"
      "X3 = X2\<lparr>anchor_roots := (anchor_roots X2)(SAPLINGFRONTIER := (anchor_roots X2 SAPLINGFRONTIER)(tree_root T (tree SAPLINGFRONTIER) := True)),
         tip_anchor := (tip_anchor X2)(SAPLINGFRONTIER := tree_root T (tree SAPLINGFRONTIER))\<rparr>"
    using push_top [OF 2(2)] assms(2) by blast
  have "X3 = push_roots (\<lambda>type. tree_root T (tree type)) X"
    unfolding 3(3) 2(3) 1(3) push_roots_def by (intro contents.equality) (simp_all add: fun_eq_iff all_types)
  then show ?thesis using 1(1) 2(1) 3(1,2) by simp
qed

lemma pop_all:
  assumes "on_top T v X below" and "\<forall>type. r type \<noteq> null_hash \<and> anchor_roots X type (r type) \<and> (tip_anchor X type = r type \<or> tip_anchor X type \<noteq> empty_root T type)"
  shows "\<exists>v'. on_cache (PopAnchor T (r SPROUT) SPROUT) v \<bind> on_cache (PopAnchor T (r SAPLING) SAPLING) \<bind> on_cache (PopAnchor T (r SAPLINGFRONTIER) SAPLINGFRONTIER) = Some v' \<and>
    on_top T v' (pop_roots r X) below"
proof -
  obtain v1 X1 where 1: "on_cache (PopAnchor T (r SPROUT) SPROUT) v = Some v1" "on_top T v1 X1 below"
      "X1 = X\<lparr>anchor_roots := (anchor_roots X)(SPROUT := (anchor_roots X SPROUT)(tip_anchor X SPROUT := tip_anchor X SPROUT = r SPROUT)), tip_anchor := (tip_anchor X)(SPROUT := r SPROUT)\<rparr>"
    using pop_top [OF assms(1)] assms(2) by blast
  obtain v2 X2 where 2: "on_cache (PopAnchor T (r SAPLING) SAPLING) v1 = Some v2" "on_top T v2 X2 below"
      "X2 = X1\<lparr>anchor_roots := (anchor_roots X1)(SAPLING := (anchor_roots X1 SAPLING)(tip_anchor X1 SAPLING := tip_anchor X1 SAPLING = r SAPLING)), tip_anchor := (tip_anchor X1)(SAPLING := r SAPLING)\<rparr>"
    using pop_top [OF 1(2), of "r SAPLING" SAPLING] assms(2) unfolding 1(3) by auto
  obtain v3 X3 where 3: "on_cache (PopAnchor T (r SAPLINGFRONTIER) SAPLINGFRONTIER) v2 = Some v3" "on_top T v3 X3 below"
      "X3 = X2\<lparr>anchor_roots := (anchor_roots X2)(SAPLINGFRONTIER := (anchor_roots X2 SAPLINGFRONTIER)(tip_anchor X2 SAPLINGFRONTIER := tip_anchor X2 SAPLINGFRONTIER = r SAPLINGFRONTIER)),
         tip_anchor := (tip_anchor X2)(SAPLINGFRONTIER := r SAPLINGFRONTIER)\<rparr>"
    using pop_top [OF 2(2), of "r SAPLINGFRONTIER" SAPLINGFRONTIER] assms(2) unfolding 2(3) 1(3) by auto
  have "X3 = pop_roots r X"
    unfolding 3(3) 2(3) 1(3) pop_roots_def by (intro contents.equality) (simp_all add: fun_eq_iff all_types)
  then show ?thesis using 1(1) 2(1) 3(1,2) by simp
qed

lemma pop_push: "\<forall>type. r type = tip_anchor X type \<or> \<not> anchor_roots X type (r type) \<Longrightarrow> \<forall>type. anchor_roots X type (tip_anchor X type) \<Longrightarrow>
  pop_roots (tip_anchor X) (push_roots r X) = X"
  unfolding pop_roots_def push_roots_def by (intro contents.equality) (auto simp: fun_eq_iff)

lemma txs_top:
  assumes "on_top T v X below" and "tidy_view X" and "block_new X txs" and h: "0 < h" "h < 2 ^ 31" and "with_cache (connect_txs h txs) v = Some (us, v')"
  shows "length us = length txs"
    and "\<exists>g P N. on_top T v' (X\<lparr>utxos := g, used_proofs := P, spent_nullifiers := N\<rparr>) below \<and>
      (\<forall>v1 Z us'. on_top T v1 (framed Z P (X\<lparr>utxos := g, spent_nullifiers := N\<rparr>)) below \<longrightarrow> length us' = length us \<longrightarrow> (\<forall>k < length txs. us' ! k = us ! k \<or> IsMint (txs ! k)) \<longrightarrow>
        (\<exists>v2 P2. with_cache (disconnect_txs h txs us') v1 = Some (True, v2) \<and> on_top T v2 (framed Z P2 X) below))"
proof -
  obtain c b where v: "v = Cache c b" "stack T b = below" "wf_view T (Cache c b)" "contents_of T (Cache c b) = X" using assms(1) by (rule on_topE)
  obtain c' b' where c: "connect_txs h txs (c, b) = Some (us, c', b')" "v' = Cache c' b'" using assms(6) v(1) by (auto simp: with_cache_def)
  have "tidy_view (contents_of T (Cache c b))" "block_new (contents_of T (Cache c b)) txs" using assms(2,3) v(4) by simp_all
  note u = txs_undo [OF v(3) this h c(1)]
  note u1 = conjunct1 [OF u] conjunct1 [OF conjunct2 [OF u]] conjunct1 [OF conjunct2 [OF conjunct2 [OF u]]] conjunct1 [OF conjunct2 [OF conjunct2 [OF conjunct2 [OF u]]]]
  note u2 = conjunct2 [OF conjunct2 [OF conjunct2 [OF conjunct2 [OF u]]], rule_format]
  show "length us = length txs" by (fact u1(3))
  obtain g P N where g: "contents_of T (Cache c' b') = X\<lparr>utxos := g, used_proofs := P, spent_nullifiers := N\<rparr>" using u1(4) v(4) by auto
  have "\<exists>v2 P2. with_cache (disconnect_txs h txs us') v1 = Some (True, v2) \<and> on_top T v2 (framed Z P2 X) below"
    if w: "on_top T v1 (framed Z P (X\<lparr>utxos := g, spent_nullifiers := N\<rparr>)) below" "length us' = length us" "\<forall>k < length txs. us' ! k = us ! k \<or> IsMint (txs ! k)" for v1 Z us'
  proof -
    obtain c1 b1 where 1: "v1 = Cache c1 b1" "stack T b1 = below" "wf_view T (Cache c1 b1)" "contents_of T (Cache c1 b1) = framed Z P (X\<lparr>utxos := g, spent_nullifiers := N\<rparr>)"
      using w(1) by (rule on_topE)
    have "contents_of T (Cache c1 b1) = framed Z P (contents_of T (Cache c' b'))" using 1(4) g by simp
    from u2 [OF 1(3) this w(2)] w(3) obtain c2 b2 P2 where "disconnect_txs h txs us' (c1, b1) = Some (True, c2, b2)" "wf_view T (Cache c2 b2)" "same T b1 b2"
        "contents_of T (Cache c2 b2) = framed Z P2 X" unfolding v(4) by blast
    then show ?thesis using 1(1,2) by (auto simp: with_cache_def on_top_def same_def)
  qed
  moreover have "on_top T v' (X\<lparr>utxos := g, used_proofs := P, spent_nullifiers := N\<rparr>) below" using c(2) u1(1,2) v(2) g by (auto simp: on_top_def same_def)
  ultimately show "\<exists>g P N. on_top T v' (X\<lparr>utxos := g, used_proofs := P, spent_nullifiers := N\<rparr>) below \<and>
      (\<forall>v1 Z us'. on_top T v1 (framed Z P (X\<lparr>utxos := g, spent_nullifiers := N\<rparr>)) below \<longrightarrow> length us' = length us \<longrightarrow> (\<forall>k < length txs. us' ! k = us ! k \<or> IsMint (txs ! k)) \<longrightarrow>
        (\<exists>v2 P2. with_cache (disconnect_txs h txs us') v1 = Some (True, v2) \<and> on_top T v2 (framed Z P2 X) below))" by blast
qed

lemma best_top: "on_top T v X below \<Longrightarrow> GetBestBlock v = (h, v') \<Longrightarrow> on_top T v' X below \<and> h = tip_block X"
  using GetBestBlock_spec [of v h v' T] same_top [of T v X below v'] by (auto simp: on_top_def contents_of_def)

text \<open>The trees that a block makes from those of the best anchors have roots that are the same as before or new.\<close>

definition root_new :: "'t trees \<Rightarrow> contents \<Rightarrow> (ShieldedType \<Rightarrow> 't) \<Rightarrow> bool" where
  "root_new T X tree \<longleftrightarrow> (\<forall>type. tree_root T (tree type) \<noteq> null_hash \<and>
     (tree_root T (tree type) = tip_anchor X type \<or> \<not> anchor_roots X type (tree_root T (tree type))))"

definition roots_new :: "'t trees \<Rightarrow> 't appends \<Rightarrow> contents \<Rightarrow> CTransaction list \<Rightarrow> bool" where
  "roots_new T A X txs \<longleftrightarrow> (\<forall>type. tip_anchor X type \<noteq> null_hash) \<and>
     (\<forall>old tree. (\<forall>type. tree_root T (old type) = tip_anchor X type \<and> append_all (append_tx A type) txs (old type) = Some (tree type)) \<longrightarrow> root_new T X tree)"

lemma connect_spec:
  assumes o: "on_top T v X below" and t: "tidy_view X" and n: "block_new X txs" and h: "0 < h" "h < 2 ^ 31" "hash \<noteq> null_hash" and r: "roots_new T A X txs"
    and c: "ConnectBlock_view T A h hash txs v = Some (undo, v')"
  shows "\<exists>us g P N tree. length us = length txs \<and> undo = \<lparr>vtxundo = tl us, old_sprout_tree_root = tip_anchor X SPROUT\<rparr> \<and> (\<forall>type. anchor_roots X type (tip_anchor X type)) \<and>
    root_new T X tree \<and> on_top T v' ((push_roots (\<lambda>type. tree_root T (tree type)) (X\<lparr>utxos := g, used_proofs := P, spent_nullifiers := N\<rparr>))\<lparr>tip_block := hash\<rparr>) below \<and>
    (\<forall>v1 Z us'. on_top T v1 (framed Z P (X\<lparr>utxos := g, spent_nullifiers := N\<rparr>)) below \<longrightarrow> length us' = length us \<longrightarrow> (\<forall>k < length txs. us' ! k = us ! k \<or> IsMint (txs ! k)) \<longrightarrow>
        (\<exists>v2 P2. with_cache (disconnect_txs h txs us') v1 = Some (True, v2) \<and> on_top T v2 (framed Z P2 X) below))"
proof -
  obtain a1 t1 v1 a2 t2 v2 a3 t3 v3 us v4 v5 v6 v7 n1 n2 n3 where s: "load_tip T SPROUT v = Some (a1, t1, v1)" "load_tip T SAPLING v1 = Some (a2, t2, v2)"
      "load_tip T SAPLINGFRONTIER v2 = Some (a3, t3, v3)"
      "with_cache (connect_txs h txs) v3 = Some (us, v4)" "on_cache (\<lambda>cb. Some (PushAnchor T SPROUT n1 cb)) v4 = Some v5"
      "on_cache (\<lambda>cb. Some (PushAnchor T SAPLING n2 cb)) v5 = Some v6"
      "on_cache (\<lambda>cb. Some (PushAnchor T SAPLINGFRONTIER n3 cb)) v6 = Some v7"
      "on_cache (\<lambda>(c, b). Some (Cache (SetBestBlock hash c) b)) v7 = Some v'" "undo = \<lparr>vtxundo = tl us, old_sprout_tree_root = a1\<rparr>"
      and ap: "append_all (append_tx A SPROUT) txs t1 = Some n1" "append_all (append_tx A SAPLING) txs t2 = Some n2" "append_all (append_tx A SAPLINGFRONTIER) txs t3 = Some n3"
    using c unfolding ConnectBlock_view_def by (auto split: bind_splits if_splits)
  note l1 = load_top [OF o s(1)]
  note l2 = load_top [OF conjunct1 [OF l1] s(2)]
  note l3 = load_top [OF conjunct1 [OF l2] s(3)]
  define old where "old type = (case type of SPROUT \<Rightarrow> t1 | SAPLING \<Rightarrow> t2 | SAPLINGFRONTIER \<Rightarrow> t3)" for type
  define tree where "tree type = (case type of SPROUT \<Rightarrow> n1 | SAPLING \<Rightarrow> n2 | SAPLINGFRONTIER \<Rightarrow> n3)" for type
  have ok: "append_all (append_tx A type) txs (old type) = Some (tree type)" for type using ap by (cases type) (simp_all add: old_def tree_def)
  have l: "on_top T v3 X below" "a1 = tip_anchor X SPROUT" "\<forall>type. anchor_roots X type (tip_anchor X type)" "\<forall>type. tree_root T (old type) = tip_anchor X type"
    using l1 l2 l3 by (auto simp: all_types old_def)
  have new: "root_new T X tree" using r l(4) ok unfolding roots_new_def by blast
  obtain g P N where u: "on_top T v4 (X\<lparr>utxos := g, used_proofs := P, spent_nullifiers := N\<rparr>) below"
      "\<forall>v1 Z us'. on_top T v1 (framed Z P (X\<lparr>utxos := g, spent_nullifiers := N\<rparr>)) below \<longrightarrow> length us' = length us \<longrightarrow> (\<forall>k < length txs. us' ! k = us ! k \<or> IsMint (txs ! k)) \<longrightarrow>
        (\<exists>v2 P2. with_cache (disconnect_txs h txs us') v1 = Some (True, v2) \<and> on_top T v2 (framed Z P2 X) below)"
    using txs_top(2) [OF l(1) t n h(1,2) s(4)] by blast
  have "on_top T v7 (push_roots (\<lambda>type. tree_root T (tree type)) (X\<lparr>utxos := g, used_proofs := P, spent_nullifiers := N\<rparr>)) below"
    using push_all [OF u(1), of tree] new s(5-7) by (simp add: root_new_def tree_def)
  from block_top [OF this h(3)] s(8) have "on_top T v' ((push_roots (\<lambda>type. tree_root T (tree type)) (X\<lparr>utxos := g, used_proofs := P, spent_nullifiers := N\<rparr>))\<lparr>tip_block := hash\<rparr>) below" by simp
  then show ?thesis using s(9) l(2,3) txs_top(1) [OF l(1) t n h(1,2) s(4)] u(2) new by blast
qed

text \<open>
  C15: Disconnecting undoes connecting. Let a block be connected to a cached view that is well formed, with its first transaction a mint, its transactions new to
  the view and to each other, a height above zero, the roots of the trees it makes either new or the same as before, no root or block hash null, and the
  Sapling root of the previous block that of the view. Then disconnecting it with the undo data that was kept succeeds, finds nothing inconsistent, and leaves
  the same unspent outputs, nullifiers, anchors and best block as before, in the view and in every view below it. The table of the proofs seen is the exception.
\<close>

theorem disconnect_restores:
  assumes wf: "wf_view T (Cache c b)" and X: "X = contents_of T (Cache c b)" and tidy: "tidy_view X" and new: "block_new X txs"
    and first: "txs \<noteq> []" "IsMint (hd txs)" and h: "0 < h" "h < 2 ^ 31" "hash \<noteq> null_hash" "tip_block X \<noteq> null_hash" and roots: "roots_new T A X txs"
    and prev: "tip_anchor X SAPLING = prev_sapling_root T prev_root SAPLING" "tip_anchor X SAPLINGFRONTIER = prev_sapling_root T prev_root SAPLINGFRONTIER"
    and c: "ConnectBlock_view T A h hash txs (Cache c b) = Some (undo, v)"
  shows "\<exists>v' P. DisconnectBlock_view T h hash (tip_block X) prev_root txs undo v = Some (True, v') \<and> wf_view T v' \<and> stack T v' = X\<lparr>used_proofs := P\<rparr> # stack T b"
proof -
  have o: "on_top T (Cache c b) X (stack T b)" using wf X by (simp add: on_top_def)
  obtain us g P N tree where u: "length us = length txs" "undo = \<lparr>vtxundo = tl us, old_sprout_tree_root = tip_anchor X SPROUT\<rparr>" "\<forall>type. anchor_roots X type (tip_anchor X type)"
      "on_top T v ((push_roots (\<lambda>type. tree_root T (tree type)) (X\<lparr>utxos := g, used_proofs := P, spent_nullifiers := N\<rparr>))\<lparr>tip_block := hash\<rparr>) (stack T b)"
      "\<forall>v1 Z us'. on_top T v1 (framed Z P (X\<lparr>utxos := g, spent_nullifiers := N\<rparr>)) (stack T b) \<longrightarrow> length us' = length us \<longrightarrow> (\<forall>k < length txs. us' ! k = us ! k \<or> IsMint (txs ! k)) \<longrightarrow>
        (\<exists>v2 P2. with_cache (disconnect_txs h txs us') v1 = Some (True, v2) \<and> on_top T v2 (framed Z P2 X) (stack T b))" and new: "root_new T X tree"
    using connect_spec [OF o tidy new h(1-3) roots c] by blast
  let ?r = "\<lambda>type. tree_root T (tree type)"
  obtain best v1 where b: "GetBestBlock v = (best, v1)" by fastforce
  note b1 = best_top [OF u(4) b]
  define Z where "Z = (push_roots ?r X)\<lparr>tip_block := hash\<rparr>"
  have "(push_roots ?r (X\<lparr>utxos := g, used_proofs := P, spent_nullifiers := N\<rparr>))\<lparr>tip_block := hash\<rparr> = framed Z P (X\<lparr>utxos := g, spent_nullifiers := N\<rparr>)"
    by (intro contents.equality) (simp_all add: Z_def push_roots_def)
  then have z: "on_top T v1 (framed Z P (X\<lparr>utxos := g, spent_nullifiers := N\<rparr>)) (stack T b)" using b1 by simp
  have k: "length ([] # tl us) = length us" "\<forall>k < length txs. ([] # tl us) ! k = us ! k \<or> IsMint (txs ! k)"
    using u(1) first by (auto simp: nth_Cons nth_tl hd_conv_nth split: nat.split)
  obtain v2 P2 where 2: "with_cache (disconnect_txs h txs ([] # tl us)) v1 = Some (True, v2)" "on_top T v2 (framed Z P2 X) (stack T b)" using u(5) z k by blast
  let ?Y = "X\<lparr>used_proofs := P2, tip_block := hash\<rparr>"
  have "framed Z P2 X = push_roots ?r ?Y" by (intro contents.equality) (simp_all add: Z_def push_roots_def)
  then have y: "on_top T v2 (push_roots ?r ?Y) (stack T b)" using 2(2) by simp
  have e: "anchor_roots X type (empty_root T type)" for type using empty_root_found [OF wf] by (simp add: X contents_of_def)
  have "\<forall>type. tip_anchor X type \<noteq> null_hash \<and> anchor_roots (push_roots ?r ?Y) type (tip_anchor X type) \<and>
      (tip_anchor (push_roots ?r ?Y) type = tip_anchor X type \<or> tip_anchor (push_roots ?r ?Y) type \<noteq> empty_root T type)"
    using roots new u(3) e by (auto simp: push_roots_def roots_new_def root_new_def) metis
  from pop_all [OF y this] prev obtain v3 where 3: "on_cache (PopAnchor T (tip_anchor X SPROUT) SPROUT) v2 \<bind> on_cache (PopAnchor T (prev_sapling_root T prev_root SAPLING) SAPLING) \<bind>
      on_cache (PopAnchor T (prev_sapling_root T prev_root SAPLINGFRONTIER) SAPLINGFRONTIER) = Some v3" "on_top T v3 (pop_roots (tip_anchor X) (push_roots ?r ?Y)) (stack T b)" by auto
  moreover have "pop_roots (tip_anchor X) (push_roots ?r ?Y) = ?Y" using pop_push [of ?r ?Y] new u(3) by (simp add: root_new_def)
  ultimately obtain v4 where 4: "on_cache (\<lambda>(c, b). Some (Cache (SetBestBlock (tip_block X) c) b)) v3 = Some v4" "on_top T v4 (X\<lparr>used_proofs := P2\<rparr>) (stack T b)"
    using block_top [of T v3 ?Y "stack T b" "tip_block X"] h(4) by auto
  have "DisconnectBlock_view T h hash (tip_block X) prev_root txs undo v = Some (True, v4)"
    using b b1 u(1,2) 2(1) 3(1) 4(1) first(1) by (auto simp: DisconnectBlock_view_def push_roots_def split: bind_splits)
  then show ?thesis using 4(2) by (auto simp: on_top_def)
qed

section \<open>An instance\<close>

definition sample_tx :: "bytes \<Rightarrow> COutPoint \<Rightarrow> CTransaction" where
  "sample_tx i out = \<lparr>fOverwintered = False, nVersion = 1, nVersionGroupId = 0, vin = [\<lparr>prevout = out, txin_script = [], nSequence = 0\<rparr>],
     vout = [\<lparr>nValue = 3, txout_script = [0x51]\<rparr>], nLockTime = 0, nExpiryHeight = 0, valueBalance = 0, vShieldedSpend = [], vShieldedOutput = [], vjoinsplit = [],
     joinSplitPubKey = [], joinSplitSig = [], bindingSig = [], txid = i\<rparr>"

definition sample_app :: "bytes appends" where
  "sample_app = \<lparr>tree_append = (\<lambda>_ cm tree. Some (cm @ tree)), AppendBundle = (\<lambda>tx tree. Some (concat (map cmu (vShieldedOutput tx)) @ tree))\<rparr>"

definition sample_block :: "CTransaction list" where
  "sample_block = [sample_tx [2] COutPoint_SetNull, sample_tx [3] \<lparr>outp_hash = [7], outp_n = 0\<rparr>]"

lemma no_shielded: "vShieldedSpend tx = [] \<Longrightarrow> vShieldedOutput tx = [] \<Longrightarrow> SetZkProofHashes tx x c = c"
  "vShieldedSpend tx = [] \<Longrightarrow> vjoinsplit tx = [] \<Longrightarrow> SetNullifiers tx x c = c"
  by (simp_all add: SetZkProofHashes_def SetNullifiers_def)

lemma sample_unspendable: "IsUnspendable [0x51] = False"
  by (simp add: IsUnspendable_def MAX_SCRIPT_SIZE_def)

lemma sample_fields [simp]: "txid (sample_tx i out) = i" "vin (sample_tx i out) = [\<lparr>prevout = out, txin_script = [], nSequence = 0\<rparr>]"
  "vout (sample_tx i out) = [\<lparr>nValue = 3, txout_script = [0x51]\<rparr>]" "vShieldedSpend (sample_tx i out) = []" "vShieldedOutput (sample_tx i out) = []"
  "vjoinsplit (sample_tx i out) = []"
  by (simp_all add: sample_tx_def)

lemma sample_kinds [simp]: "IsMint (sample_tx i COutPoint_SetNull)" "\<not> tx_IsCoinImport (sample_tx i COutPoint_SetNull)"
  "\<not> IsMint (sample_tx i \<lparr>outp_hash = [7], outp_n = 0\<rparr>)" "\<not> tx_IsCoinImport (sample_tx i \<lparr>outp_hash = [7], outp_n = 0\<rparr>)"
  by (simp_all add: IsMint_def IsCoinBase_def tx_IsCoinImport_def COutPoint_IsNull_def COutPoint_SetNull_def list_all_iff in_set_replicate)

lemma sample_FromTx: "coins_vout (FromTx (sample_tx i out) h) = [\<lparr>nValue = 3, txout_script = [0x51]\<rparr>]"
  by (simp add: FromTx_def ClearUnspendable_def sample_unspendable Cleanup_def CTxOut_IsNull_def drop_null_def)

lemma sample_connects: "\<exists>undo v. ConnectBlock_view sample_trees sample_app 10 [4] sample_block sample_view = Some (undo, v)"
  by (simp add: ConnectBlock_view_def load_tip_def on_cache_def with_cache_def sample_view_def sample_db_def sample_trees_def sample_block_def empty_root_def UpdateCoins_def no_shielded
    Let_def modify_coins_def ModifyCoins_def CCoinsViewCache_init_def spend_input_def spend_coin_def Spend_def sample_coins_def IsPruned_def CTxOut_IsNull_def sample_FromTx PushAnchor_def)

lemma sample_append: "append_all (append_tx A type) sample_block tree = Some tree"
  by (cases type) (simp_all add: sample_block_def)

lemma sample_contents: "block_new (contents_of sample_trees sample_view) sample_block \<and> tidy_view (contents_of sample_trees sample_view)"
  by (auto simp: contents_of_def sample_view_def sample_db_def CCoinsViewCache_init_def sample_coins_def sample_block_def block_new_def tx_new_def tx_apart_def tx_nullifiers_def
    tidy_view_def tidy_def CTxOut_IsNull_def split: ShieldedType.splits if_splits)

lemma sample_roots: "roots_new sample_trees sample_app (contents_of sample_trees sample_view) sample_block"
  by (simp add: roots_new_def root_new_def sample_append) (simp add: contents_of_def sample_defs, metis)

theorem disconnect_restores_witness:
  "\<exists>undo v v' P. ConnectBlock_view sample_trees sample_app 10 [4] sample_block sample_view = Some (undo, v) \<and>
    DisconnectBlock_view sample_trees 10 [4] [9] None sample_block undo v = Some (True, v') \<and> wf_view sample_trees v' \<and>
    hd (stack sample_trees v') = contents_of sample_trees sample_view\<lparr>used_proofs := P\<rparr>"
proof -
  obtain undo v where c: "ConnectBlock_view sample_trees sample_app 10 [4] sample_block sample_view = Some (undo, v)" using sample_connects by blast
  obtain b where b: "sample_view = Cache CCoinsViewCache_init b" by (simp add: sample_view_def sample_db_def)
  have t: "tip_block (contents_of sample_trees sample_view) = [9]"
    by (simp add: sample_view_def sample_db_def contents_of_def CCoinsViewCache_init_def)
  have a: "tip_anchor (contents_of sample_trees sample_view) type = prev_sapling_root sample_trees None type" for type
    by (simp add: sample_view_def sample_db_def contents_of_def CCoinsViewCache_init_def prev_sapling_root_def)
  have m: "sample_block \<noteq> []" "IsMint (hd sample_block)" by (simp_all add: sample_block_def)
  note s = sample_contents sample_roots
  have "\<exists>v' P. DisconnectBlock_view sample_trees 10 [4] (tip_block (contents_of sample_trees sample_view)) None sample_block undo v = Some (True, v') \<and>
      wf_view sample_trees v' \<and> stack sample_trees v' = contents_of sample_trees sample_view\<lparr>used_proofs := P\<rparr> # stack sample_trees b"
    by (rule disconnect_restores [OF sample_wf [unfolded b] _ _ _ m _ _ _ _ _ _ _ c [unfolded b]]) (use s t a b in simp_all)
  then show ?thesis using c t by fastforce
qed

end
