(* ===== verification/Spec2Isabelle.thy ===== *)
theory Spec2Isabelle
  imports PowCorrect SigCommit CheckQueue PartialMerkle ConnectCoins
begin

text \<open>
  Verification development for the consensus code of the Elosys node (C++, \<^verbatim>\<open>src/src\<close>).

  \<^bold>\<open>The program.\<close> The node receives blocks as bytes. A block is read by the serialization templates (\<^verbatim>\<open>serialize.h\<close>,
  \<^verbatim>\<open>primitives\<close>); its header is checked against the difficulty that the chain requires (\<^verbatim>\<open>pow.cpp\<close> over \<^verbatim>\<open>arith_uint256.cpp\<close>) and its
  transactions against the Merkle root (\<^verbatim>\<open>primitives/block.cpp\<close>, \<^verbatim>\<open>merkleblock.cpp\<close>). Every input runs two scripts
  (\<^verbatim>\<open>script/interpreter.cpp\<close>) whose signatures sign a hash of the transaction; the checks run in parallel (\<^verbatim>\<open>checkqueue.h\<close>). A
  block that passes is connected to a view of the unspent outputs, a stack of caches over a database (\<^verbatim>\<open>main.cpp\<close>, \<^verbatim>\<open>coins.cpp\<close>,
  \<^verbatim>\<open>txdb.cpp\<close>), and disconnected again when another chain has more work. All hashes come from \<^verbatim>\<open>crypto\<close> and \<^verbatim>\<open>hash.h\<close>.

  \<^bold>\<open>Conventions.\<close> Definitions carry the names of the functions they translate; helpers for a part of a function have small
  letters. A byte is an \<^typ>\<open>8 word\<close>, unsigned integers are words of their width, signed ones integers with the range or
  the wrap-around written out (\<^const>\<open>to_int32\<close>, \<^const>\<open>to_int64\<close>). What is thrown, asserted or fails is the left side of a sum or
  \<^const>\<open>None\<close>; so is an access outside an array where a property speaks about it. Global variables and code outside the repository are arguments.

  \<^bold>\<open>Theories, in the order of the imports.\<close>

  \<^item> \<^verbatim>\<open>Prelude\<close>: machine types, the byte-order helpers of \<^verbatim>\<open>crypto/common.h\<close>, division in C, results.

  \<^item> \<^verbatim>\<open>BlockHash\<close>, \<^verbatim>\<open>Sha256\<close>, \<^verbatim>\<open>Sha1\<close>, \<^verbatim>\<open>Ripemd160\<close>, \<^verbatim>\<open>Hash\<close>: the classes \<^verbatim>\<open>CSHA256\<close>, \<^verbatim>\<open>CSHA1\<close>,
    \<^verbatim>\<open>CRIPEMD160\<close>, \<^verbatim>\<open>CHash256\<close>, \<^verbatim>\<open>CHash160\<close> and \<^verbatim>\<open>CHMAC_SHA256\<close>. The locale \<^verbatim>\<open>md_hasher\<close> is the contract of the three streaming
    hashers and \<^verbatim>\<open>circular_schedule\<close> that of the message schedules kept in sixteen words; both are interpreted on the code. The
    lemmas show that any split of the input into \<^verbatim>\<open>Write\<close> calls gives the digest of the standard's definition of the whole.

  \<^item> \<^verbatim>\<open>ArithUint256\<close>, \<^verbatim>\<open>Compact\<close>: \<^verbatim>\<open>base_uint\<close> at 256 bits as eight limbs, with its operators, and the compact format of targets. The
    operators are those of the integers modulo \<open>2 ^ 256\<close> (locale \<^verbatim>\<open>uint_arith\<close>), division is exact, and the compact format is
    described completely, with its overflow flag, and round trips.

  \<^item> \<^verbatim>\<open>Pow\<close>, \<^verbatim>\<open>PowCorrect\<close>: \<^verbatim>\<open>pow.cpp\<close> but for the Equihash solver's check. The chain is the list of block indices from the tip. Shown are which
    blocks pass \<^verbatim>\<open>CheckProofOfWork\<close>, the value of a retargeting step, that \<^verbatim>\<open>GetNextWorkRequired\<close> returns on every chain with every
    array access in bounds, the work of a block, and the fairness of the notaries' second blocks.

  \<^item> \<^verbatim>\<open>Script\<close>, \<^verbatim>\<open>ScriptNum\<close>: \<^verbatim>\<open>script/script.h\<close> and \<^verbatim>\<open>script.cpp\<close>: opcodes, numbers, building, reading and recognising scripts.

  \<^item> \<^verbatim>\<open>Interpreter\<close>, \<^verbatim>\<open>InterpreterLimits\<close>, \<^verbatim>\<open>Spends\<close>: \<^verbatim>\<open>EvalScript\<close> with every opcode, and \<^verbatim>\<open>VerifyScript\<close>. The machine is a state
    passed from step to step and the runs are also a transition system. Shown are the limits on stacks and elements (locale \<^verbatim>\<open>element_limit\<close>), that no
    run reads below a stack or leaves the exceptions the code catches, what scripts that succeed look like, and the exact conditions of
    spending to a public key hash, to a script hash and of \<^verbatim>\<open>OP_CHECKMULTISIG\<close>.

  \<^item> \<^verbatim>\<open>Serialize\<close>, \<^verbatim>\<open>Transaction\<close>, \<^verbatim>\<open>TransactionCodec\<close>, \<^verbatim>\<open>Block\<close>: \<^verbatim>\<open>serialize.h\<close> and \<^verbatim>\<open>primitives\<close>. The locale \<^verbatim>\<open>codec\<close> is the contract of a
    writer and a reader: what is written is read back, and what is read is what would be written. It is interpreted for integers,
    sizes, vectors, each part of a transaction, transactions, headers, blocks and partial Merkle trees. Also here are the sums of outputs.

  \<^item> \<^verbatim>\<open>SigHash\<close>, \<^verbatim>\<open>SigCommit\<close>: \<^verbatim>\<open>SignatureHash\<close>, the checker of signatures and lock times, \<^verbatim>\<open>IsFinalTx\<close> of \<^verbatim>\<open>main.cpp\<close> and the hard fork
    of \<^verbatim>\<open>komodo_bitcoind.cpp\<close>. Shown are the equality with the reference form of the legacy hash, what the newer hash commits to, the outcome
    on every branch, and that a lock is respected after the fork.

  \<^item> \<^verbatim>\<open>Merkle\<close>, \<^verbatim>\<open>PartialMerkle\<close>: \<^verbatim>\<open>BuildMerkleTree\<close>, branches, \<^verbatim>\<open>CPartialMerkleTree\<close> and \<^verbatim>\<open>CMerkleBlock\<close>, with soundness up to collisions of
    the hashed pairs.

  \<^item> \<^verbatim>\<open>CheckQueue\<close>: \<^verbatim>\<open>CCheckQueue\<close> as an inductive step relation over the interleavings of the critical sections of any number of threads, with
    invariants by rule induction, the result of \<^verbatim>\<open>Wait\<close>, and that it returns.

  \<^item> \<^verbatim>\<open>Coins\<close>, \<^verbatim>\<open>CoinsCache\<close>, \<^verbatim>\<open>ConnectCoins\<close>: \<^verbatim>\<open>CCoins\<close>, \<^verbatim>\<open>CCoinsViewCache\<close> over \<^verbatim>\<open>CCoinsViewDB\<close>, and what \<^verbatim>\<open>ConnectBlock\<close> and
    \<^verbatim>\<open>DisconnectBlock\<close> do to a view. The locale \<^verbatim>\<open>view_lookup\<close> is the contract of the lookups. A stack of caches refines a stack of full copies,
    and disconnecting a block restores what was there before.

  \<^bold>\<open>Bounds and fuel.\<close> No definition needs fuel: loops are structural recursion, folds over ranges, or functions with a termination
  proof. Messages of any length are hashed, with the length word taken modulo \<open>2 ^ 64\<close> as in the code. The tables of the difficulty code
  have the 64 entries of the source, and the averaging window and block time are those for which no divisor is zero. Heights are below \<open>2 ^ 31\<close>, the range of
  \<^verbatim>\<open>int\<close>; a partial Merkle tree claims at most \<open>2 ^ 31\<close> transactions, beyond which the shifts of the source would wrap.

  \<^bold>\<open>Parameters.\<close> BLAKE2b, elliptic curves (\<^verbatim>\<open>secp256k1\<close>), crypto-conditions, the answers of the notary code and the commitment trees with their
  roots are arguments. Where a statement relies on the absence of collisions it says so for the pairs or strings that are hashed, and a witness
  shows that its hypotheses can hold.

  \<^bold>\<open>Not modelled.\<close> The checks of \<^verbatim>\<open>CheckBlock\<close> and \<^verbatim>\<open>AcceptBlock\<close>, the choice of the chain and the block files (interleaved with
  globals, locks and disk access), the memory pool and fee policy, the notary and cross-chain code, the shielded protocol and its circuits, the wallet,
  network, RPC, storage engine, start-up, mining and user interfaces: I/O, floating point, bundled libraries, or no part in
  consensus. The assembly versions of SHA-256, conversions to text, memory accounting and the compressed format of coins are left out.
\<close>

end
